theory Spec2Isabelle
  imports Main "HOL-Library.Word" "HOL-Library.Signed_Division" "HOL-Library.Multiset"
begin

unbundle bit_operations_syntax

section \<open>Data model of the scheduler (runtime/proc.go, Go 1.11.1)\<close>

text \<open>
  Pointers to G's, P's and M's are addresses, modelled as natural numbers with \<open>0\<close> for
  \<open>nil\<close> (Go's \<open>guintptr\<close>, \<open>puintptr\<close>, \<open>muintptr\<close>). The objects live in
  stores indexed by address, so that two pointers to the same P alias as they do in the
  runtime. The model is sequential: one M runs at a time, an atomic load reads the store,
  and a compare-and-swap compares with the store's current value.
\<close>

type_synonym guintptr = nat
type_synonym puintptr = nat
type_synonym uint32 = "32 word"
type_synonym int32 = "32 word"
type_synonym int64 = "64 word"
type_synonym uint64 = "64 word"
type_synonym uintptr = "64 word"

datatype error = Throw string

text \<open>
  G status (runtime2.go): the base states, and the \<open>_Gscan\<close> bit that may be set on top of
  one. A status word is the pair of the base state and the scan bit.
\<close>

datatype gstate = Gidle | Grunnable | Grunning | Gsyscall | Gwaiting | Gdead | Gcopystack

type_synonym gstatus = "gstate \<times> bool"

datatype pstatus = Pidle | Prunning | Psyscall | Pgcstop | Pdead

record stack =
  lo :: uintptr
  hi :: uintptr

record g =
  schedlink :: guintptr
  atomicstatus :: gstatus
  gcscanvalid :: bool
  preempt :: bool
  stackguard0 :: uintptr
  gstack :: stack
  goid :: int64
  startpc :: nat

record sysmontick =
  tick_schedtick :: uint32
  schedwhen :: int64
  tick_syscalltick :: uint32
  syscallwhen :: int64

record p =
  status :: pstatus
  runqhead :: uint32
  runqtail :: uint32
  runq :: "nat \<Rightarrow> guintptr"
  runnext :: guintptr
  schedtick :: uint32
  syscalltick :: uint32
  p_sysmontick :: sysmontick
  gfree :: guintptr
  gfreecnt :: int32
  goidcache :: uint64
  goidcacheend :: uint64

record schedt =
  lock_held :: bool
  sched_runqhead :: guintptr
  sched_runqtail :: guintptr
  runqsize :: int32
  npidle :: uint32
  nmspinning :: uint32
  nmidlelocked :: int32
  gcwaiting :: uint32
  gflock_held :: bool
  gfreeStack :: guintptr
  gfreeNoStack :: guintptr
  ngfree :: int32
  goidgen :: uint64
  ngsys :: uint32

text \<open>The M that executes the modelled code (\<open>getg().m\<close>).\<close>

record m =
  locks :: int32
  spinning :: bool
  m_p :: puintptr

text \<open>
  Calls that leave the modelled part of the runtime (thread start, hand-off, preemption
  requests, sleeping) are recorded, in order, as events.
\<close>

datatype event =
    Startm puintptr bool
  | Handoffp puintptr
  | Preemptone puintptr
  | Checkdead
  | Usleep nat
  | Osyield
  | Allgadd guintptr
  | Runqsteal puintptr puintptr bool

text \<open>\<open>randomOrder\<close> and \<open>randomEnum\<close>, the helper types of randomized work stealing.\<close>

record randomOrder =
  ord_count :: uint32
  coprimes :: "uint32 list"

record randomEnum =
  enum_i :: uint32
  enum_count :: uint32
  enum_pos :: uint32
  enum_inc :: uint32

record world =
  ps :: "puintptr \<Rightarrow> p"
  gs :: "guintptr \<Rightarrow> g"
  sched :: schedt
  allp :: "puintptr list"
  allpLock_held :: bool
  gomaxprocs :: int32
  curm :: m
  curg :: guintptr
  mainStarted :: bool
  rand :: "nat \<Rightarrow> uint32"
  heap_next :: guintptr
  stealOrder :: randomOrder
  events :: "event list"

text \<open>
  Build constants that are declared outside proc.go: \<open>raceenabled\<close> (race0.go / race.go),
  the target OS, and the stack constants of stack.go and sys. Three functions of other
  files are parameters as well: \<open>round2\<close> and \<open>stackalloc\<close> (stack.go), the latter with the
  number of the allocation as an extra argument, and \<open>isSystemGoroutine\<close> (traceback.go) as
  a predicate on the function that the G starts.
\<close>

record env =
  raceenabled :: bool
  GOOS_windows :: bool
  StackMin :: int32
  RegSize :: int32
  stackPreempt :: uintptr
  StackSystem :: int32
  StackGuard :: uintptr
  FixedStack :: uint32
  round2 :: "int32 \<Rightarrow> int32"
  stackalloc :: "nat \<Rightarrow> uint32 \<Rightarrow> stack"
  isSystemGoroutine :: "nat \<Rightarrow> bool"

definition upd_p :: "puintptr \<Rightarrow> (p \<Rightarrow> p) \<Rightarrow> world \<Rightarrow> world" where
  "upd_p pp f w = w\<lparr>ps := (ps w)(pp := f (ps w pp))\<rparr>"

definition upd_g :: "guintptr \<Rightarrow> (g \<Rightarrow> g) \<Rightarrow> world \<Rightarrow> world" where
  "upd_g gp f w = w\<lparr>gs := (gs w)(gp := f (gs w gp))\<rparr>"

definition upd_sched :: "(schedt \<Rightarrow> schedt) \<Rightarrow> world \<Rightarrow> world" where
  "upd_sched f w = w\<lparr>sched := f (sched w)\<rparr>"

definition emit :: "event \<Rightarrow> world \<Rightarrow> world" where
  "emit ev w = w\<lparr>events := events w @ [ev]\<rparr>"

text \<open>\<open>atomic.Cas(&x, old, new)\<close> on a location holding \<open>cur\<close>: success flag and new content.\<close>

definition cas :: "'a \<Rightarrow> 'a \<Rightarrow> 'a \<Rightarrow> bool \<times> 'a" where
  "cas cur old new = (if cur = old then (True, new) else (False, cur))"

text \<open>
  \<open>fastrand()\<close> (stubs.go) is taken as an oracle: the world carries the stream of the values
  its successive calls return. \<open>fastrandn(n)\<close> (stubs.go) reduces the next of them to a value
  below \<open>n\<close> by a multiplication and a shift:
  \<open>uint32(uint64(fastrand()) * uint64(n) >> 32)\<close>.
\<close>

definition fastrand :: "world \<Rightarrow> uint32 \<times> world" where
  "fastrand w = (rand w 0, w\<lparr>rand := (\<lambda>k. rand w (Suc k))\<rparr>)"

definition fastrandn :: "uint32 \<Rightarrow> world \<Rightarrow> uint32 \<times> world" where
  "fastrandn n w =
     (let (r, w1) = fastrand w
      in (ucast (drop_bit 32 ((ucast r :: uint64) * (ucast n :: uint64))), w1))"

text \<open>
  \<open>lock(&sched.lock)\<close>: the runtime mutex is not reentrant, and in the sequential model
  nobody else releases it, so locking a held lock never returns.
\<close>

definition lock_sched :: "world \<Rightarrow> world option" where
  "lock_sched w = (if lock_held (sched w) then None
     else Some (upd_sched (\<lambda>s. s\<lparr>lock_held := True\<rparr>) w))"

definition unlock_sched :: "world \<Rightarrow> world" where
  "unlock_sched w = upd_sched (\<lambda>s. s\<lparr>lock_held := False\<rparr>) w"

text \<open>\<open>len(_p_.runq)\<close>: the local run queue is a \<open>[256]guintptr\<close>.\<close>

abbreviation len_runq :: uint32 where
  "len_runq \<equiv> 256"

definition randomizeScheduler :: "env \<Rightarrow> bool" where
  "randomizeScheduler e = raceenabled e"

section \<open>Zero values and the default build\<close>

text \<open>
  Zero values (a freshly allocated object), and the default build: linux/amd64, no race
  detector. Its \<open>stackalloc\<close> hands out stacks of 32K at addresses 64K apart; \<open>round2\<close> is
  taken on powers of two only, where it is the identity.
\<close>

definition g_zero :: g where
  "g_zero = \<lparr>schedlink = 0, atomicstatus = (Gidle, False), gcscanvalid = False, preempt = False,
     stackguard0 = 0, gstack = \<lparr>lo = 0, hi = 0\<rparr>, goid = 0, startpc = 0\<rparr>"

definition p_zero :: p where
  "p_zero = \<lparr>status = Pidle, runqhead = 0, runqtail = 0, runq = (\<lambda>_. 0), runnext = 0,
     schedtick = 0, syscalltick = 0,
     p_sysmontick = \<lparr>tick_schedtick = 0, schedwhen = 0, tick_syscalltick = 0, syscallwhen = 0\<rparr>,
     gfree = 0, gfreecnt = 0, goidcache = 0, goidcacheend = 0\<rparr>"

definition sched_zero :: schedt where
  "sched_zero = \<lparr>lock_held = False, sched_runqhead = 0, sched_runqtail = 0, runqsize = 0,
     npidle = 0, nmspinning = 0, nmidlelocked = 0, gcwaiting = 0, gflock_held = False,
     gfreeStack = 0, gfreeNoStack = 0, ngfree = 0, goidgen = 0, ngsys = 0\<rparr>"

definition world_zero :: world where
  "world_zero = \<lparr>ps = (\<lambda>_. p_zero), gs = (\<lambda>_. g_zero), sched = sched_zero, allp = [],
     allpLock_held = False, gomaxprocs = 1, curm = \<lparr>locks = 0, spinning = False, m_p = 2\<rparr>,
     curg = 3, mainStarted = True, rand = (\<lambda>_. 0), heap_next = 1000,
     stealOrder = \<lparr>ord_count = 0, coprimes = []\<rparr>, events = []\<rparr>"

definition env_default :: env where
  "env_default = \<lparr>raceenabled = False, GOOS_windows = False, StackMin = 2048, RegSize = 8,
     stackPreempt = 0xFFFFFFFFFFFFFADE, StackSystem = 0, StackGuard = 880, FixedStack = 2048,
     round2 = (\<lambda>x. x),
     stackalloc = (\<lambda>k n. \<lparr>lo = push_bit 16 (0xC00000 + of_nat k),
                               hi = push_bit 16 (0xC00000 + of_nat k) OR 0x8000\<rparr>),
     isSystemGoroutine = (\<lambda>fn. False)\<rparr>"

section \<open>Global run queue\<close>

definition globrunqput :: "guintptr \<Rightarrow> world \<Rightarrow> world" where
  "globrunqput gp w =
     (let w1 = upd_g gp (\<lambda>x. x\<lparr>schedlink := 0\<rparr>) w;
          w2 = (if sched_runqtail (sched w1) \<noteq> 0
                then upd_g (sched_runqtail (sched w1)) (\<lambda>x. x\<lparr>schedlink := gp\<rparr>) w1
                else upd_sched (\<lambda>s. s\<lparr>sched_runqhead := gp\<rparr>) w1);
          w3 = upd_sched (\<lambda>s. s\<lparr>sched_runqtail := gp\<rparr>) w2
      in upd_sched (\<lambda>s. s\<lparr>runqsize := runqsize s + 1\<rparr>) w3)"

definition globrunqputhead :: "guintptr \<Rightarrow> world \<Rightarrow> world" where
  "globrunqputhead gp w =
     (let w1 = upd_g gp (\<lambda>x. x\<lparr>schedlink := sched_runqhead (sched w)\<rparr>) w;
          w2 = upd_sched (\<lambda>s. s\<lparr>sched_runqhead := gp\<rparr>) w1;
          w3 = (if sched_runqtail (sched w2) = 0
                then upd_sched (\<lambda>s. s\<lparr>sched_runqtail := gp\<rparr>) w2 else w2)
      in upd_sched (\<lambda>s. s\<lparr>runqsize := runqsize s + 1\<rparr>) w3)"

definition globrunqputbatch :: "guintptr \<Rightarrow> guintptr \<Rightarrow> int32 \<Rightarrow> world \<Rightarrow> world" where
  "globrunqputbatch ghead gtail n w =
     (let w1 = upd_g gtail (\<lambda>x. x\<lparr>schedlink := 0\<rparr>) w;
          w2 = (if sched_runqtail (sched w1) \<noteq> 0
                then upd_g (sched_runqtail (sched w1)) (\<lambda>x. x\<lparr>schedlink := ghead\<rparr>) w1
                else upd_sched (\<lambda>s. s\<lparr>sched_runqhead := ghead\<rparr>) w1);
          w3 = upd_sched (\<lambda>s. s\<lparr>sched_runqtail := gtail\<rparr>) w2
      in upd_sched (\<lambda>s. s\<lparr>runqsize := runqsize s + n\<rparr>) w3)"

section \<open>Local run queue\<close>

text \<open>
  \<open>runqempty\<close>: the loop repeats until two loads of the tail agree.
\<close>

partial_function (option) runqempty :: "puintptr \<Rightarrow> world \<Rightarrow> bool option" where
  "runqempty pp w =
     (let head = runqhead (ps w pp);
          tail = runqtail (ps w pp);
          rnext = runnext (ps w pp)
      in if tail = runqtail (ps w pp) then Some (head = tail \<and> rnext = 0)
         else runqempty pp w)"

text \<open>
  \<open>runqputslow\<close>: the batch is an array of \<open>len(runq)/2 + 1\<close> G pointers, here a list of
  that length. An index outside it is Go's run-time panic.
\<close>

definition swap_batch :: "guintptr list \<Rightarrow> nat \<Rightarrow> nat \<Rightarrow> error + guintptr list" where
  "swap_batch batch i j =
     (if i < length batch \<and> j < length batch
      then Inr (batch[i := batch ! j, j := batch ! i])
      else Inl (Throw ''index out of range''))"

fun shuffle_batch :: "nat \<Rightarrow> nat \<Rightarrow> guintptr list \<Rightarrow> world \<Rightarrow> error + guintptr list \<times> world" where
  "shuffle_batch 0 i batch w = Inr (batch, w)"
| "shuffle_batch (Suc k) i batch w =
     (let (j, w1) = fastrandn (of_nat i + 1) w
      in case swap_batch batch i (unat j) of
           Inl e \<Rightarrow> Inl e
         | Inr batch1 \<Rightarrow> shuffle_batch k (Suc i) batch1 w1)"

fun link_batch :: "guintptr list \<Rightarrow> world \<Rightarrow> world" where
  "link_batch (a # b # rest) w = link_batch (b # rest) (upd_g a (\<lambda>x. x\<lparr>schedlink := b\<rparr>) w)"
| "link_batch _ w = w"

definition runqputslow ::
    "env \<Rightarrow> puintptr \<Rightarrow> guintptr \<Rightarrow> uint32 \<Rightarrow> uint32 \<Rightarrow> world \<Rightarrow> (error + bool \<times> world) option" where
  "runqputslow e pp gp h t w =
     (let n = (t - h) div 2 in
      if n \<noteq> len_runq div 2 then Some (Inl (Throw ''runqputslow: queue is not full''))
      else
        let batch0 = map (\<lambda>i. runq (ps w pp) (unat ((h + of_nat i) mod len_runq))) [0..<unat n];
            (ok, v) = cas (runqhead (ps w pp)) h (h + n);
            w1 = upd_p pp (\<lambda>x. x\<lparr>runqhead := v\<rparr>) w
        in if \<not> ok then Some (Inr (False, w1))
           else
             let batch1 = batch0 @ [gp] in
             case (if randomizeScheduler e then shuffle_batch (unat n) 1 batch1 w1
                   else Inr (batch1, w1)) of
               Inl err \<Rightarrow> Some (Inl err)
             | Inr (batch, w2) \<Rightarrow>
                 (let w3 = link_batch batch w2 in
                  case lock_sched w3 of
                    None \<Rightarrow> None
                  | Some w4 \<Rightarrow>
                      Some (Inr (True,
                        unlock_sched
                          (globrunqputbatch (batch ! 0) (batch ! unat n) (n + 1) w4)))))"

text \<open>The \<open>retry\<close> loop of \<open>runqput\<close>.\<close>

partial_function (option) runqput_retry ::
    "env \<Rightarrow> puintptr \<Rightarrow> guintptr \<Rightarrow> world \<Rightarrow> (error + world) option" where
  "runqput_retry e pp gp w =
     (let h = runqhead (ps w pp);
          t = runqtail (ps w pp)
      in if t - h < len_runq
         then Some (Inr (upd_p pp (\<lambda>x. x\<lparr>runq := (runq x)(unat (t mod len_runq) := gp),
                                           runqtail := t + 1\<rparr>) w))
         else case runqputslow e pp gp h t w of
                None \<Rightarrow> None
              | Some (Inl err) \<Rightarrow> Some (Inl err)
              | Some (Inr (done, w1)) \<Rightarrow>
                  if done then Some (Inr w1) else runqput_retry e pp gp w1)"

text \<open>The \<open>retryNext\<close> loop of \<open>runqput\<close>: returns the old content of the slot.\<close>

partial_function (option) runqput_retryNext ::
    "puintptr \<Rightarrow> guintptr \<Rightarrow> world \<Rightarrow> (guintptr \<times> world) option" where
  "runqput_retryNext pp gp w =
     (let oldnext = runnext (ps w pp);
          (ok, v) = cas (runnext (ps w pp)) oldnext gp;
          w1 = upd_p pp (\<lambda>x. x\<lparr>runnext := v\<rparr>) w
      in if \<not> ok then runqput_retryNext pp gp w1 else Some (oldnext, w1))"

definition runqput :: "env \<Rightarrow> puintptr \<Rightarrow> guintptr \<Rightarrow> bool \<Rightarrow> world \<Rightarrow> (error + world) option" where
  "runqput e pp gp next w =
     (let (next1, w1) =
            (if randomizeScheduler e \<and> next
             then (let (r, w') = fastrand w in (if r mod 2 = 0 then False else next, w'))
             else (next, w))
      in if next1
         then (case runqput_retryNext pp gp w1 of
                 None \<Rightarrow> None
               | Some (oldnext, w2) \<Rightarrow>
                   if oldnext = 0 then Some (Inr w2) else runqput_retry e pp oldnext w2)
         else runqput_retry e pp gp w1)"

text \<open>\<open>runqget\<close>: the loop over the ring, then the function with its loop over runnext.\<close>

partial_function (option) runqget_ring ::
    "puintptr \<Rightarrow> world \<Rightarrow> ((guintptr \<times> bool) \<times> world) option" where
  "runqget_ring pp w =
     (let h = runqhead (ps w pp);
          t = runqtail (ps w pp)
      in if t = h then Some ((0, False), w)
         else
           let gp = runq (ps w pp) (unat (h mod len_runq));
               (ok, v) = cas (runqhead (ps w pp)) h (h + 1);
               w1 = upd_p pp (\<lambda>x. x\<lparr>runqhead := v\<rparr>) w
           in if ok then Some ((gp, False), w1) else runqget_ring pp w1)"

partial_function (option) runqget ::
    "puintptr \<Rightarrow> world \<Rightarrow> ((guintptr \<times> bool) \<times> world) option" where
  "runqget pp w =
     (let next = runnext (ps w pp)
      in if next = 0 then runqget_ring pp w
         else
           let (ok, v) = cas (runnext (ps w pp)) next 0;
               w1 = upd_p pp (\<lambda>x. x\<lparr>runnext := v\<rparr>) w
           in if ok then Some ((next, True), w1) else runqget pp w1)"

text \<open>
  \<open>runqgrab\<close>: one iteration of its loop either returns or goes round again. The batch is
  the run queue array of the P \<open>bp\<close> (\<open>runqsteal\<close> passes \<open>&_p_.runq\<close>).
\<close>

datatype 'a iter = Continue world | Return 'a world

definition grab_copy :: "puintptr \<Rightarrow> puintptr \<Rightarrow> uint32 \<Rightarrow> uint32 \<Rightarrow> nat \<Rightarrow> world \<Rightarrow> world" where
  "grab_copy pp bp h batchHead n w =
     fold (\<lambda>i w'. upd_p bp (\<lambda>x. x\<lparr>runq := (runq x)
               (unat ((batchHead + of_nat i) mod len_runq) :=
                  runq (ps w' pp) (unat ((h + of_nat i) mod len_runq)))\<rparr>) w')
          [0..<n] w"

definition runqgrab_iter ::
    "env \<Rightarrow> puintptr \<Rightarrow> puintptr \<Rightarrow> uint32 \<Rightarrow> bool \<Rightarrow> world \<Rightarrow> uint32 iter" where
  "runqgrab_iter e pp bp batchHead stealRunNextG w =
     (let h = runqhead (ps w pp);
          t = runqtail (ps w pp);
          n0 = t - h;
          n = n0 - n0 div 2
      in if n = 0 then
           (if stealRunNextG then
              (let next = runnext (ps w pp) in
               if next \<noteq> 0 then
                 (let w1 = (if status (ps w pp) = Prunning
                            then (if \<not> GOOS_windows e then emit (Usleep 3) w else emit Osyield w)
                            else w);
                      (ok, v) = cas (runnext (ps w1 pp)) next 0;
                      w2 = upd_p pp (\<lambda>x. x\<lparr>runnext := v\<rparr>) w1
                  in if \<not> ok then Continue w2
                     else Return 1 (upd_p bp (\<lambda>x. x\<lparr>runq := (runq x)
                               (unat (batchHead mod len_runq) := next)\<rparr>) w2))
               else Return 0 w)
            else Return 0 w)
         else if n > len_runq div 2 then Continue w
         else
           (let w1 = grab_copy pp bp h batchHead (unat n) w;
                (ok, v) = cas (runqhead (ps w1 pp)) h (h + n);
                w2 = upd_p pp (\<lambda>x. x\<lparr>runqhead := v\<rparr>) w1
            in if ok then Return n w2 else Continue w2))"

partial_function (option) runqgrab ::
    "env \<Rightarrow> puintptr \<Rightarrow> puintptr \<Rightarrow> uint32 \<Rightarrow> bool \<Rightarrow> world \<Rightarrow> (uint32 \<times> world) option" where
  "runqgrab e pp bp batchHead stealRunNextG w =
     (case runqgrab_iter e pp bp batchHead stealRunNextG w of
        Continue w1 \<Rightarrow> runqgrab e pp bp batchHead stealRunNextG w1
      | Return n w1 \<Rightarrow> Some (n, w1))"

definition runqsteal ::
    "env \<Rightarrow> puintptr \<Rightarrow> puintptr \<Rightarrow> bool \<Rightarrow> world \<Rightarrow> (error + guintptr \<times> world) option" where
  "runqsteal e pp p2 stealRunNextG w =
     (let t = runqtail (ps w pp) in
      case runqgrab e p2 pp t stealRunNextG w of
        None \<Rightarrow> None
      | Some (n, w1) \<Rightarrow>
          if n = 0 then Some (Inr (0, w1))
          else
            let n1 = n - 1;
                gp = runq (ps w1 pp) (unat ((t + n1) mod len_runq))
            in if n1 = 0 then Some (Inr (gp, w1))
               else
                 let h = runqhead (ps w1 pp) in
                 if t - h + n1 \<ge> len_runq then Some (Inl (Throw ''runqsteal: runq overflow''))
                 else Some (Inr (gp, upd_p pp (\<lambda>x. x\<lparr>runqtail := t + n1\<rparr>) w1)))"

section \<open>Taking from the global run queue\<close>

text \<open>Go's \<open>/\<close> on \<open>int32\<close> truncates towards zero; division by zero is a run-time panic.\<close>

definition sdiv32 :: "int32 \<Rightarrow> int32 \<Rightarrow> int32" where
  "sdiv32 a b = word_of_int (sint a sdiv sint b)"

fun globrunqget_loop :: "env \<Rightarrow> puintptr \<Rightarrow> nat \<Rightarrow> world \<Rightarrow> (error + world) option" where
  "globrunqget_loop e pp 0 w = Some (Inr w)"
| "globrunqget_loop e pp (Suc k) w =
     (let gp1 = sched_runqhead (sched w);
          w1 = upd_sched (\<lambda>s. s\<lparr>sched_runqhead := schedlink (gs w gp1)\<rparr>) w
      in case runqput e pp gp1 False w1 of
           None \<Rightarrow> None
         | Some (Inl err) \<Rightarrow> Some (Inl err)
         | Some (Inr w2) \<Rightarrow> globrunqget_loop e pp k w2)"

definition globrunqget_n :: "int32 \<Rightarrow> int32 \<Rightarrow> int32 \<Rightarrow> int32" where
  "globrunqget_n sz procs maxg =
     (let n0 = sdiv32 sz procs + 1;
          n1 = (if sz <s n0 then sz else n0);
          n2 = (if 0 <s maxg \<and> maxg <s n1 then maxg else n1)
      in if len_runq div 2 <s n2 then len_runq div 2 else n2)"

definition globrunqget ::
    "env \<Rightarrow> puintptr \<Rightarrow> int32 \<Rightarrow> world \<Rightarrow> (error + guintptr \<times> world) option" where
  "globrunqget e pp maxg w =
     (if runqsize (sched w) = 0 then Some (Inr (0, w))
      else if gomaxprocs w = 0 then Some (Inl (Throw ''integer divide by zero''))
      else
        let n = globrunqget_n (runqsize (sched w)) (gomaxprocs w) maxg;
            w1 = upd_sched (\<lambda>s. s\<lparr>runqsize := runqsize s - n\<rparr>) w;
            w2 = (if runqsize (sched w1) = 0
                  then upd_sched (\<lambda>s. s\<lparr>sched_runqtail := 0\<rparr>) w1 else w1);
            gp = sched_runqhead (sched w2);
            w3 = upd_sched (\<lambda>s. s\<lparr>sched_runqhead := schedlink (gs w2 gp)\<rparr>) w2
        in case globrunqget_loop e pp (nat (sint (n - 1))) w3 of
             None \<Rightarrow> None
           | Some (Inl err) \<Rightarrow> Some (Inl err)
           | Some (Inr w4) \<Rightarrow> Some (Inr (gp, w4)))"

text \<open>
  The content of the global queue: the \<open>runqsize\<close> G's reached from \<open>runqhead\<close> along
  \<open>schedlink\<close>. The representation invariant says that these are distinct non-nil G's,
  that \<open>runqtail\<close> is the last of them and ends the chain, and that head and tail are nil
  when there is none.
\<close>

fun walk :: "(guintptr \<Rightarrow> g) \<Rightarrow> guintptr \<Rightarrow> nat \<Rightarrow> guintptr list" where
  "walk f h 0 = []"
| "walk f h (Suc n) = h # walk f (schedlink (f h)) n"

definition globq :: "world \<Rightarrow> guintptr list" where
  "globq w = walk (gs w) (sched_runqhead (sched w)) (nat (sint (runqsize (sched w))))"

definition globq_inv :: "world \<Rightarrow> bool" where
  "globq_inv w =
     (0 \<le> sint (runqsize (sched w)) \<and> 0 \<notin> set (globq w) \<and> distinct (globq w) \<and>
      (if globq w = [] then sched_runqhead (sched w) = 0 \<and> sched_runqtail (sched w) = 0
       else sched_runqtail (sched w) = last (globq w)
            \<and> schedlink (gs w (last (globq w))) = 0))"

text \<open>The G reached from \<open>h\<close> after \<open>n\<close> links.\<close>

fun skip :: "(guintptr \<Rightarrow> g) \<Rightarrow> guintptr \<Rightarrow> nat \<Rightarrow> guintptr" where
  "skip f h 0 = h"
| "skip f h (Suc n) = skip f (schedlink (f h)) n"

text \<open>
  The share that \<open>globrunqget\<close> takes, in unbounded integers: \<open>size / gomaxprocs + 1\<close>,
  capped at the size, at \<open>max\<close> when that is positive, and at half the local capacity.
\<close>

definition share :: "int \<Rightarrow> int \<Rightarrow> int \<Rightarrow> int" where
  "share sz procs maxg =
     (let n0 = sz div procs + 1;
          n1 = (if n0 > sz then sz else n0);
          n2 = (if maxg > 0 \<and> n1 > maxg then maxg else n1)
      in if n2 > 128 then 128 else n2)"

text \<open>The G's in the ring of a P, oldest first.\<close>

definition ring :: "p \<Rightarrow> guintptr list" where
  "ring x = map (\<lambda>i. runq x (unat ((runqhead x + of_nat i) mod len_runq)))
                [0..<unat (runqtail x - runqhead x)]"

section \<open>Readying a G\<close>

definition readgstatus :: "guintptr \<Rightarrow> world \<Rightarrow> gstatus" where
  "readgstatus gp w = atomicstatus (gs w gp)"

text \<open>\<open>status &^ _Gscan\<close>.\<close>

definition clear_Gscan :: "gstatus \<Rightarrow> gstatus" where
  "clear_Gscan st = (fst st, False)"

text \<open>
  The loop of \<open>casgstatus\<close>. Its back-off (\<open>procyield\<close>, \<open>osyield\<close>, timed by \<open>nanotime\<close>)
  changes no scheduler state and is left out.
\<close>

partial_function (option) casgstatus_loop ::
    "guintptr \<Rightarrow> gstatus \<Rightarrow> gstatus \<Rightarrow> world \<Rightarrow> (error + world) option" where
  "casgstatus_loop gp oldval newval w =
     (let (ok, v) = cas (atomicstatus (gs w gp)) oldval newval;
          w1 = upd_g gp (\<lambda>x. x\<lparr>atomicstatus := v\<rparr>) w
      in if ok then Some (Inr w1)
         else if oldval = (Gwaiting, False) \<and> atomicstatus (gs w1 gp) = (Grunnable, False)
         then Some (Inl (Throw ''casgstatus: waiting for Gwaiting but is Grunnable''))
         else casgstatus_loop gp oldval newval w1)"

definition casgstatus :: "guintptr \<Rightarrow> gstatus \<Rightarrow> gstatus \<Rightarrow> world \<Rightarrow> (error + world) option" where
  "casgstatus gp oldval newval w =
     (if snd oldval \<or> snd newval \<or> oldval = newval
      then Some (Inl (Throw ''casgstatus: bad incoming values''))
      else if oldval = (Grunning, False) \<and> gcscanvalid (gs w gp)
      then Some (Inl (Throw ''casgstatus''))
      else case casgstatus_loop gp oldval newval w of
             None \<Rightarrow> None
           | Some (Inl err) \<Rightarrow> Some (Inl err)
           | Some (Inr w1) \<Rightarrow>
               Some (Inr (if newval = (Grunning, False)
                          then upd_g gp (\<lambda>x. x\<lparr>gcscanvalid := False\<rparr>) w1 else w1)))"

text \<open>\<open>wakep\<close>; the call \<open>startm(nil, true)\<close> is recorded.\<close>

definition wakep :: "world \<Rightarrow> world" where
  "wakep w =
     (let (ok, v) = cas (nmspinning (sched w)) 0 1;
          w1 = upd_sched (\<lambda>s. s\<lparr>nmspinning := v\<rparr>) w
      in if \<not> ok then w1 else emit (Startm 0 True) w1)"

definition locks_add :: "int32 \<Rightarrow> world \<Rightarrow> world" where
  "locks_add d w = w\<lparr>curm := (curm w)\<lparr>locks := locks (curm w) + d\<rparr>\<rparr>"

text \<open>The end of \<open>ready\<close> and \<open>newproc1\<close>: \<open>_g_.m.locks--\<close> and the restored preemption request.\<close>

definition locks_release :: "env \<Rightarrow> world \<Rightarrow> world" where
  "locks_release e w =
     (let w1 = locks_add (- 1) w
      in if locks (curm w1) = 0 \<and> preempt (gs w1 (curg w1))
         then upd_g (curg w1) (\<lambda>x. x\<lparr>stackguard0 := stackPreempt e\<rparr>) w1 else w1)"

text \<open>\<open>ready(gp, traceskip, next)\<close>; tracing is outside the model.\<close>

definition ready :: "env \<Rightarrow> guintptr \<Rightarrow> bool \<Rightarrow> world \<Rightarrow> (error + world) option" where
  "ready e gp next w =
     (let status = readgstatus gp w;
          w1 = locks_add 1 w
      in if clear_Gscan status \<noteq> (Gwaiting, False)
         then Some (Inl (Throw ''bad g->status in ready''))
         else case casgstatus gp (Gwaiting, False) (Grunnable, False) w1 of
                None \<Rightarrow> None
              | Some (Inl err) \<Rightarrow> Some (Inl err)
              | Some (Inr w2) \<Rightarrow>
                 (case runqput e (m_p (curm w2)) gp next w2 of
                    None \<Rightarrow> None
                  | Some (Inl err) \<Rightarrow> Some (Inl err)
                  | Some (Inr w3) \<Rightarrow>
                      let w4 = (if npidle (sched w3) \<noteq> 0 \<and> nmspinning (sched w3) = 0
                                then wakep w3 else w3)
                      in Some (Inr (locks_release e w4))))"

section \<open>Allocating and creating a G\<close>

text \<open>
  \<open>malg\<close>: \<open>new(g)\<close> takes the next free address and zeroes the object there.
\<close>

definition stackalloc_w :: "env \<Rightarrow> uint32 \<Rightarrow> world \<Rightarrow> stack \<times> world" where
  "stackalloc_w e n w = (stackalloc e (heap_next w) n, w\<lparr>heap_next := heap_next w + 1\<rparr>)"

definition malg :: "env \<Rightarrow> int32 \<Rightarrow> world \<Rightarrow> guintptr \<times> world" where
  "malg e stacksize w =
     (let newg = heap_next w;
          w1 = w\<lparr>gs := (gs w)(newg := g_zero), heap_next := heap_next w + 1\<rparr>
      in if 0 \<le>s stacksize
         then (let stacksize1 = round2 e (StackSystem e + stacksize);
                   (stk, w2) = stackalloc_w e (ucast stacksize1) w1
               in (newg, upd_g newg (\<lambda>x. x\<lparr>gstack := stk,
                                               stackguard0 := lo stk + StackGuard e\<rparr>) w2))
         else (newg, w1))"

text \<open>\<open>allgadd\<close>: the append to \<open>allgs\<close> under \<open>allglock\<close> is recorded.\<close>

definition allgadd :: "guintptr \<Rightarrow> world \<Rightarrow> error + world" where
  "allgadd gp w =
     (if readgstatus gp w = (Gidle, False) then Inl (Throw ''allgadd: bad status Gidle'')
      else Inr (emit (Allgadd gp) w))"

text \<open>
  \<open>gfget\<close>: the loop \<open>for _p_.gfreecnt < 32\<close> that moves free G's from the global lists to
  the list of the P, and the function with its \<open>retry\<close> loop.
\<close>

definition gfget_move :: "puintptr \<Rightarrow> guintptr \<Rightarrow> world \<Rightarrow> world" where
  "gfget_move pp gp w =
     (let w1 = upd_p pp (\<lambda>x. x\<lparr>gfreecnt := gfreecnt x + 1\<rparr>) w;
          w2 = upd_sched (\<lambda>s. s\<lparr>ngfree := ngfree s - 1\<rparr>) w1;
          w3 = upd_g gp (\<lambda>x. x\<lparr>schedlink := gfree (ps w2 pp)\<rparr>) w2
      in upd_p pp (\<lambda>x. x\<lparr>gfree := gp\<rparr>) w3)"

text \<open>The counter of the loop goes up by one, without overflow.\<close>

lemma gfreecnt_step:
  fixes c :: int32
  assumes "c <s 32"
  shows "sint c < 32 \<and> sint c < sint (c + 1)"
proof -
  have lt: "sint c < 32"
    using assms by (simp add: word_sless_alt)
  have ge: "- (2 ^ 31) \<le> sint c"
    using sint_ge [of c] by simp
  have "sint (c + 1) = signed_take_bit 31 (sint c + 1)"
    by (simp add: sint_word_ariths)
  also have "\<dots> = sint c + 1"
    using lt ge by (intro signed_take_bit_int_eq_self) simp_all
  finally show ?thesis
    using lt by simp
qed

function gfget_fill :: "puintptr \<Rightarrow> world \<Rightarrow> world" where
  "gfget_fill pp w =
     (if gfreecnt (ps w pp) <s 32
      then (if gfreeStack (sched w) \<noteq> 0
            then (let gp = gfreeStack (sched w);
                      w1 = upd_sched (\<lambda>s. s\<lparr>gfreeStack := schedlink (gs w gp)\<rparr>) w
                  in gfget_fill pp (gfget_move pp gp w1))
            else if gfreeNoStack (sched w) \<noteq> 0
            then (let gp = gfreeNoStack (sched w);
                      w1 = upd_sched (\<lambda>s. s\<lparr>gfreeNoStack := schedlink (gs w gp)\<rparr>) w
                  in gfget_fill pp (gfget_move pp gp w1))
            else w)
      else w)"
  by pat_completeness auto
termination
  by (relation "measure (\<lambda>(pp, w). nat (32 - sint (gfreecnt (ps w pp))))")
     (simp_all add: gfget_move_def Let_def upd_p_def upd_g_def upd_sched_def gfreecnt_step)

declare gfget_fill.simps [simp del]

partial_function (option) gfget :: "env \<Rightarrow> puintptr \<Rightarrow> world \<Rightarrow> (guintptr \<times> world) option" where
  "gfget e pp w =
     (let gp = gfree (ps w pp) in
      if gp = 0 \<and> (gfreeStack (sched w) \<noteq> 0 \<or> gfreeNoStack (sched w) \<noteq> 0)
      then (if gflock_held (sched w) then None
            else gfget e pp
                   (upd_sched (\<lambda>s. s\<lparr>gflock_held := False\<rparr>)
                      (gfget_fill pp (upd_sched (\<lambda>s. s\<lparr>gflock_held := True\<rparr>) w))))
      else if gp \<noteq> 0
      then (let w1 = upd_p pp (\<lambda>x. x\<lparr>gfree := schedlink (gs w gp),
                                        gfreecnt := gfreecnt x - 1\<rparr>) w
            in if lo (gstack (gs w1 gp)) = 0
               then (let (stk, w2) = stackalloc_w e (FixedStack e) w1
                     in Some (gp, upd_g gp (\<lambda>x. x\<lparr>gstack := stk,
                                   stackguard0 := lo stk + StackGuard e\<rparr>) w2))
               else Some (gp, w1))
      else Some (gp, w))"

text \<open>
  \<open>newproc1(fn, argp, narg, callergp, callerpc)\<close>. The function value is the address \<open>fn\<close>
  (0 for nil). The frame of the new G (the copy of the arguments to its stack, its saved
  registers), \<open>gopc\<close>, the ancestors and the labels are outside the model, so \<open>argp\<close>,
  \<open>callergp\<close> and \<open>callerpc\<close> have no part in it; tracing and the calls to the race
  detector are left out.
\<close>

abbreviation GoidCacheBatch :: uint64 where
  "GoidCacheBatch \<equiv> 16"

definition newproc1_g :: "env \<Rightarrow> puintptr \<Rightarrow> world \<Rightarrow> (error + guintptr \<times> world) option" where
  "newproc1_g e pp w =
     (case gfget e pp w of
        None \<Rightarrow> None
      | Some (newg, w1) \<Rightarrow>
          if newg = 0
          then (let (newg1, w2) = malg e (StackMin e) w1
                in case casgstatus newg1 (Gidle, False) (Gdead, False) w2 of
                     None \<Rightarrow> None
                   | Some (Inl err) \<Rightarrow> Some (Inl err)
                   | Some (Inr w3) \<Rightarrow>
                      (case allgadd newg1 w3 of
                         Inl err \<Rightarrow> Some (Inl err)
                       | Inr w4 \<Rightarrow> Some (Inr (newg1, w4))))
          else Some (Inr (newg, w1)))"

definition newproc1 :: "env \<Rightarrow> nat \<Rightarrow> int32 \<Rightarrow> world \<Rightarrow> (error + world) option" where
  "newproc1 e fn narg w =
     (if fn = 0 then Some (Inl (Throw ''go of nil func value''))
      else
        let w1 = locks_add 1 w;
            siz = (narg + 7) AND NOT 7
        in if StackMin e - 4 * RegSize e - RegSize e \<le>s siz
           then Some (Inl (Throw ''newproc: function arguments too large for new goroutine''))
           else
             let pp = m_p (curm w1) in
             case newproc1_g e pp w1 of
               None \<Rightarrow> None
             | Some (Inl err) \<Rightarrow> Some (Inl err)
             | Some (Inr (newg, w2)) \<Rightarrow>
                 if hi (gstack (gs w2 newg)) = 0
                 then Some (Inl (Throw ''newproc1: newg missing stack''))
                 else if readgstatus newg w2 \<noteq> (Gdead, False)
                 then Some (Inl (Throw ''newproc1: new g is not Gdead''))
                 else
                   let w3 = upd_g newg (\<lambda>x. x\<lparr>startpc := fn\<rparr>) w2;
                       w4 = (if isSystemGoroutine e (startpc (gs w3 newg))
                             then upd_sched (\<lambda>s. s\<lparr>ngsys := ngsys s + 1\<rparr>) w3 else w3);
                       w5 = upd_g newg (\<lambda>x. x\<lparr>gcscanvalid := False\<rparr>) w4
                   in case casgstatus newg (Gdead, False) (Grunnable, False) w5 of
                        None \<Rightarrow> None
                      | Some (Inl err) \<Rightarrow> Some (Inl err)
                      | Some (Inr w6) \<Rightarrow>
                         (let w7 = (if goidcache (ps w6 pp) = goidcacheend (ps w6 pp)
                                    then (let v = goidgen (sched w6) + GoidCacheBatch;
                                              wa = upd_sched (\<lambda>s. s\<lparr>goidgen := v\<rparr>) w6;
                                              wb = upd_p pp (\<lambda>x. x\<lparr>goidcache := v\<rparr>) wa;
                                              wc = upd_p pp (\<lambda>x. x\<lparr>goidcache :=
                                                      goidcache x - (GoidCacheBatch - 1)\<rparr>) wb
                                          in upd_p pp (\<lambda>x. x\<lparr>goidcacheend :=
                                                      goidcache x + GoidCacheBatch\<rparr>) wc)
                                    else w6);
                              w8 = upd_g newg (\<lambda>x. x\<lparr>goid := goidcache (ps w7 pp)\<rparr>) w7;
                              w9 = upd_p pp (\<lambda>x. x\<lparr>goidcache := goidcache x + 1\<rparr>) w8
                          in case runqput e pp newg True w9 of
                               None \<Rightarrow> None
                             | Some (Inl err) \<Rightarrow> Some (Inl err)
                             | Some (Inr w10) \<Rightarrow>
                                 let w11 = (if npidle (sched w10) \<noteq> 0
                                               \<and> nmspinning (sched w10) = 0 \<and> mainStarted w10
                                            then wakep w10 else w10)
                                 in Some (Inr (locks_release e w11))))"

text \<open>\<open>newproc(siz, fn)\<close> calls \<open>newproc1\<close> on the system stack.\<close>

definition newproc :: "env \<Rightarrow> int32 \<Rightarrow> nat \<Rightarrow> world \<Rightarrow> (error + world) option" where
  "newproc e siz fn w = newproc1 e fn siz w"

section \<open>Randomized stealing order\<close>





text \<open>\<open>start\<close>: \<open>%\<close> by zero and an index outside the slice are run-time panics.\<close>

definition start :: "randomOrder \<Rightarrow> uint32 \<Rightarrow> error + randomEnum" where
  "start ord i =
     (if ord_count ord = 0 \<or> (of_nat (length (coprimes ord)) :: uint32) = 0
      then Inl (Throw ''integer divide by zero'')
      else if unat (i mod of_nat (length (coprimes ord))) \<ge> length (coprimes ord)
      then Inl (Throw ''index out of range'')
      else Inr \<lparr>enum_i = 0, enum_count = ord_count ord, enum_pos = i mod ord_count ord,
                enum_inc = coprimes ord ! unat (i mod of_nat (length (coprimes ord)))\<rparr>)"

definition enum_done :: "randomEnum \<Rightarrow> bool" where
  "enum_done en = (enum_i en = enum_count en)"

text \<open>\<open>next\<close> is only called on an enumeration made by \<open>start\<close>, whose count is not zero.\<close>

definition enum_next :: "randomEnum \<Rightarrow> randomEnum" where
  "enum_next en = en\<lparr>enum_i := enum_i en + 1,
               enum_pos := (enum_pos en + enum_inc en) mod enum_count en\<rparr>"

definition position :: "randomEnum \<Rightarrow> uint32" where
  "position en = enum_pos en"

text \<open>
  The positions that the loop \<open>for enum := ord.start(seed); !enum.done(); enum.next()\<close> sees,
  in order.
\<close>

function enum_positions :: "randomEnum \<Rightarrow> uint32 list" where
  "enum_positions en =
     (if enum_done en then [] else position en # enum_positions (enum_next en))"
  by pat_completeness auto
termination
  by (relation "measure (\<lambda>en. unat (enum_count en - enum_i en))")
     (auto simp: enum_done_def enum_next_def unat_minus_one unat_gt_0 diff_diff_eq [symmetric])

declare enum_positions.simps [simp del]


section \<open>The stealing phase of findrunnable\<close>

datatype steal_result = Found guintptr | GotoTop | GotoStop

text \<open>
  The inner loop \<open>for enum := ...; !enum.done(); enum.next()\<close> of pass \<open>i\<close>. Every call of
  \<open>runqsteal\<close> is recorded with its victim and its \<open>stealRunNextG\<close> flag. \<open>None\<close> as the
  result of the loop means that the pass found nothing.
\<close>

function steal_enum ::
    "env \<Rightarrow> nat \<Rightarrow> randomEnum \<Rightarrow> world \<Rightarrow> (error + steal_result option \<times> world) option" where
  "steal_enum e i en w =
     (if enum_done en then Some (Inr (None, w))
      else if gcwaiting (sched w) \<noteq> 0 then Some (Inr (Some GotoTop, w))
      else
        let stealRunNextG = (i > 2) in
        if unat (position en) \<ge> length (allp w) then Some (Inl (Throw ''index out of range''))
        else
          let p2 = allp w ! unat (position en);
              w1 = emit (Runqsteal (m_p (curm w)) p2 stealRunNextG) w
          in case runqsteal e (m_p (curm w1)) p2 stealRunNextG w1 of
               None \<Rightarrow> None
             | Some (Inl err) \<Rightarrow> Some (Inl err)
             | Some (Inr (gp, w2)) \<Rightarrow>
                 if gp \<noteq> 0 then Some (Inr (Some (Found gp), w2))
                 else steal_enum e i (enum_next en) w2)"
  by pat_completeness auto
termination
  by (relation "measure (\<lambda>(e, i, en, w). unat (enum_count en - enum_i en))")
     (auto simp: enum_done_def enum_next_def unat_minus_one unat_gt_0 diff_diff_eq [symmetric])

declare steal_enum.simps [simp del]

text \<open>The outer loop \<open>for i := 0; i < 4; i++\<close>, with \<open>k\<close> passes left.\<close>

fun steal_passes :: "env \<Rightarrow> nat \<Rightarrow> nat \<Rightarrow> world \<Rightarrow> (error + steal_result \<times> world) option" where
  "steal_passes e i 0 w = Some (Inr (GotoStop, w))"
| "steal_passes e i (Suc k) w =
     (let (r, w1) = fastrand w in
      case start (stealOrder w1) r of
        Inl err \<Rightarrow> Some (Inl err)
      | Inr en \<Rightarrow>
         (case steal_enum e i en w1 of
            None \<Rightarrow> None
          | Some (Inl err) \<Rightarrow> Some (Inl err)
          | Some (Inr (Some res, w2)) \<Rightarrow> Some (Inr (res, w2))
          | Some (Inr (None, w2)) \<Rightarrow> steal_passes e (Suc i) k w2))"

text \<open>
  \<open>findrunnable\<close> from the comment ``Steal work from other P's'' to the label \<open>stop\<close>.
\<close>

definition findrunnable_steal :: "env \<Rightarrow> world \<Rightarrow> (error + steal_result \<times> world) option" where
  "findrunnable_steal e w =
     (let procs = gomaxprocs w in
      if npidle (sched w) = procs - 1 then Some (Inr (GotoStop, w))
      else if \<not> spinning (curm w) \<and> 2 * nmspinning (sched w) \<ge> procs - npidle (sched w)
      then Some (Inr (GotoStop, w))
      else
        let w1 = (if \<not> spinning (curm w)
                  then upd_sched (\<lambda>s. s\<lparr>nmspinning := nmspinning s + 1\<rparr>)
                         (w\<lparr>curm := (curm w)\<lparr>spinning := True\<rparr>\<rparr>)
                  else w)
        in steal_passes e 0 4 w1)"

text \<open>The victims and \<open>stealRunNextG\<close> flags of the recorded calls of \<open>runqsteal\<close>.\<close>

primrec steals :: "event list \<Rightarrow> (puintptr \<times> bool) list" where
  "steals [] = []"
| "steals (ev # evs) =
     (case ev of Runqsteal pp p2 f \<Rightarrow> (p2, f) # steals evs | _ \<Rightarrow> steals evs)"

section \<open>Retaking P's from syscalls\<close>








section \<open>Basic facts about the stores\<close>

lemma ps_upd_p [simp]: "ps (upd_p pp f w) = (ps w)(pp := f (ps w pp))"
  by (simp add: upd_p_def)

lemma gs_upd_p [simp]: "gs (upd_p pp f w) = gs w"
  by (simp add: upd_p_def)

lemma sched_upd_p [simp]: "sched (upd_p pp f w) = sched w"
  by (simp add: upd_p_def)

lemma ps_upd_g [simp]: "ps (upd_g gp f w) = ps w"
  by (simp add: upd_g_def)

lemma gs_upd_g [simp]: "gs (upd_g gp f w) = (gs w)(gp := f (gs w gp))"
  by (simp add: upd_g_def)

lemma sched_upd_g [simp]: "sched (upd_g gp f w) = sched w"
  by (simp add: upd_g_def)

lemma ps_upd_sched [simp]: "ps (upd_sched f w) = ps w"
  by (simp add: upd_sched_def)

lemma gs_upd_sched [simp]: "gs (upd_sched f w) = gs w"
  by (simp add: upd_sched_def)

lemma sched_upd_sched [simp]: "sched (upd_sched f w) = f (sched w)"
  by (simp add: upd_sched_def)

lemma runqempty_eq:
  "runqempty pp w = Some (runqhead (ps w pp) = runqtail (ps w pp) \<and> runnext (ps w pp) = 0)"
  by (subst runqempty.simps) simp

lemma runqput_retry_fast:
  "runqtail (ps w pp) - runqhead (ps w pp) < len_runq \<Longrightarrow>
   runqput_retry e pp gp w =
     Some (Inr (upd_p pp (\<lambda>x. x\<lparr>runq := (runq x)(unat (runqtail (ps w pp) mod len_runq) := gp),
                              runqtail := runqtail (ps w pp) + 1\<rparr>) w))"
  by (subst runqput_retry.simps) (simp add: Let_def)

lemma runqput_false:
  "runqput e pp gp False w = runqput_retry e pp gp w"
  by (simp add: runqput_def)

lemma runqget_ring_nonempty:
  "runqtail (ps w pp) \<noteq> runqhead (ps w pp) \<Longrightarrow>
   runqget_ring pp w =
     Some ((runq (ps w pp) (unat (runqhead (ps w pp) mod len_runq)), False),
           upd_p pp (\<lambda>x. x\<lparr>runqhead := runqhead (ps w pp) + 1\<rparr>) w)"
  by (subst runqget_ring.simps) (simp add: Let_def cas_def)

lemma runqget_ring_empty:
  "runqtail (ps w pp) = runqhead (ps w pp) \<Longrightarrow> runqget_ring pp w = Some ((0, False), w)"
  by (subst runqget_ring.simps) (simp add: Let_def)

lemma runqget_no_next:
  "runnext (ps w pp) = 0 \<Longrightarrow> runqget pp w = runqget_ring pp w"
  by (subst runqget.simps) (simp add: Let_def)

lemma runqget_next:
  "runnext (ps w pp) \<noteq> 0 \<Longrightarrow>
   runqget pp w = Some ((runnext (ps w pp), True), upd_p pp (\<lambda>x. x\<lparr>runnext := 0\<rparr>) w)"
  by (subst runqget.simps) (simp add: Let_def cas_def)

section \<open>Chains of G's and the global queue\<close>

lemma length_walk [simp]: "length (walk f h n) = n"
  by (induction n arbitrary: h) simp_all

lemma walk_cong:
  "(\<And>x. x \<in> set (butlast (walk f h n)) \<Longrightarrow> schedlink (f' x) = schedlink (f x)) \<Longrightarrow>
   walk f' h n = walk f h n"
proof (induction n arbitrary: h)
  case 0
  then show ?case by simp
next
  case (Suc n)
  show ?case
  proof (cases n)
    case 0
    then show ?thesis by simp
  next
    case (Suc k)
    then have ne: "walk f (schedlink (f h)) n \<noteq> []"
      by simp
    have hd: "schedlink (f' h) = schedlink (f h)"
      using Suc.prems [of h] ne by simp
    have "walk f' (schedlink (f h)) n = walk f (schedlink (f h)) n"
      using Suc.prems ne by (intro Suc.IH) simp
    with hd show ?thesis by simp
  qed
qed

lemma walk_snoc:
  "0 < n \<Longrightarrow> walk f h (Suc n) = walk f h n @ [schedlink (f (last (walk f h n)))]"
proof (induction n arbitrary: h)
  case 0
  then show ?case by simp
next
  case (Suc n)
  show ?case
  proof (cases n)
    case 0
    then show ?thesis by simp
  next
    case (Suc k)
    then have "walk f (schedlink (f h)) (Suc n) =
        walk f (schedlink (f h)) n @ [schedlink (f (last (walk f (schedlink (f h)) n)))]"
      by (intro Suc.IH) simp
    moreover have "walk f (schedlink (f h)) n \<noteq> []"
      using Suc by simp
    ultimately show ?thesis by simp
  qed
qed

lemma walk_add:
  "0 < n \<Longrightarrow> walk f h (n + k) = walk f h n @ walk f (schedlink (f (last (walk f h n)))) k"
proof (induction n arbitrary: h)
  case 0
  then show ?case by simp
next
  case (Suc n)
  show ?case
  proof (cases n)
    case 0
    then show ?thesis by simp
  next
    case (Suc j)
    then have "walk f (schedlink (f h)) (n + k) =
        walk f (schedlink (f h)) n @ walk f (schedlink (f (last (walk f (schedlink (f h)) n)))) k"
      by (intro Suc.IH) simp
    moreover have "walk f (schedlink (f h)) n \<noteq> []"
      using Suc by simp
    ultimately show ?thesis by simp
  qed
qed

lemma walk_hd: "0 < n \<Longrightarrow> hd (walk f h n) = h"
  by (cases n) simp_all

lemma walk_tl: "tl (walk f h (Suc n)) = walk f (schedlink (f h)) n"
  by simp

lemma walk_take: "k \<le> n \<Longrightarrow> take k (walk f h n) = walk f h k"
proof (induction k arbitrary: h n)
  case 0
  then show ?case by simp
next
  case (Suc k)
  then obtain j where "n = Suc j" by (cases n) auto
  with Suc show ?case by simp
qed

lemma walk_drop:
  "0 < k \<Longrightarrow> k \<le> n \<Longrightarrow>
   drop k (walk f h n) = walk f (schedlink (f (last (walk f h k)))) (n - k)"
  using walk_add [of k f h "n - k"] by simp


lemma sint_add_nowrap:
  "0 \<le> sint (a :: 32 word) \<Longrightarrow> 0 \<le> sint (b :: 32 word) \<Longrightarrow> sint a + sint b < 2 ^ 31 \<Longrightarrow>
   sint (a + b) = sint a + sint b"
  by (simp add: sint_word_ariths signed_take_bit_int_eq_self)

lemma sint_sub_nowrap:
  "0 \<le> sint (b :: 32 word) \<Longrightarrow> sint b \<le> sint (a :: 32 word) \<Longrightarrow> sint (a - b) = sint a - sint b"
proof -
  assume a: "0 \<le> sint b" "sint b \<le> sint a"
  have "sint a < 2 ^ 31"
    using sint_lt [of a] by simp
  with a show ?thesis
    by (simp add: sint_word_ariths signed_take_bit_int_eq_self)
qed

lemma globq_inv_nonempty:
  assumes "globq_inv w" and "globq w \<noteq> []"
  shows "sched_runqtail (sched w) = last (globq w)" and "sched_runqtail (sched w) \<noteq> 0"
    and "schedlink (gs w (last (globq w))) = 0" and "sched_runqtail (sched w) \<in> set (globq w)"
    and "sched_runqhead (sched w) = hd (globq w)"
proof -
  show t: "sched_runqtail (sched w) = last (globq w)"
    using assms by (simp add: globq_inv_def)
  show m: "sched_runqtail (sched w) \<in> set (globq w)"
    using t assms(2) by simp
  show "sched_runqtail (sched w) \<noteq> 0"
  proof
    assume "sched_runqtail (sched w) = 0"
    with m have "0 \<in> set (globq w)" by simp
    with assms(1) show False by (simp add: globq_inv_def)
  qed
  show "schedlink (gs w (last (globq w))) = 0"
    using assms by (simp add: globq_inv_def)
  have "0 < nat (sint (runqsize (sched w)))"
    using assms(2) by (cases "nat (sint (runqsize (sched w)))") (simp_all add: globq_def)
  then show "sched_runqhead (sched w) = hd (globq w)"
    by (simp add: globq_def walk_hd)
qed

lemma globq_empty_iff:
  "globq_inv w \<Longrightarrow> globq w = [] \<longleftrightarrow> runqsize (sched w) = 0"
proof -
  assume inv: "globq_inv w"
  have "length (globq w) = nat (sint (runqsize (sched w)))"
    by (simp add: globq_def)
  moreover have "0 \<le> sint (runqsize (sched w))"
    using inv by (simp add: globq_inv_def)
  ultimately show ?thesis
    by (metis length_0_conv nat_0_iff sint_0 signed_eq_0_iff order_antisym)
qed

lemma globrunqput_correct:
  assumes inv: "globq_inv w" and nz: "gp \<noteq> 0" and fresh: "gp \<notin> set (globq w)"
    and bound: "sint (runqsize (sched w)) < 2 ^ 31 - 1"
  shows "globq (globrunqput gp w) = globq w @ [gp]"
    and "globq_inv (globrunqput gp w)"
    and "sint (runqsize (sched (globrunqput gp w))) = sint (runqsize (sched w)) + 1"
proof -
  let ?n = "nat (sint (runqsize (sched w)))"
  let ?w' = "globrunqput gp w"
  have nonneg: "0 \<le> sint (runqsize (sched w))"
    using inv by (simp add: globq_inv_def)
  show sz: "sint (runqsize (sched ?w')) = sint (runqsize (sched w)) + 1"
    using nonneg bound by (simp add: globrunqput_def Let_def sint_add_nowrap)
  then have n': "nat (sint (runqsize (sched ?w'))) = Suc ?n"
    using nonneg by simp
  have q: "globq ?w' = globq w @ [gp]"
  proof (cases "globq w = []")
    case True
    then have "?n = 0"
      by (metis length_walk globq_def list.size(3))
    moreover have "sched_runqtail (sched w) = 0"
      using inv True by (simp add: globq_inv_def)
    ultimately show ?thesis
      using True n' by (simp add: globq_def globrunqput_def Let_def)
  next
    case False
    note ne = globq_inv_nonempty [OF inv False]
    have pos: "0 < ?n"
      using False by (cases ?n) (simp_all add: globq_def)
    let ?f' = "gs ?w'"
    have f': "?f' = (gs w)(gp := (gs w gp)\<lparr>schedlink := 0\<rparr>,
                sched_runqtail (sched w) :=
                  ((gs w)(gp := (gs w gp)\<lparr>schedlink := 0\<rparr>)) (sched_runqtail (sched w))
                    \<lparr>schedlink := gp\<rparr>)"
      using ne(2) by (simp add: globrunqput_def Let_def)
    have hd': "sched_runqhead (sched ?w') = sched_runqhead (sched w)"
      using ne(2) by (simp add: globrunqput_def Let_def)
    have same: "walk ?f' (sched_runqhead (sched w)) ?n = globq w"
      unfolding globq_def
    proof (rule walk_cong)
      fix x assume x: "x \<in> set (butlast (walk (gs w) (sched_runqhead (sched w)) ?n))"
      then have "x \<in> set (globq w)"
        by (auto simp: globq_def dest: in_set_butlastD)
      then have "x \<noteq> gp" using fresh by auto
      moreover have "x \<noteq> sched_runqtail (sched w)"
      proof
        assume "x = sched_runqtail (sched w)"
        then have "last (globq w) \<in> set (butlast (globq w))"
          using x ne(1) by (simp add: globq_def)
        moreover have "distinct (butlast (globq w) @ [last (globq w)])"
          using inv False by (simp add: globq_inv_def)
        ultimately show False by simp
      qed
      ultimately show "schedlink (?f' x) = schedlink (gs w x)"
        by (simp add: f')
    qed
    have "globq ?w' = walk ?f' (sched_runqhead (sched w)) (Suc ?n)"
      by (simp add: globq_def n' hd')
    also have "\<dots> = globq w @ [schedlink (?f' (last (globq w)))]"
      by (subst walk_snoc [OF pos]) (simp add: same)
    also have "schedlink (?f' (last (globq w))) = gp"
      using ne(1) by (simp add: f')
    finally show ?thesis .
  qed
  then show "globq ?w' = globq w @ [gp]" .
  have tl: "sched_runqtail (sched ?w') = gp"
    by (simp add: globrunqput_def Let_def)
  have lk: "schedlink (gs ?w' gp) = 0"
  proof (cases "globq w = []")
    case True
    then have "sched_runqtail (sched w) = 0"
      using inv by (simp add: globq_inv_def)
    then show ?thesis by (simp add: globrunqput_def Let_def)
  next
    case False
    note ne = globq_inv_nonempty [OF inv False]
    have "sched_runqtail (sched w) \<noteq> gp"
      using ne(4) fresh by auto
    then show ?thesis using ne(2) by (simp add: globrunqput_def Let_def)
  qed
  show "globq_inv ?w'"
    using inv nz fresh sz nonneg tl lk by (simp add: globq_inv_def q)
qed


lemma globq_length: "length (globq w) = nat (sint (runqsize (sched w)))"
  by (simp add: globq_def)

lemma distinct_last_butlast: "distinct xs \<Longrightarrow> xs \<noteq> [] \<Longrightarrow> last xs \<notin> set (butlast xs)"
  by (cases xs rule: rev_cases) auto

lemma globrunqputhead_correct:
  assumes inv: "globq_inv w" and nz: "gp \<noteq> 0" and fresh: "gp \<notin> set (globq w)"
    and bound: "sint (runqsize (sched w)) < 2 ^ 31 - 1"
  shows "globq (globrunqputhead gp w) = gp # globq w"
    and "globq_inv (globrunqputhead gp w)"
    and "sint (runqsize (sched (globrunqputhead gp w))) = sint (runqsize (sched w)) + 1"
proof -
  let ?n = "nat (sint (runqsize (sched w)))"
  let ?w' = "globrunqputhead gp w"
  have nonneg: "0 \<le> sint (runqsize (sched w))"
    using inv by (simp add: globq_inv_def)
  show sz: "sint (runqsize (sched ?w')) = sint (runqsize (sched w)) + 1"
    using nonneg bound by (simp add: globrunqputhead_def Let_def sint_add_nowrap)
  then have n': "nat (sint (runqsize (sched ?w'))) = Suc ?n"
    using nonneg by simp
  have f': "gs ?w' = (gs w)(gp := (gs w gp)\<lparr>schedlink := sched_runqhead (sched w)\<rparr>)"
    by (simp add: globrunqputhead_def Let_def)
  have hd': "sched_runqhead (sched ?w') = gp"
    by (simp add: globrunqputhead_def Let_def)
  have same: "walk (gs ?w') (sched_runqhead (sched w)) ?n = globq w"
    unfolding globq_def
  proof (rule walk_cong)
    fix x assume "x \<in> set (butlast (walk (gs w) (sched_runqhead (sched w)) ?n))"
    then have "x \<in> set (globq w)"
      by (auto simp: globq_def dest: in_set_butlastD)
    then have "x \<noteq> gp" using fresh by auto
    then show "schedlink (gs ?w' x) = schedlink (gs w x)"
      by (simp add: f')
  qed
  show q: "globq ?w' = gp # globq w"
    using same by (simp add: globq_def n' hd') (simp add: f')
  have tl: "sched_runqtail (sched ?w') = (if globq w = [] then gp else sched_runqtail (sched w))"
  proof (cases "globq w = []")
    case True
    then have "sched_runqtail (sched w) = 0"
      using inv by (simp add: globq_inv_def)
    with True show ?thesis by (simp add: globrunqputhead_def Let_def)
  next
    case False
    from globq_inv_nonempty(2) [OF inv False] False
    show ?thesis by (simp add: globrunqputhead_def Let_def)
  qed
  have lk: "schedlink (gs ?w' (last (gp # globq w))) = 0"
  proof (cases "globq w = []")
    case True
    then have "sched_runqhead (sched w) = 0"
      using inv by (simp add: globq_inv_def)
    with True show ?thesis by (simp add: f')
  next
    case False
    note ne = globq_inv_nonempty [OF inv False]
    have "last (globq w) \<noteq> gp"
      using ne(1) ne(4) fresh by auto
    with False ne(3) show ?thesis by (simp add: f')
  qed
  show "globq_inv ?w'"
    using inv nz fresh sz nonneg tl lk by (simp add: globq_inv_def q)
qed

lemma globrunqputbatch_correct:
  assumes inv: "globq_inv w"
    and ys: "walk (gs w) ghead (nat (sint n)) = ys" and pos: "0 < sint n"
    and last: "last ys = gtail" and dist: "distinct ys" and nz: "0 \<notin> set ys"
    and disj: "set ys \<inter> set (globq w) = {}"
    and bound: "sint (runqsize (sched w)) + sint n < 2 ^ 31"
  shows "globq (globrunqputbatch ghead gtail n w) = globq w @ ys"
    and "globq_inv (globrunqputbatch ghead gtail n w)"
    and "sint (runqsize (sched (globrunqputbatch ghead gtail n w))) =
           sint (runqsize (sched w)) + sint n"
proof -
  let ?n = "nat (sint (runqsize (sched w)))"
  let ?k = "nat (sint n)"
  let ?w' = "globrunqputbatch ghead gtail n w"
  let ?t = "sched_runqtail (sched w)"
  have nonneg: "0 \<le> sint (runqsize (sched w))"
    using inv by (simp add: globq_inv_def)
  have kpos: "0 < ?k" using pos by simp
  have ysne: "ys \<noteq> []"
    using ys kpos by (cases ?k) auto
  have gtail_in: "gtail \<in> set ys"
    using last ysne by auto
  have gtail_out: "gtail \<notin> set (globq w)"
    using gtail_in disj by auto
  show sz: "sint (runqsize (sched ?w')) = sint (runqsize (sched w)) + sint n"
    using nonneg bound pos by (simp add: globrunqputbatch_def Let_def sint_add_nowrap)
  then have n': "nat (sint (runqsize (sched ?w'))) = ?n + ?k"
    using nonneg pos by (simp add: nat_add_distrib)
  have tl: "sched_runqtail (sched ?w') = gtail"
    by (simp add: globrunqputbatch_def Let_def)
  have f': "gs ?w' = (if ?t \<noteq> 0
              then (gs w)(gtail := (gs w gtail)\<lparr>schedlink := 0\<rparr>,
                     ?t := ((gs w)(gtail := (gs w gtail)\<lparr>schedlink := 0\<rparr>)) ?t\<lparr>schedlink := ghead\<rparr>)
              else (gs w)(gtail := (gs w gtail)\<lparr>schedlink := 0\<rparr>))"
    by (simp add: globrunqputbatch_def Let_def)
  have t_out: "?t \<noteq> 0 \<Longrightarrow> ?t \<notin> set ys"
  proof -
    assume "?t \<noteq> 0"
    then have "globq w \<noteq> []"
      using inv by (auto simp: globq_inv_def)
    from globq_inv_nonempty(4) [OF inv this] disj show ?thesis by auto
  qed
  have batch: "walk (gs ?w') ghead ?k = ys"
    unfolding ys [symmetric]
  proof (rule walk_cong)
    fix x assume x: "x \<in> set (butlast (walk (gs w) ghead ?k))"
    then have xin: "x \<in> set ys"
      using ys by (auto dest: in_set_butlastD)
    have "x \<noteq> gtail"
      using x ys last distinct_last_butlast [OF dist ysne] by auto
    moreover have "?t \<noteq> 0 \<Longrightarrow> x \<noteq> ?t"
      using t_out xin by auto
    ultimately show "schedlink (gs ?w' x) = schedlink (gs w x)"
      by (simp add: f')
  qed
  have lk: "schedlink (gs ?w' gtail) = 0"
    using t_out gtail_in by (auto simp: f')
  show q: "globq ?w' = globq w @ ys"
  proof (cases "globq w = []")
    case True
    then have z: "?n = 0"
      by (metis globq_length list.size(3))
    have "?t = 0"
      using inv True by (simp add: globq_inv_def)
    then have "sched_runqhead (sched ?w') = ghead"
      by (simp add: globrunqputbatch_def Let_def)
    then show ?thesis
      using True z batch by (simp add: globq_def n')
  next
    case False
    note ne = globq_inv_nonempty [OF inv False]
    have npos: "0 < ?n"
      using False by (cases ?n) (simp_all add: globq_def)
    have hd': "sched_runqhead (sched ?w') = sched_runqhead (sched w)"
      using ne(2) by (simp add: globrunqputbatch_def Let_def)
    have same: "walk (gs ?w') (sched_runqhead (sched w)) ?n = globq w"
      unfolding globq_def
    proof (rule walk_cong)
      fix x assume x: "x \<in> set (butlast (walk (gs w) (sched_runqhead (sched w)) ?n))"
      then have xin: "x \<in> set (globq w)"
        by (auto simp: globq_def dest: in_set_butlastD)
      then have "x \<noteq> gtail" using gtail_out by auto
      moreover have "x \<noteq> ?t"
      proof -
        have "distinct (globq w)" using inv by (simp add: globq_inv_def)
        from distinct_last_butlast [OF this False] x ne(1) show ?thesis
          by (auto simp: globq_def)
      qed
      ultimately show "schedlink (gs ?w' x) = schedlink (gs w x)"
        by (simp add: f')
    qed
    have "globq ?w' = walk (gs ?w') (sched_runqhead (sched w)) (?n + ?k)"
      by (simp add: globq_def n' hd')
    also have "\<dots> = globq w @ walk (gs ?w') (schedlink (gs ?w' (last (globq w)))) ?k"
      by (subst walk_add [OF npos]) (simp add: same)
    also have "schedlink (gs ?w' (last (globq w))) = ghead"
      using ne(1) ne(2) by (simp add: f')
    finally show ?thesis by (simp add: batch)
  qed
  have "distinct (globq w @ ys)"
    using inv dist disj by (auto simp: globq_inv_def)
  moreover have "0 \<notin> set (globq w @ ys)"
    using inv nz by (auto simp: globq_inv_def)
  moreover have "0 \<le> sint (runqsize (sched ?w'))"
    using sz nonneg pos by simp
  ultimately show "globq_inv ?w'"
    using tl lk ysne last by (simp add: globq_inv_def q)
qed


subsection \<open>ring\<close>

lemma ring_index: "unat (((h :: 32 word) + of_nat i) mod 256) = (unat h + i) mod 256"
proof -
  have "unat ((h + of_nat i) mod 256) = ((unat h + i mod 2 ^ 32) mod 2 ^ 32) mod 256"
    by (simp add: unat_mod_distrib unat_word_ariths unat_of_nat)
  also have "\<dots> = ((unat h + i) mod 2 ^ 32) mod 256"
    by (simp add: mod_add_right_eq)
  also have "\<dots> = (unat h + i) mod 256"
    by (rule mod_mod_cancel) simp
  finally show ?thesis .
qed

lemma ring_index': "unat ((h :: 32 word) + of_nat i) mod 256 = (unat h + i) mod 256"
  using ring_index [of h i] by (simp add: unat_mod_distrib)

lemma ring_index0: "unat ((h :: 32 word) mod 256) = unat h mod 256"
  by (simp add: unat_mod_distrib)

lemma unat_tail: "unat (t :: 32 word) mod 256 = (unat h + unat (t - h)) mod 256"
proof -
  have "unat t mod 256 = unat (t mod 256)"
    by (simp add: unat_mod_distrib)
  also have "t mod 256 = (h + of_nat (unat (t - h))) mod 256"
    by simp
  also have "unat \<dots> = (unat h + unat (t - h)) mod 256"
    by (rule ring_index)
  finally show ?thesis .
qed

lemma ring_slots_differ:
  assumes "i < d" and "d < (256 :: nat)"
  shows "(a + i) mod 256 \<noteq> (a + d) mod 256"
proof
  assume "(a + i) mod 256 = (a + d) mod 256"
  then have "(a + d) mod 256 = (a + i) mod 256" by simp
  then have "256 dvd (a + d) - (a + i)"
    using assms(1) by (subst (asm) mod_eq_dvd_iff_nat) simp_all
  then have "256 dvd d - i"
    by simp
  moreover have "0 < d - i" and "d - i < 256"
    using assms by simp_all
  ultimately show False
    using nat_dvd_not_less by blast
qed

lemma length_ring [simp]: "length (ring x) = unat (runqtail x - runqhead x)"
  by (simp add: ring_def)

lemma ring_put:
  assumes "runqtail x - runqhead x < len_runq"
  shows "ring (x\<lparr>runq := (runq x)(unat (runqtail x mod len_runq) := gp),
                  runqtail := runqtail x + 1\<rparr>) = ring x @ [gp]"
proof -
  let ?d = "unat (runqtail x - runqhead x)"
  have d: "?d < 256"
    using assms by (simp add: word_less_nat_alt)
  have "unat (runqtail x + 1 - runqhead x) = unat ((runqtail x - runqhead x) + 1)"
    by (rule arg_cong [where f = unat]) simp
  also have "\<dots> = Suc ?d"
    using d by (simp add: unat_word_ariths)
  finally have len: "unat (runqtail x + 1 - runqhead x) = Suc ?d" .
  have neq: "(unat (runqhead x) + i) mod 256 \<noteq> unat (runqtail x) mod 256" if "i < ?d" for i
  proof -
    have "unat (runqtail x) mod 256 = (unat (runqhead x) + ?d) mod 256"
      by (rule unat_tail)
    moreover have "(unat (runqhead x) + i) mod 256 \<noteq> (unat (runqhead x) + ?d) mod 256"
      using that d by (rule ring_slots_differ)
    ultimately show ?thesis by simp
  qed
  let ?x' = "x\<lparr>runq := (runq x)(unat (runqtail x mod len_runq) := gp),
                  runqtail := runqtail x + 1\<rparr>"
  let ?f' = "\<lambda>i. runq ?x' (unat ((runqhead ?x' + of_nat i) mod len_runq))"
  let ?f = "\<lambda>i. runq x (unat ((runqhead x + of_nat i) mod len_runq))"
  have wrap: "runqhead x + of_nat ?d = runqtail x" by simp
  have "ring ?x' = map ?f' [0..<Suc ?d]"
    unfolding ring_def using len by simp
  also have "\<dots> = map ?f' [0..<?d] @ [?f' ?d]"
    by simp
  also have "map ?f' [0..<?d] = map ?f [0..<?d]"
  proof (rule map_cong)
    fix i assume "i \<in> set [0..<?d]"
    then have "i < ?d" by simp
    from neq [OF this] show "?f' i = ?f i"
      by (simp add: ring_index' unat_mod_distrib)
  qed simp
  also have "?f' ?d = gp"
    by (simp add: wrap)
  finally show ?thesis
    by (simp add: ring_def)
qed

lemma walk_plus: "walk f h (k + n) = walk f h k @ walk f (skip f h k) n"
  by (induction k arbitrary: h) simp_all

lemma walk_drop_skip: "k \<le> n \<Longrightarrow> drop k (walk f h n) = walk f (skip f h k) (n - k)"
  using walk_plus [of f h k "n - k"] by simp

lemma skip_Suc: "skip f h (Suc k) = schedlink (f (skip f h k))"
  by (induction k arbitrary: h) simp_all

lemma skip_last: "0 < k \<Longrightarrow> skip f h k = schedlink (f (last (walk f h k)))"
proof (induction k arbitrary: h)
  case 0
  then show ?case by simp
next
  case (Suc k)
  show ?case
  proof (cases k)
    case 0
    then show ?thesis by simp
  next
    case (Suc j)
    then have "walk f (schedlink (f h)) k \<noteq> []" by simp
    moreover have "skip f (schedlink (f h)) k = schedlink (f (last (walk f (schedlink (f h)) k)))"
      using Suc by (intro Suc.IH) simp
    ultimately show ?thesis by simp
  qed
qed

lemma runqput_False_fast:
  "runqtail (ps w pp) - runqhead (ps w pp) < len_runq \<Longrightarrow>
   runqput e pp gp False w =
     Some (Inr (upd_p pp (\<lambda>x. x\<lparr>runq := (runq x)(unat (runqtail (ps w pp) mod len_runq) := gp),
                              runqtail := runqtail (ps w pp) + 1\<rparr>) w))"
  by (simp add: runqput_false runqput_retry_fast)

lemma globrunqget_loop_fast:
  assumes "k = 0 \<or> unat (runqtail (ps w pp) - runqhead (ps w pp)) + k \<le> 256"
  shows "\<exists>w'. globrunqget_loop e pp k w = Some (Inr w')
          \<and> gs w' = gs w
          \<and> sched w' = (sched w)\<lparr>sched_runqhead := skip (gs w) (sched_runqhead (sched w)) k\<rparr>
          \<and> ring (ps w' pp) = ring (ps w pp) @ walk (gs w) (sched_runqhead (sched w)) k
          \<and> runqhead (ps w' pp) = runqhead (ps w pp)
          \<and> runqtail (ps w' pp) = runqtail (ps w pp) + of_nat k
          \<and> runnext (ps w' pp) = runnext (ps w pp)
          \<and> (\<forall>q. q \<noteq> pp \<longrightarrow> ps w' q = ps w q)"
  using assms
proof (induction k arbitrary: w)
  case 0
  then show ?case by simp
next
  case (Suc k)
  let ?gp1 = "sched_runqhead (sched w)"
  let ?w1 = "upd_sched (\<lambda>s. s\<lparr>sched_runqhead := schedlink (gs w ?gp1)\<rparr>) w"
  let ?t = "runqtail (ps w pp)"
  let ?w2 = "upd_p pp (\<lambda>x. x\<lparr>runq := (runq x)(unat (?t mod len_runq) := ?gp1),
                              runqtail := ?t + 1\<rparr>) ?w1"
  have d: "unat (?t - runqhead (ps w pp)) < 256"
    using Suc.prems by simp
  then have room: "runqtail (ps ?w1 pp) - runqhead (ps ?w1 pp) < len_runq"
    by (simp add: word_less_nat_alt)
  have put: "runqput e pp ?gp1 False ?w1 = Some (Inr ?w2)"
    using runqput_False_fast [OF room] by simp
  have "unat (?t + 1 - runqhead (ps w pp)) = unat ((?t - runqhead (ps w pp)) + 1)"
    by (rule arg_cong [where f = unat]) simp
  also have "\<dots> = Suc (unat (?t - runqhead (ps w pp)))"
    using d by (simp add: unat_word_ariths)
  finally have "k = 0 \<or> unat (runqtail (ps ?w2 pp) - runqhead (ps ?w2 pp)) + k \<le> 256"
    using Suc.prems by simp
  from Suc.IH [OF this] obtain w' where
    w': "globrunqget_loop e pp k ?w2 = Some (Inr w')"
      "gs w' = gs ?w2"
      "sched w' = (sched ?w2)\<lparr>sched_runqhead := skip (gs ?w2) (sched_runqhead (sched ?w2)) k\<rparr>"
      "ring (ps w' pp) = ring (ps ?w2 pp) @ walk (gs ?w2) (sched_runqhead (sched ?w2)) k"
      "runqhead (ps w' pp) = runqhead (ps ?w2 pp)"
      "runqtail (ps w' pp) = runqtail (ps ?w2 pp) + of_nat k"
      "runnext (ps w' pp) = runnext (ps ?w2 pp)"
      "\<forall>q. q \<noteq> pp \<longrightarrow> ps w' q = ps ?w2 q"
    by blast
  have r: "ring (ps ?w2 pp) = ring (ps w pp) @ [?gp1]"
    using ring_put [of "ps w pp" ?gp1] room by simp
  have "globrunqget_loop e pp (Suc k) w = Some (Inr w')"
    using put w'(1) by (simp add: Let_def)
  moreover have "ring (ps w' pp) = ring (ps w pp) @ walk (gs w) ?gp1 (Suc k)"
    using w'(4) r by simp
  ultimately show ?case
    using w'(2,3,5,6,7,8) by (intro exI [of _ w']) simp
qed


lemma sint_sdiv32:
  assumes "0 \<le> sint a" and "0 < sint b"
  shows "sint (sdiv32 a b) = sint a div sint b"
proof -
  have eq: "sint a sdiv sint b = sint a div sint b"
    using assms by (simp add: signed_divide_int_def sgn_if)
  have "0 \<le> sint a div sint b"
    using assms by (simp add: pos_imp_zdiv_nonneg_iff)
  moreover have "sint a div sint b \<le> sint a"
    using assms by (cases "sint a = 0") (simp_all add: int_div_le_self)
  moreover have "sint a < 2 ^ 31"
    using sint_lt [of a] by simp
  ultimately show ?thesis
    unfolding sdiv32_def eq by (simp add: sint_sbintrunc' signed_take_bit_int_eq_self)
qed

lemma globrunqget_n_share:
  assumes "0 < sint sz" and "sint sz < 2 ^ 31 - 1" and "0 < sint procs"
  shows "sint (globrunqget_n sz procs maxg) = share (sint sz) (sint procs) (sint maxg)"
proof -
  have d: "sint (sdiv32 sz procs) = sint sz div sint procs"
    using assms by (intro sint_sdiv32) simp_all
  have d0: "0 \<le> sint sz div sint procs" and d1: "sint sz div sint procs \<le> sint sz"
    using assms by (simp_all add: pos_imp_zdiv_nonneg_iff int_div_le_self)
  have n0: "sint (sdiv32 sz procs + 1) = sint sz div sint procs + 1"
    using d d0 d1 assms by (subst sint_add_nowrap) simp_all
  show ?thesis
    by (simp add: globrunqget_n_def share_def Let_def word_sless_alt n0)
qed

lemma share_bounds:
  assumes "0 < sz" and "0 < procs"
  shows "1 \<le> share sz procs maxg" and "share sz procs maxg \<le> sz" and "share sz procs maxg \<le> 128"
proof -
  have "0 \<le> sz div procs"
    using assms by (simp add: pos_imp_zdiv_nonneg_iff)
  then show "1 \<le> share sz procs maxg" and "share sz procs maxg \<le> sz" and "share sz procs maxg \<le> 128"
    using assms by (auto simp: share_def Let_def)
qed


lemma globrunqget_fast:
  assumes inv: "globq_inv w" and ne: "runqsize (sched w) \<noteq> 0"
    and procs: "0 < sint (gomaxprocs w)"
    and bound: "sint (runqsize (sched w)) < 2 ^ 31 - 1"
    and n: "n = nat (share (sint (runqsize (sched w))) (sint (gomaxprocs w)) (sint maxg))"
    and room: "n = 1 \<or> unat (runqtail (ps w pp) - runqhead (ps w pp)) + (n - 1) \<le> 256"
  shows "\<exists>w'. globrunqget e pp maxg w = Some (Inr (hd (globq w), w'))
          \<and> globq w' = drop n (globq w)
          \<and> globq_inv w'
          \<and> sint (runqsize (sched w')) = sint (runqsize (sched w)) - int n
          \<and> ring (ps w' pp) = ring (ps w pp) @ tl (take n (globq w))
          \<and> runqhead (ps w' pp) = runqhead (ps w pp)
          \<and> runnext (ps w' pp) = runnext (ps w pp)
          \<and> gs w' = gs w"
proof -
  let ?S = "runqsize (sched w)"
  let ?N = "globrunqget_n ?S (gomaxprocs w) maxg"
  let ?h = "sched_runqhead (sched w)"
  let ?f = "gs w"
  have nonneg: "0 \<le> sint ?S"
    using inv by (simp add: globq_inv_def)
  have "sint ?S \<noteq> 0"
    using ne by (simp add: signed_eq_0_iff)
  with nonneg have pos: "0 < sint ?S" by simp
  have N: "sint ?N = int n"
    using globrunqget_n_share [OF pos bound procs, of maxg] share_bounds(1) [OF pos procs, of "sint maxg"]
    by (simp add: n)
  have n1: "1 \<le> n" and nle: "int n \<le> sint ?S" and n128: "n \<le> 128"
    using share_bounds [OF pos procs, of "sint maxg"] by (simp_all add: n)
  have gnz: "gomaxprocs w \<noteq> 0"
    using procs by auto
  have xs: "globq w = walk ?f ?h (nat (sint ?S))"
    by (simp add: globq_def)
  have xsne: "globq w \<noteq> []"
    using pos by (cases "nat (sint ?S)") (simp_all add: xs)
  have hd: "hd (globq w) = ?h"
    using pos by (simp add: xs walk_hd)
  have size': "sint (?S - ?N) = sint ?S - int n"
    using nle by (subst sint_sub_nowrap) (simp_all add: N)
  have cnt: "nat (sint (?N - 1)) = n - 1"
    using n1 by (subst sint_sub_nowrap) (simp_all add: N)
  let ?w1 = "upd_sched (\<lambda>s. s\<lparr>runqsize := runqsize s - ?N\<rparr>) w"
  let ?w2 = "if runqsize (sched ?w1) = 0
             then upd_sched (\<lambda>s. s\<lparr>sched_runqtail := 0\<rparr>) ?w1 else ?w1"
  let ?w3 = "upd_sched (\<lambda>s. s\<lparr>sched_runqhead := schedlink (gs ?w2 (sched_runqhead (sched ?w2)))\<rparr>) ?w2"
  have w3_ps: "ps ?w3 = ps w" and w3_gs: "gs ?w3 = gs w"
    and w3_hd: "sched_runqhead (sched ?w3) = schedlink (?f ?h)"
    and w3_sz: "runqsize (sched ?w3) = ?S - ?N"
    and w3_tl: "sched_runqtail (sched ?w3) = (if ?S - ?N = 0 then 0 else sched_runqtail (sched w))"
    and w2_hd: "sched_runqhead (sched ?w2) = ?h"
    by simp_all
  have "n - 1 = 0 \<or> unat (runqtail (ps ?w3 pp) - runqhead (ps ?w3 pp)) + (n - 1) \<le> 256"
    using room by (simp only: w3_ps) auto
  from globrunqget_loop_fast [OF this, of e] obtain w' where
    w': "globrunqget_loop e pp (n - 1) ?w3 = Some (Inr w')"
      "gs w' = gs ?w3"
      "sched w' = (sched ?w3)\<lparr>sched_runqhead := skip (gs ?w3) (sched_runqhead (sched ?w3)) (n - 1)\<rparr>"
      "ring (ps w' pp) = ring (ps ?w3 pp) @ walk (gs ?w3) (sched_runqhead (sched ?w3)) (n - 1)"
      "runqhead (ps w' pp) = runqhead (ps ?w3 pp)"
      "runnext (ps w' pp) = runnext (ps ?w3 pp)"
    by blast
  have res: "globrunqget e pp maxg w = Some (Inr (?h, w'))"
    unfolding globrunqget_def Let_def using ne gnz w'(1) by (simp only: cnt w2_hd if_False) simp
  have gs': "gs w' = ?f"
    using w'(2) by (simp only: w3_gs)
  have hd': "sched_runqhead (sched w') = skip ?f ?h n"
  proof -
    have "sched_runqhead (sched w') = skip ?f (schedlink (?f ?h)) (n - 1)"
      using w'(3) by (simp only: w3_gs w3_hd) simp
    also have "\<dots> = skip ?f ?h (Suc (n - 1))" by simp
    finally show ?thesis using n1 by simp
  qed
  have sz': "runqsize (sched w') = ?S - ?N"
    using w'(3) w3_sz by simp
  have tl': "sched_runqtail (sched w') = (if ?S - ?N = 0 then 0 else sched_runqtail (sched w))"
    using w'(3) w3_tl by simp
  have nn: "nat (sint (runqsize (sched w'))) = nat (sint ?S) - n"
    using size' nle by (simp add: sz' nat_diff_distrib')
  have q: "globq w' = drop n (globq w)"
    using nle by (simp add: globq_def [of w'] gs' hd' nn xs walk_drop_skip nat_le_iff)
  have rg: "ring (ps w' pp) = ring (ps w pp) @ tl (take n (globq w))"
  proof -
    have "tl (take n (globq w)) = tl (walk ?f ?h (Suc (n - 1)))"
      using n1 nle by (simp add: xs walk_take nat_le_iff)
    also have "\<dots> = walk ?f (schedlink (?f ?h)) (n - 1)" by simp
    finally show ?thesis
      using w'(4) by (simp only: w3_gs w3_hd w3_ps)
  qed
  have inv': "globq_inv w'"
  proof (cases "drop n (globq w) = []")
    case True
    then have len: "nat (sint ?S) \<le> n"
      by (simp add: xs)
    with nle have eq: "int n = sint ?S" by simp
    have "sint ?N = sint ?S"
      using N eq by simp
    then have "?N = ?S"
      by (rule signed_word_eqI)
    then have z: "?S - ?N = 0"
      by simp
    have "skip ?f ?h n = schedlink (?f (last (walk ?f ?h n)))"
      using n1 by (intro skip_last) simp
    also have "walk ?f ?h n = globq w"
      using eq [symmetric] by (simp add: xs)
    also have "schedlink (?f (last (globq w))) = 0"
      using globq_inv_nonempty(3) [OF inv xsne] .
    finally have "sched_runqhead (sched w') = 0"
      by (simp add: hd')
    then show ?thesis
      using True z size' eq by (simp add: globq_inv_def q tl' sz')
  next
    case False
    then have lt: "n < nat (sint ?S)"
      by (simp add: xs)
    have nz: "?S - ?N \<noteq> 0"
    proof
      assume "?S - ?N = 0"
      then have "sint (?S - ?N) = 0" by simp
      with size' lt show False by simp
    qed
    have l: "last (drop n (globq w)) = last (globq w)"
      using lt by (simp add: xs)
    have "distinct (drop n (globq w))" and "0 \<notin> set (drop n (globq w))"
      using inv by (auto simp: globq_inv_def dest: in_set_dropD)
    moreover have "0 \<le> sint (runqsize (sched w'))"
      using size' nle by (simp add: sz')
    ultimately show ?thesis
      using False nz globq_inv_nonempty(1,3) [OF inv xsne]
      by (simp add: globq_inv_def q tl' l gs')
  qed
  show ?thesis
    using res q inv' size' rg w'(5,6) gs' by (intro exI [of _ w']) (simp add: hd sz')
qed

section \<open>Moving half of a full local queue\<close>

lemma sched_link_batch [simp]: "sched (link_batch b w) = sched w"
  by (induction b w rule: link_batch.induct) simp_all

lemma ps_link_batch [simp]: "ps (link_batch b w) = ps w"
  by (induction b w rule: link_batch.induct) simp_all

lemma gs_link_batch_other:
  "x \<notin> set (butlast b) \<Longrightarrow> gs (link_batch b w) x = gs w x"
  by (induction b w rule: link_batch.induct) (simp_all split: if_splits)

lemma walk_link_batch:
  "distinct b \<Longrightarrow> walk (gs (link_batch b w)) (hd b) (length b) = b"
proof (induction b w rule: link_batch.induct)
  case (1 a b rest w)
  let ?w1 = "upd_g a (\<lambda>x. x\<lparr>schedlink := b\<rparr>) w"
  have "a \<notin> set (butlast (b # rest))"
    using "1.prems" by (auto dest: in_set_butlastD)
  then have "gs (link_batch (b # rest) ?w1) a = gs ?w1 a"
    by (rule gs_link_batch_other)
  then have lk: "schedlink (gs (link_batch (a # b # rest) w) a) = b"
    by simp
  have "walk (gs (link_batch (b # rest) ?w1)) (hd (b # rest)) (length (b # rest)) = b # rest"
    using "1.prems" by (intro "1.IH") simp
  then show ?case
    using lk by simp
qed simp_all

lemma sched_fastrand [simp]: "sched (snd (fastrand w)) = sched w"
  and ps_fastrand [simp]: "ps (snd (fastrand w)) = ps w"
  and gs_fastrand [simp]: "gs (snd (fastrand w)) = gs w"
  and rand_fastrand: "rand (snd (fastrand w)) = (\<lambda>k. rand w (Suc k))"
  and fst_fastrand: "fst (fastrand w) = rand w 0"
  by (simp_all add: fastrand_def)

lemma snd_fastrandn: "snd (fastrandn n w) = snd (fastrand w)"
  by (simp add: fastrandn_def fastrand_def)

lemma unat_fastrandn: "unat (fst (fastrandn n w)) = (unat (rand w 0) * unat n) div 2 ^ 32"
proof -
  let ?r = "rand w 0"
  have r: "unat ?r < 2 ^ 32" and n: "unat n < 2 ^ 32"
    using unsigned_less [of ?r, where 'a = nat] unsigned_less [of n, where 'a = nat] by simp_all
  have "unat ?r * unat n \<le> (2 ^ 32 - 1) * (2 ^ 32 - 1)"
    using r n by (intro mult_mono) simp_all
  then have p: "unat ?r * unat n < 2 ^ 64"
    by simp
  have m: "unat ((ucast ?r :: 64 word) * ucast n) = unat ?r * unat n"
    using p r n by (simp add: unat_word_ariths unsigned_ucast_eq take_bit_nat_eq_self)
  have "unat (drop_bit 32 ((ucast ?r :: 64 word) * ucast n))
      = drop_bit 32 (unat ((ucast ?r :: 64 word) * ucast n))"
    by (rule unat_drop_bit_eq)
  also have "\<dots> = unat ((ucast ?r :: 64 word) * ucast n) div 2 ^ 32"
    by (rule drop_bit_eq_div)
  finally have d: "unat (drop_bit 32 ((ucast ?r :: 64 word) * ucast n))
      = (unat ?r * unat n) div 2 ^ 32"
    unfolding m .
  have "(unat ?r * unat n) div 2 ^ 32 < 2 ^ 32"
    using p by (simp add: less_mult_imp_div_less)
  with d show ?thesis
    by (simp add: fastrandn_def fastrand_def unsigned_ucast_eq take_bit_nat_eq_self)
qed

text \<open>\<open>fastrandn(n)\<close> is below \<open>n\<close>.\<close>

lemma fastrandn_less:
  assumes "0 < unat n"
  shows "unat (fst (fastrandn n w)) < unat n"
proof -
  have "unat (rand w 0) < 2 ^ 32"
    using unsigned_less [of "rand w 0", where 'a = nat] by simp
  then have "unat (rand w 0) * unat n < 2 ^ 32 * unat n"
    using assms by simp
  then have "(unat (rand w 0) * unat n) div 2 ^ 32 < unat n"
    by (simp add: less_mult_imp_div_less mult.commute)
  then show ?thesis
    by (simp only: unat_fastrandn)
qed

lemma unat_batch_index: "i < 2 ^ 32 - 1 \<Longrightarrow> unat (of_nat i + 1 :: uint32) = Suc i"
  by (simp add: unat_word_ariths unat_of_nat)

lemma shuffle_batch_frame:
  "shuffle_batch k i b w = Inr (b', w') \<Longrightarrow>
   sched w' = sched w \<and> ps w' = ps w \<and> gs w' = gs w"
proof (induction k arbitrary: i b w)
  case 0
  then show ?case by simp
next
  case (Suc k)
  obtain j w1 where f: "fastrandn (of_nat i + 1) w = (j, w1)"
    by (cases "fastrandn (of_nat i + 1) w")
  then have w1: "w1 = snd (fastrand w)"
    using snd_fastrandn [of "of_nat i + 1" w] by simp
  from Suc.prems f obtain b1 where
    "swap_batch b i (unat j) = Inr b1" and "shuffle_batch k (Suc i) b1 w1 = Inr (b', w')"
    by (auto simp: Let_def split: sum.splits)
  from Suc.IH [OF this(2)] show ?case
    by (simp add: w1)
qed

lemma shuffle_batch_ok:
  assumes "i + k \<le> length b" and "length b < 2 ^ 32"
  shows "\<exists>b' w'. shuffle_batch k i b w = Inr (b', w') \<and> mset b' = mset b"
  using assms
proof (induction k arbitrary: i b w)
  case 0
  then show ?case by simp
next
  case (Suc k)
  let ?n = "of_nat i + 1 :: uint32"
  let ?j = "unat (fst (fastrandn ?n w))"
  let ?w1 = "snd (fastrand w)"
  let ?b1 = "b[i := b ! ?j, ?j := b ! i]"
  have i: "i < length b"
    using Suc.prems by simp
  then have n: "unat ?n = Suc i"
    using Suc.prems(2) by (intro unat_batch_index) simp
  have f: "fastrandn ?n w = (fst (fastrandn ?n w), ?w1)"
    using snd_fastrandn [of ?n w] by (simp add: prod_eq_iff)
  have "?j < unat ?n"
    by (rule fastrandn_less) (simp add: n)
  then have j: "?j < length b"
    using i n by simp
  have sw: "swap_batch b i ?j = Inr ?b1"
    using i j by (simp add: swap_batch_def)
  have "Suc i + k \<le> length ?b1" and "length ?b1 < 2 ^ 32"
    using Suc.prems by simp_all
  from Suc.IH [OF this] obtain b' w' where
    r: "shuffle_batch k (Suc i) ?b1 ?w1 = Inr (b', w')" "mset b' = mset ?b1"
    by blast
  have "mset ?b1 = mset b"
    using i j by (simp add: mset_swap)
  with r sw show ?case
    by (subst shuffle_batch.simps, subst f) (simp add: Let_def)
qed


lemma globq_frame:
  assumes "sched_runqhead (sched w') = sched_runqhead (sched w)"
    and "sched_runqtail (sched w') = sched_runqtail (sched w)"
    and "runqsize (sched w') = runqsize (sched w)"
    and "\<And>x. x \<in> set (globq w) \<Longrightarrow> schedlink (gs w' x) = schedlink (gs w x)"
  shows "globq w' = globq w" and "globq_inv w \<Longrightarrow> globq_inv w'"
proof -
  show q: "globq w' = globq w"
    unfolding globq_def assms(1,3)
    by (rule walk_cong) (auto simp: globq_def assms(4) dest: in_set_butlastD)
  assume inv: "globq_inv w"
  show "globq_inv w'"
  proof (cases "globq w = []")
    case True
    with inv show ?thesis by (simp add: globq_inv_def q assms(1,2,3))
  next
    case False
    then have "last (globq w) \<in> set (globq w)" by simp
    then have "schedlink (gs w' (last (globq w))) = schedlink (gs w (last (globq w)))"
      by (rule assms(4))
    with inv False show ?thesis by (simp add: globq_inv_def q assms(1,2,3))
  qed
qed

lemma ring_full_half:
  assumes "runqtail x - runqhead x = len_runq"
  shows "take 128 (ring x) = map (\<lambda>i. runq x (unat ((runqhead x + of_nat i) mod len_runq))) [0..<128]"
    and "ring (x\<lparr>runqhead := runqhead x + 128\<rparr>) = drop 128 (ring x)"
proof -
  have len: "unat (runqtail x - runqhead x) = 256"
    using assms by simp
  show "take 128 (ring x) = map (\<lambda>i. runq x (unat ((runqhead x + of_nat i) mod len_runq))) [0..<128]"
    by (simp add: ring_def len take_map)
  have "runqtail x - (runqhead x + 128) = (runqtail x - runqhead x) - 128"
    by simp
  also have "\<dots> = 128"
    by (simp only: assms) simp
  finally have "unat (runqtail x - (runqhead x + 128)) = unat (128 :: 32 word)"
    by (rule arg_cong)
  then have len': "unat (runqtail x - (runqhead x + 128)) = 128"
    by simp
  let ?f = "\<lambda>i. runq x (unat ((runqhead x + of_nat i) mod len_runq))"
  have "drop 128 (ring x) = map ?f [128..<256]"
    by (simp add: ring_def len drop_map)
  also have "[128..<256] = map (\<lambda>i. i + 128) [0..<128]"
    using map_add_upt [of 128 128] by simp
  finally have d: "drop 128 (ring x) = map (\<lambda>i. ?f (i + 128)) [0..<128]"
    by (simp only: map_map o_def)
  have e: "runqhead x + 128 + of_nat i = runqhead x + of_nat (i + 128)" for i
    by simp
  have "ring (x\<lparr>runqhead := runqhead x + 128\<rparr>) =
          map (\<lambda>i. runq x (unat ((runqhead x + 128 + of_nat i) mod len_runq))) [0..<128]"
    unfolding ring_def using len' by simp
  then show "ring (x\<lparr>runqhead := runqhead x + 128\<rparr>) = drop 128 (ring x)"
    by (simp only: d e)
qed


lemma globq_lock_simps [simp]:
  "globq (upd_sched (\<lambda>s. s\<lparr>lock_held := b\<rparr>) w) = globq w"
  "globq_inv (upd_sched (\<lambda>s. s\<lparr>lock_held := b\<rparr>) w) = globq_inv w"
  by (simp_all add: globq_inv_def globq_def)

lemma full_half_word: 
  assumes full: "t - h = (len_runq)" 
  shows "(t - h) div 2 = (128 :: 32 word)"
    by (simp only: full) simp

lemma unat_128: "unat (128 :: 32 word) = 128" by simp

lemma runqputslow_unfold:
  assumes full: "t - h = len_runq" and h: "runqhead (ps w pp) = h"
  shows "runqputslow e pp gp h t w =
    (case (if randomizeScheduler e
           then shuffle_batch 128 1
                  (map (\<lambda>i. runq (ps w pp) (unat ((h + of_nat i) mod len_runq))) [0..<128] @ [gp])
                  (upd_p pp (\<lambda>x. x\<lparr>runqhead := h + 128\<rparr>) w)
           else Inr (map (\<lambda>i. runq (ps w pp) (unat ((h + of_nat i) mod len_runq))) [0..<128] @ [gp],
                     upd_p pp (\<lambda>x. x\<lparr>runqhead := h + 128\<rparr>) w)) of
       Inl err \<Rightarrow> Some (Inl err)
     | Inr (batch, w2) \<Rightarrow>
        (case lock_sched (link_batch batch w2) of
           None \<Rightarrow> None
         | Some w4 \<Rightarrow> Some (Inr (True, unlock_sched
              (globrunqputbatch (batch ! 0) (batch ! 128) 129 w4)))))"
proof -
  have n: "(t - h) div 2 = (128 :: 32 word)"
    by (rule full_half_word [OF full])
  have c: "cas (runqhead (ps w pp)) h (h + 128) = (True, h + 128)"
    by (simp add: cas_def h)
  have k: "(128 :: 32 word) \<noteq> len_runq div 2 \<longleftrightarrow> False" "(128 :: 32 word) + 1 = 129"
    by simp_all
  show ?thesis
    unfolding runqputslow_def Let_def n unat_128 c
    by (simp only: k split_conv simp_thms if_False if_True)
qed


lemma runqput_full:
  assumes full: "runqtail (ps w pp) - runqhead (ps w pp) = len_runq"
    and unlocked: "\<not> lock_held (sched w)"
    and inv: "globq_inv w"
    and half: "half = take 128 (ring (ps w pp))"
    and dist: "distinct (half @ [gp])" and nz: "0 \<notin> set (half @ [gp])"
    and disj: "set (half @ [gp]) \<inter> set (globq w) = {}"
    and bound: "sint (runqsize (sched w)) + 129 < 2 ^ 31"
  shows "\<exists>w' batch. runqput e pp gp False w = Some (Inr w')
          \<and> mset batch = mset (half @ [gp])
          \<and> (\<not> randomizeScheduler e \<longrightarrow> batch = half @ [gp])
          \<and> globq w' = globq w @ batch
          \<and> globq_inv w'
          \<and> sint (runqsize (sched w')) = sint (runqsize (sched w)) + 129
          \<and> ring (ps w' pp) = drop 128 (ring (ps w pp))
          \<and> length (ring (ps w' pp)) = 128
          \<and> runnext (ps w' pp) = runnext (ps w pp)
          \<and> \<not> lock_held (sched w')"
proof -
  let ?h = "runqhead (ps w pp)" and ?t = "runqtail (ps w pp)"
  let ?b1 = "half @ [gp]"
  let ?w1 = "upd_p pp (\<lambda>x. x\<lparr>runqhead := ?h + 128\<rparr>) w"
  have lenh: "length half = 128"
    by (simp add: half) (simp only: full, simp)
  have half': "map (\<lambda>i. runq (ps w pp) (unat ((?h + of_nat i) mod len_runq))) [0..<128] = half"
    using ring_full_half(1) [OF full] by (simp add: half)
  obtain batch w2 where
    sh: "(if randomizeScheduler e then shuffle_batch 128 1 ?b1 ?w1 else Inr (?b1, ?w1)) = Inr (batch, w2)"
    and ms: "mset batch = mset ?b1"
    and ordered: "\<not> randomizeScheduler e \<longrightarrow> batch = ?b1"
    and fr: "sched w2 = sched w" "ps w2 = ps ?w1" "gs w2 = gs w"
  proof (cases "randomizeScheduler e")
    case True
    have "1 + 128 \<le> length ?b1" and "length ?b1 < 2 ^ 32"
      using lenh by simp_all
    from shuffle_batch_ok [OF this] obtain b' w' where
      r: "shuffle_batch 128 1 ?b1 ?w1 = Inr (b', w')" "mset b' = mset ?b1"
      by blast
    from shuffle_batch_frame [OF r(1)] r True that [of b' w'] show ?thesis
      by simp
  next
    case False
    with that [of ?b1 ?w1] show ?thesis by simp
  qed
  have lenb: "length batch = 129"
    using mset_eq_length [OF ms] lenh by simp
  have setb: "set batch = set ?b1"
    using ms by (rule mset_eq_setD)
  have distb: "distinct batch"
    using mset_eq_imp_distinct_iff [OF ms] dist by simp
  have bne: "batch \<noteq> []"
    using lenb by auto
  let ?w3 = "link_batch batch w2"
  let ?w4 = "upd_sched (\<lambda>s. s\<lparr>lock_held := True\<rparr>) ?w3"
  let ?w5 = "globrunqputbatch (batch ! 0) (batch ! 128) 129 ?w4"
  have lk: "lock_sched ?w3 = Some ?w4"
    using unlocked by (simp add: lock_sched_def fr)
  have slow: "runqputslow e pp gp ?h ?t w = Some (Inr (True, unlock_sched ?w5))"
    unfolding runqputslow_unfold [OF full refl] half' using sh lk by simp
  have put: "runqput e pp gp False w = Some (Inr (unlock_sched ?w5))"
    unfolding runqput_false
    by (subst runqput_retry.simps) (simp only: Let_def full slow, simp)
  have same: "schedlink (gs ?w4 x) = schedlink (gs w x)" if "x \<in> set (globq w)" for x
  proof -
    have "x \<notin> set batch"
      using that disj setb by auto
    then have "x \<notin> set (butlast batch)"
      by (auto dest: in_set_butlastD)
    then show ?thesis
      by (simp add: gs_link_batch_other fr)
  qed
  have inv4: "globq_inv ?w4" and q4: "globq ?w4 = globq w"
    using globq_frame [of ?w4 w, OF _ _ _ same] inv by (simp_all add: fr)
  have hd: "batch ! 0 = hd batch" and last: "last batch = batch ! 128"
    using bne lenb by (simp_all add: hd_conv_nth last_conv_nth)
  have wk: "walk (gs ?w4) (batch ! 0) (nat (sint (129 :: 32 word))) = batch"
    using walk_link_batch [OF distb, of w2] by (simp add: hd lenb)
  have nzb: "0 \<notin> set batch" and disjb: "set batch \<inter> set (globq ?w4) = {}"
    using nz disj by (simp_all only: setb q4 not_False_eq_True)
  have bound4: "sint (runqsize (sched ?w4)) + sint (129 :: 32 word) < 2 ^ 31"
    using bound by (simp add: fr)
  note gb = globrunqputbatch_correct [OF inv4 wk _ last distb nzb disjb bound4]
  have r1: "globq ?w5 = globq w @ batch" and r2: "globq_inv ?w5"
    and r3: "sint (runqsize (sched ?w5)) = sint (runqsize (sched w)) + 129"
    using gb q4 by (simp_all add: fr)
  have ps5: "ps (unlock_sched ?w5) = ps ?w1"
    by (simp add: unlock_sched_def globrunqputbatch_def Let_def fr)
  have rg: "ring (ps (unlock_sched ?w5) pp) = drop 128 (ring (ps w pp))"
    using ring_full_half(2) [OF full] by (simp add: ps5)
  have "length (ring (ps (unlock_sched ?w5) pp)) = 128"
    by (simp only: rg length_drop length_ring full) simp
  moreover have "runnext (ps (unlock_sched ?w5) pp) = runnext (ps w pp)"
    by (simp add: ps5)
  moreover have "\<not> lock_held (sched (unlock_sched ?w5))"
    by (simp add: unlock_sched_def)
  moreover have "globq (unlock_sched ?w5) = globq w @ batch" "globq_inv (unlock_sched ?w5)"
    "sint (runqsize (sched (unlock_sched ?w5))) = sint (runqsize (sched w)) + 129"
    using r1 r2 r3 by (simp_all add: unlock_sched_def)
  ultimately show ?thesis
    using put ms ordered rg by blast
qed

lemma runqputslow_locked:
  assumes "lock_held (sched w)" and "runqhead (ps w pp) = h"
  shows "runqputslow e pp gp h t w = Some (Inr r) \<Longrightarrow> False"
proof -
  assume r: "runqputslow e pp gp h t w = Some (Inr r)"
  let ?n = "(t - h) div 2"
  let ?w1 = "upd_p pp (\<lambda>x. x\<lparr>runqhead := h + ?n\<rparr>) w"
  let ?b1 = "map (\<lambda>i. runq (ps w pp) (unat ((h + of_nat i) mod len_runq))) [0..<unat ?n] @ [gp]"
  have c: "cas (runqhead (ps w pp)) h (h + ?n) = (True, h + ?n)"
    by (simp add: cas_def assms(2))
  have locked: "lock_sched (link_batch b w2) = None" if "sched w2 = sched w" for b w2
    using assms(1) that by (simp add: lock_sched_def)
  show False
  proof (cases "randomizeScheduler e")
    case True
    show ?thesis
    proof (cases "shuffle_batch (unat ?n) 1 ?b1 ?w1")
      case (Inl err)
      with r True show ?thesis
        unfolding runqputslow_def Let_def c by (simp split: if_splits)
    next
      case (Inr bw)
      obtain b w2 where bw: "bw = (b, w2)" by (cases bw)
      from shuffle_batch_frame [OF Inr [unfolded bw]] have "sched w2 = sched w" by simp
      from locked [OF this] r True Inr bw show ?thesis
        unfolding runqputslow_def Let_def c by (simp split: if_splits)
    qed
  next
    case False
    have "sched ?w1 = sched w" by simp
    from locked [OF this] r False show ?thesis
      unfolding runqputslow_def Let_def c by (simp split: if_splits)
  qed
qed

lemma runqput_retry_locked:
  assumes "lock_held (sched w)" and "runqput_retry e pp gp w = Some (Inr w')"
  shows "runqtail (ps w pp) - runqhead (ps w pp) < len_runq"
proof (rule ccontr)
  assume n: "\<not> runqtail (ps w pp) - runqhead (ps w pp) < len_runq"
  let ?r = "runqputslow e pp gp (runqhead (ps w pp)) (runqtail (ps w pp)) w"
  have "\<And>r. ?r = Some (Inr r) \<Longrightarrow> False"
    using runqputslow_locked [OF assms(1) refl] by blast
  then have "?r = None \<or> (\<exists>err. ?r = Some (Inl err))"
    by (cases ?r) (auto intro: sum.exhaust)
  with assms(2) n show False
    by (subst (asm) runqput_retry.simps) (auto simp: Let_def)
qed

lemma runqput_full_locked:
  assumes "runqtail (ps w pp) - runqhead (ps w pp) = len_runq" and "lock_held (sched w)"
    and "\<not> randomizeScheduler e"
  shows "runqput e pp gp False w = None"
proof -
  have lk: "lock_sched (link_batch b (upd_p pp f w)) = None" for b f
    using assms(2) by (simp add: lock_sched_def)
  have "runqputslow e pp gp (runqhead (ps w pp)) (runqtail (ps w pp)) w = None"
    unfolding runqputslow_unfold [OF assms(1) refl] using assms(3) by (simp add: lk)
  then show ?thesis
    unfolding runqput_false
    by (subst runqput_retry.simps) (simp only: Let_def assms(1), simp)
qed

lemma globrunqget_loop_locked:
  assumes "lock_held (sched w)" and "globrunqget_loop e pp k w = Some (Inr w')"
  shows "k = 0 \<or> unat (runqtail (ps w pp) - runqhead (ps w pp)) + k \<le> 256"
  using assms
proof (induction k arbitrary: w)
  case 0
  show ?case by simp
next
  case (Suc k)
  let ?gp1 = "sched_runqhead (sched w)"
  let ?w1 = "upd_sched (\<lambda>s. s\<lparr>sched_runqhead := schedlink (gs w ?gp1)\<rparr>) w"
  let ?t = "runqtail (ps w pp)" and ?h = "runqhead (ps w pp)"
  let ?w2 = "upd_p pp (\<lambda>x. x\<lparr>runq := (runq x)(unat (?t mod len_runq) := ?gp1),
                              runqtail := ?t + 1\<rparr>) ?w1"
  from Suc.prems(2) obtain w2 where
    put: "runqput e pp ?gp1 False ?w1 = Some (Inr w2)"
    and rest: "globrunqget_loop e pp k w2 = Some (Inr w')"
    by (auto simp: Let_def split: option.splits sum.splits)
  have l1: "lock_held (sched ?w1)"
    using Suc.prems(1) by simp
  have room: "runqtail (ps ?w1 pp) - runqhead (ps ?w1 pp) < len_runq"
    using runqput_retry_locked [OF l1] put by (simp add: runqput_false)
  then have w2: "w2 = ?w2"
    using put runqput_False_fast [OF room, of e ?gp1] by simp
  have d: "unat (?t - ?h) < 256"
    using room by (simp add: word_less_nat_alt)
  have "unat (?t + 1 - ?h) = unat ((?t - ?h) + 1)"
    by (rule arg_cong [where f = unat]) simp
  also have "\<dots> = Suc (unat (?t - ?h))"
    using d by (simp add: unat_word_ariths)
  finally have len: "unat (runqtail (ps ?w2 pp) - runqhead (ps ?w2 pp)) = Suc (unat (?t - ?h))"
    by simp
  have "lock_held (sched ?w2)"
    using Suc.prems(1) by simp
  from Suc.IH [OF this rest [unfolded w2]] len d show ?case
    by auto
qed

lemma globrunqget_locked:
  assumes inv: "globq_inv w" and locked: "lock_held (sched w)"
    and procs: "0 < sint (gomaxprocs w)"
    and bound: "sint (runqsize (sched w)) < 2 ^ 31 - 1"
    and res: "globrunqget e pp maxg w = Some (Inr (gp, w'))"
  shows "globq_inv w' \<and> (\<exists>n. globq w' = drop n (globq w)
           \<and> sint (runqsize (sched w')) = sint (runqsize (sched w)) - int n)"
proof (cases "runqsize (sched w) = 0")
  case True
  with res have "w' = w"
    by (simp add: globrunqget_def)
  with inv show ?thesis
    by (auto intro: exI [of _ 0])
next
  case False
  let ?S = "runqsize (sched w)"
  let ?N = "globrunqget_n ?S (gomaxprocs w) maxg"
  define n where "n = nat (share (sint ?S) (sint (gomaxprocs w)) (sint maxg))"
  have nonneg: "0 \<le> sint ?S"
    using inv by (simp add: globq_inv_def)
  have "sint ?S \<noteq> 0"
    using False by (simp add: signed_eq_0_iff)
  with nonneg have pos: "0 < sint ?S" by simp
  have N: "sint ?N = int n"
    using globrunqget_n_share [OF pos bound procs, of maxg] share_bounds(1) [OF pos procs, of "sint maxg"]
    by (simp add: n_def)
  have n1: "1 \<le> n"
    using share_bounds(1) [OF pos procs, of "sint maxg"] by (simp add: n_def)
  have cnt: "nat (sint (?N - 1)) = n - 1"
    using n1 by (subst sint_sub_nowrap) (simp_all add: N)
  have gnz: "gomaxprocs w \<noteq> 0"
    using procs by auto
  let ?w1 = "upd_sched (\<lambda>s. s\<lparr>runqsize := runqsize s - ?N\<rparr>) w"
  let ?w2 = "if runqsize (sched ?w1) = 0
             then upd_sched (\<lambda>s. s\<lparr>sched_runqtail := 0\<rparr>) ?w1 else ?w1"
  let ?w3 = "upd_sched (\<lambda>s. s\<lparr>sched_runqhead := schedlink (gs ?w2 (sched_runqhead (sched ?w2)))\<rparr>) ?w2"
  from res False gnz obtain w4 where
    loop: "globrunqget_loop e pp (nat (sint (?N - 1))) ?w3 = Some (Inr w4)"
    unfolding globrunqget_def Let_def
    by (simp split: option.splits sum.splits)
  have l3: "lock_held (sched ?w3)"
    using locked by simp
  have "ps ?w3 = ps w" by simp
  with globrunqget_loop_locked [OF l3 loop] cnt n1
  have room: "n = 1 \<or> unat (runqtail (ps w pp) - runqhead (ps w pp)) + (n - 1) \<le> 256"
    by auto
  from globrunqget_fast [OF inv False procs bound n_def room, of e]
  obtain w'' where
    "globrunqget e pp maxg w = Some (Inr (hd (globq w), w''))"
    "globq w'' = drop n (globq w)" "globq_inv w''"
    "sint (runqsize (sched w'')) = sint ?S - int n"
    by blast
  with res show ?thesis
    by auto
qed

section \<open>Round trip through an empty local queue\<close>

text \<open>
  C9: on a P whose ring and runnext slot are both empty, \<open>runqput(p, g, false)\<close> followed
  by \<open>runqget(p)\<close> returns \<open>g\<close> with \<open>inheritTime = false\<close>, and the queue is empty again.
\<close>

theorem runqput_runqget_roundtrip:
  assumes "runqhead (ps w pp) = runqtail (ps w pp)" and "runnext (ps w pp) = 0"
  shows "\<exists>w1 w2. runqput e pp gp False w = Some (Inr w1)
           \<and> runqget pp w1 = Some ((gp, False), w2)
           \<and> runqempty pp w2 = Some True
           \<and> runqhead (ps w2 pp) = runqtail (ps w2 pp) \<and> runnext (ps w2 pp) = 0"
proof -
  let ?t = "runqtail (ps w pp)"
  let ?w1 = "upd_p pp (\<lambda>x. x\<lparr>runq := (runq x)(unat (?t mod len_runq) := gp),
                              runqtail := ?t + 1\<rparr>) w"
  let ?w2 = "upd_p pp (\<lambda>x. x\<lparr>runqhead := runqhead (ps ?w1 pp) + 1\<rparr>) ?w1"
  have room: "?t - runqhead (ps w pp) < len_runq"
    using assms(1) by simp
  have put: "runqput e pp gp False w = Some (Inr ?w1)"
    by (simp add: runqput_false runqput_retry_fast [OF room])
  have ne: "runqtail (ps ?w1 pp) \<noteq> runqhead (ps ?w1 pp)"
    using assms(1) by simp
  have nonext: "runnext (ps ?w1 pp) = 0"
    using assms(2) by simp
  have get: "runqget pp ?w1 = Some ((gp, False), ?w2)"
    using assms(1) by (simp add: runqget_no_next [OF nonext] runqget_ring_nonempty [OF ne])
  have emp: "runqhead (ps ?w2 pp) = runqtail (ps ?w2 pp) \<and> runnext (ps ?w2 pp) = 0"
    using assms by simp
  then have "runqempty pp ?w2 = Some True"
    by (simp add: runqempty_eq)
  with put get emp show ?thesis by blast
qed

theorem runqput_runqget_roundtrip_witness:
  "\<exists>w1 w2. runqput env_default 1 7 False world_zero = Some (Inr w1)
       \<and> runqget 1 w1 = Some ((7, False), w2)
       \<and> runqempty 1 w2 = Some True
       \<and> runqhead (ps w2 1) = runqtail (ps w2 1) \<and> runnext (ps w2 1) = 0"
proof -
  have h1: "runqhead (ps world_zero 1) = runqtail (ps world_zero 1)"
    by (simp add: world_zero_def p_zero_def)
  have h2: "runnext (ps world_zero 1) = 0"
    by (simp add: world_zero_def p_zero_def)
  show ?thesis
    by (rule runqput_runqget_roundtrip [OF h1 h2])
qed

section \<open>The invariant of the global run queue\<close>

text \<open>A world whose global queue holds the single G 5, with the scheduler lock held.\<close>

definition wit_glob :: world where
  "wit_glob = world_zero\<lparr>sched := sched_zero\<lparr>lock_held := True, sched_runqhead := 5,
     sched_runqtail := 5, runqsize := 1\<rparr>\<rparr>"

text \<open>
  C10: the representation invariant of the global run queue. Under \<open>globq_inv\<close>,
  \<open>sched.runqsize\<close> is the number of G's on the \<open>schedlink\<close> chain from
  \<open>sched.runqhead\<close>, \<open>sched.runqtail\<close> is the last of them and is nil exactly when the
  queue is empty. \<open>globrunqput\<close>, \<open>globrunqputhead\<close> and \<open>globrunqputbatch\<close> keep the
  invariant when they are given fresh non-nil G's (for the batch: a chain of \<open>n\<close> of them
  ending in \<open>gtail\<close>), and add exactly these to the queue and their number to
  \<open>runqsize\<close>. \<open>globrunqget\<close>, called with the scheduler lock held as its comment
  requires, keeps the invariant whenever it returns, and has then removed a prefix of the
  queue and subtracted its length from \<open>runqsize\<close>.
\<close>

theorem globrunq_invariant:
  assumes inv: "globq_inv w" and bound: "sint (runqsize (sched w)) < 2 ^ 31 - 1"
  shows "length (globq w) = nat (sint (runqsize (sched w)))
     \<and> (sched_runqtail (sched w) = 0 \<longleftrightarrow> globq w = [])
     \<and> (globq w \<noteq> [] \<longrightarrow> sched_runqtail (sched w) = last (globq w))
     \<and> (gp \<noteq> 0 \<and> gp \<notin> set (globq w) \<longrightarrow>
          globq_inv (globrunqput gp w) \<and> globq (globrunqput gp w) = globq w @ [gp]
          \<and> sint (runqsize (sched (globrunqput gp w))) = sint (runqsize (sched w)) + 1)
     \<and> (gp \<noteq> 0 \<and> gp \<notin> set (globq w) \<longrightarrow>
          globq_inv (globrunqputhead gp w) \<and> globq (globrunqputhead gp w) = gp # globq w
          \<and> sint (runqsize (sched (globrunqputhead gp w))) = sint (runqsize (sched w)) + 1)
     \<and> (0 < sint n \<and> sint (runqsize (sched w)) + sint n < 2 ^ 31
          \<and> walk (gs w) ghead (nat (sint n)) = ys \<and> last ys = gtail
          \<and> distinct ys \<and> 0 \<notin> set ys \<and> set ys \<inter> set (globq w) = {} \<longrightarrow>
          globq_inv (globrunqputbatch ghead gtail n w)
          \<and> globq (globrunqputbatch ghead gtail n w) = globq w @ ys
          \<and> sint (runqsize (sched (globrunqputbatch ghead gtail n w))) =
                sint (runqsize (sched w)) + sint n)
     \<and> (lock_held (sched w) \<and> 0 < sint (gomaxprocs w)
          \<and> globrunqget e pp maxg w = Some (Inr (gp', w')) \<longrightarrow>
          globq_inv w' \<and> (\<exists>k. globq w' = drop k (globq w)
             \<and> sint (runqsize (sched w')) = sint (runqsize (sched w)) - int k))"
proof (intro conjI impI)
  show "length (globq w) = nat (sint (runqsize (sched w)))"
    by (rule globq_length)
  show "sched_runqtail (sched w) = 0 \<longleftrightarrow> globq w = []"
  proof
    show "globq w = []" if "sched_runqtail (sched w) = 0"
      using globq_inv_nonempty(2) [OF inv] that by blast
    show "sched_runqtail (sched w) = 0" if "globq w = []"
      using inv that by (simp add: globq_inv_def)
  qed
  show "sched_runqtail (sched w) = last (globq w)" if "globq w \<noteq> []"
    using globq_inv_nonempty(1) [OF inv that] .
next
  assume a: "gp \<noteq> 0 \<and> gp \<notin> set (globq w)"
  then have nz: "gp \<noteq> 0" and fresh: "gp \<notin> set (globq w)" by simp_all
  note put = globrunqput_correct [OF inv nz fresh bound]
  note puthead = globrunqputhead_correct [OF inv nz fresh bound]
  show "globq_inv (globrunqput gp w)" by (rule put(2))
  show "globq (globrunqput gp w) = globq w @ [gp]" by (rule put(1))
  show "sint (runqsize (sched (globrunqput gp w))) = sint (runqsize (sched w)) + 1" by (rule put(3))
  show "globq_inv (globrunqputhead gp w)" by (rule puthead(2))
  show "globq (globrunqputhead gp w) = gp # globq w" by (rule puthead(1))
  show "sint (runqsize (sched (globrunqputhead gp w))) = sint (runqsize (sched w)) + 1"
    by (rule puthead(3))
next
  assume a: "0 < sint n \<and> sint (runqsize (sched w)) + sint n < 2 ^ 31
          \<and> walk (gs w) ghead (nat (sint n)) = ys \<and> last ys = gtail
          \<and> distinct ys \<and> 0 \<notin> set ys \<and> set ys \<inter> set (globq w) = {}"
  then have h: "0 < sint n" "sint (runqsize (sched w)) + sint n < 2 ^ 31"
    "walk (gs w) ghead (nat (sint n)) = ys" "last ys = gtail" "distinct ys" "0 \<notin> set ys"
    "set ys \<inter> set (globq w) = {}"
    by simp_all
  note b = globrunqputbatch_correct [OF inv h(3) h(1) h(4) h(5) h(6) h(7) h(2)]
  show "globq_inv (globrunqputbatch ghead gtail n w)" by (rule b(2))
  show "globq (globrunqputbatch ghead gtail n w) = globq w @ ys" by (rule b(1))
  show "sint (runqsize (sched (globrunqputbatch ghead gtail n w))) =
          sint (runqsize (sched w)) + sint n" by (rule b(3))
next
  assume a: "lock_held (sched w) \<and> 0 < sint (gomaxprocs w)
          \<and> globrunqget e pp maxg w = Some (Inr (gp', w'))"
  then have h: "lock_held (sched w)" "0 < sint (gomaxprocs w)"
    "globrunqget e pp maxg w = Some (Inr (gp', w'))" by simp_all
  note g = globrunqget_locked [OF inv h(1) h(2) bound h(3)]
  show "globq_inv w'" using g by simp
  show "\<exists>k. globq w' = drop k (globq w)
             \<and> sint (runqsize (sched w')) = sint (runqsize (sched w)) - int k"
    using g by simp
qed


lemma wit_glob_facts:
  "globq wit_glob = [5]" "globq_inv wit_glob" "sint (runqsize (sched wit_glob)) < 2 ^ 31 - 1"
  "lock_held (sched wit_glob)" "0 < sint (gomaxprocs wit_glob)"
  "walk (gs wit_glob) 7 (nat (sint (1 :: 32 word))) = [7]"
  "runqsize (sched wit_glob) \<noteq> 0"
  by (simp_all add: globq_inv_def globq_def wit_glob_def world_zero_def sched_zero_def g_zero_def)



theorem globrunq_invariant_witness:
  "\<exists>w'. globrunqget env_default 1 0 wit_glob = Some (Inr (5, w'))
      \<and> globq_inv w' \<and> globq w' = []
      \<and> globq_inv (globrunqput 6 wit_glob) \<and> globq (globrunqput 6 wit_glob) = [5, 6]
      \<and> globq_inv (globrunqputhead 6 wit_glob) \<and> globq (globrunqputhead 6 wit_glob) = [6, 5]
      \<and> globq_inv (globrunqputbatch 7 7 1 wit_glob) \<and> globq (globrunqputbatch 7 7 1 wit_glob) = [5, 7]"
proof -
  have n: "1 = nat (share (sint (runqsize (sched wit_glob))) (sint (gomaxprocs wit_glob)) (sint (0 :: 32 word)))"
    by (simp add: share_def wit_glob_def world_zero_def sched_zero_def)
  have room: "(1 :: nat) = 1 \<or> unat (runqtail (ps wit_glob 1) - runqhead (ps wit_glob 1)) + (1 - 1) \<le> 256"
    by simp
  from globrunqget_fast [OF wit_glob_facts(2,7,5,3) n room, where e = env_default]
  obtain w' where get: "globrunqget env_default 1 0 wit_glob = Some (Inr (5, w'))"
    and q: "globq w' = []"
    unfolding wit_glob_facts(1) by auto
  have h6: "(6 :: nat) \<noteq> 0 \<and> 6 \<notin> set (globq wit_glob)"
    by (simp add: wit_glob_facts(1))
  have hb: "0 < sint (1 :: 32 word) \<and> sint (runqsize (sched wit_glob)) + sint (1 :: 32 word) < 2 ^ 31
          \<and> walk (gs wit_glob) 7 (nat (sint (1 :: 32 word))) = [7] \<and> last [7 :: nat] = 7
          \<and> distinct [7 :: nat] \<and> 0 \<notin> set [7 :: nat] \<and> set [7] \<inter> set (globq wit_glob) = {}"
    using wit_glob_facts(6) by (simp add: wit_glob_facts(1)) (simp add: wit_glob_def world_zero_def sched_zero_def)
  have hg: "lock_held (sched wit_glob) \<and> 0 < sint (gomaxprocs wit_glob)
          \<and> globrunqget env_default 1 0 wit_glob = Some (Inr (5, w'))"
    using wit_glob_facts(4,5) get by simp
  note t = globrunq_invariant [OF wit_glob_facts(2,3), where gp = 6 and n = 1 and ghead = 7
      and ys = "[7]" and gtail = 7 and e = env_default and pp = 1 and maxg = 0 and gp' = 5
      and w' = w']
  from t h6 hb hg have
    "globq_inv w'"
    "globq_inv (globrunqput 6 wit_glob) \<and> globq (globrunqput 6 wit_glob) = globq wit_glob @ [6]"
    "globq_inv (globrunqputhead 6 wit_glob) \<and> globq (globrunqputhead 6 wit_glob) = 6 # globq wit_glob"
    "globq_inv (globrunqputbatch 7 7 1 wit_glob) \<and> globq (globrunqputbatch 7 7 1 wit_glob) = globq wit_glob @ [7]"
    by blast+
  then show ?thesis
    using get q unfolding wit_glob_facts(1) by simp
qed

section \<open>The share taken from the global run queue\<close>

text \<open>
  A world in which the global queue holds the G's 11 and 12, the local queue of the P at
  address 2 is full, \<open>gomaxprocs\<close> is 1, and the caller holds the scheduler lock.
\<close>

definition cex_glob :: world where
  "cex_glob = world_zero\<lparr>
     gs := (\<lambda>_. g_zero)(11 := g_zero\<lparr>schedlink := 12\<rparr>),
     ps := (\<lambda>_. p_zero)(2 := p_zero\<lparr>runqtail := 256, runq := (\<lambda>i. 100 + i)\<rparr>),
     sched := sched_zero\<lparr>lock_held := True, sched_runqhead := 11, sched_runqtail := 12,
                runqsize := 2\<rparr>\<rparr>"

lemma cex_glob_simps:
  "runqtail (ps cex_glob 2) = 256" "runqhead (ps cex_glob 2) = 0"
  "lock_held (sched cex_glob)" "runqsize (sched cex_glob) = 2" "gomaxprocs cex_glob = 1"
  "sched_runqhead (sched cex_glob) = 11" "sched_runqtail (sched cex_glob) = 12"
  "schedlink (gs cex_glob 11) = 12" "schedlink (gs cex_glob 12) = 0"
  by (simp_all add: cex_glob_def world_zero_def sched_zero_def g_zero_def p_zero_def)

lemma globrunqget_loop_full_locked:
  assumes "runqtail (ps w pp) - runqhead (ps w pp) = len_runq" and "lock_held (sched w)"
    and "\<not> randomizeScheduler e"
  shows "globrunqget_loop e pp (Suc k) w = None"
proof -
  let ?w1 = "upd_sched (\<lambda>s. s\<lparr>sched_runqhead := schedlink (gs w (sched_runqhead (sched w)))\<rparr>) w"
  have "runqtail (ps ?w1 pp) - runqhead (ps ?w1 pp) = len_runq"
    using assms(1) by (simp only: ps_upd_sched)
  moreover have "lock_held (sched ?w1)"
    using assms(2) by simp
  ultimately have "runqput e pp (sched_runqhead (sched w)) False ?w1 = None"
    using assms(3) by (rule runqput_full_locked)
  then show ?thesis
    by (simp add: Let_def)
qed

lemma globrunqget_full_locked:
  assumes "runqsize (sched w) \<noteq> 0" and "gomaxprocs w \<noteq> 0"
    and "1 < sint (globrunqget_n (runqsize (sched w)) (gomaxprocs w) maxg)"
    and "runqtail (ps w pp) - runqhead (ps w pp) = len_runq" and "lock_held (sched w)"
    and "\<not> randomizeScheduler e"
  shows "globrunqget e pp maxg w = None"
proof -
  let ?N = "globrunqget_n (runqsize (sched w)) (gomaxprocs w) maxg"
  let ?w1 = "upd_sched (\<lambda>s. s\<lparr>runqsize := runqsize s - ?N\<rparr>) w"
  let ?w2 = "if runqsize (sched ?w1) = 0
             then upd_sched (\<lambda>s. s\<lparr>sched_runqtail := 0\<rparr>) ?w1 else ?w1"
  let ?w3 = "upd_sched (\<lambda>s. s\<lparr>sched_runqhead := schedlink (gs ?w2 (sched_runqhead (sched ?w2)))\<rparr>) ?w2"
  have "sint (?N - 1) = sint ?N - 1"
    using assms(3) by (subst sint_sub_nowrap) simp_all
  then obtain k where k: "nat (sint (?N - 1)) = Suc k"
    using assms(3) by (cases "nat (sint (?N - 1))") simp_all
  have "ps ?w3 = ps w" and "lock_held (sched ?w3)"
    using assms(5) by simp_all
  with assms(4) have "globrunqget_loop e pp (Suc k) ?w3 = None"
    using assms(6) by (intro globrunqget_loop_full_locked) simp_all
  then show ?thesis
    unfolding globrunqget_def Let_def k using assms(1,2) by simp
qed

text \<open>
  With a full local queue the claim of C3 fails as stated: the second G taken from the global
  queue goes through \<open>runqputslow\<close>, which locks the scheduler lock that the caller of
  \<open>globrunqget\<close> already holds, and the call never returns.
\<close>

theorem globrunqget_full_local_counterexample:
  "globq_inv cex_glob \<and> globq cex_glob = [11, 12] \<and> gomaxprocs cex_glob = 1
   \<and> globrunqget env_default 2 0 cex_glob = None"
proof -
  have q: "globq cex_glob = [11, 12]"
    by (simp add: globq_def cex_glob_simps numeral_2_eq_2)
  have inv: "globq_inv cex_glob"
    unfolding globq_inv_def q by (simp add: cex_glob_simps)
  have n: "globrunqget_n 2 1 0 = 2"
    by (simp add: globrunqget_n_def sdiv32_def Let_def word_sless_alt)
  have full: "runqtail (ps cex_glob 2) - runqhead (ps cex_glob 2) = len_runq"
    by (simp only: cex_glob_simps) simp
  have "globrunqget env_default 2 0 cex_glob = None"
    by (rule globrunqget_full_locked [OF _ _ _ full])
       (simp_all add: cex_glob_simps n randomizeScheduler_def env_default_def)
  then show ?thesis
    using q inv by (simp add: cex_glob_simps)
qed

text \<open>
  C3 (as amended): when the global queue is empty, \<open>globrunqget(p, max)\<close> returns nil and
  changes nothing. When it is not empty, and the local queue of \<open>p\<close> has room for the
  \<open>n - 1\<close> G's that follow the first (\<open>n = 1\<close>, or \<open>tail - head + n - 1\<close> at most the
  capacity 256), it removes exactly the first \<open>n\<close> G's, where \<open>n\<close> is
  \<open>runqsize / gomaxprocs + 1\<close> capped, in this order, at \<open>runqsize\<close>, at \<open>max\<close> when
  \<open>max > 0\<close>, and at 128; it returns the first and appends the other \<open>n - 1\<close> to the local
  queue of \<open>p\<close>. Here \<open>gomaxprocs\<close> is positive and \<open>runqsize + 1\<close> does not overflow
  \<open>int32\<close>.
\<close>

theorem globrunqget_share:
  assumes inv: "globq_inv w"
    and procs: "0 < sint (gomaxprocs w)"
    and bound: "sint (runqsize (sched w)) < 2 ^ 31 - 1"
    and n: "n = nat (share (sint (runqsize (sched w))) (sint (gomaxprocs w)) (sint maxg))"
    and room: "n = 1 \<or> unat (runqtail (ps w pp) - runqhead (ps w pp)) + (n - 1) \<le> 256"
  shows "(runqsize (sched w) = 0 \<longrightarrow> globrunqget e pp maxg w = Some (Inr (0, w)))
     \<and> (runqsize (sched w) \<noteq> 0 \<longrightarrow>
          1 \<le> n \<and> n \<le> length (globq w) \<and>
          (\<exists>w'. globrunqget e pp maxg w = Some (Inr (hd (globq w), w'))
             \<and> globq w' = drop n (globq w)
             \<and> sint (runqsize (sched w')) = sint (runqsize (sched w)) - int n
             \<and> ring (ps w' pp) = ring (ps w pp) @ tl (take n (globq w))
             \<and> runnext (ps w' pp) = runnext (ps w pp)))"
proof (intro conjI impI)
  assume "runqsize (sched w) = 0"
  then show "globrunqget e pp maxg w = Some (Inr (0, w))"
    by (simp add: globrunqget_def)
next
  assume ne: "runqsize (sched w) \<noteq> 0"
  have "0 \<le> sint (runqsize (sched w))"
    using inv by (simp add: globq_inv_def)
  moreover have "sint (runqsize (sched w)) \<noteq> 0"
    using ne by (simp add: signed_eq_0_iff)
  ultimately have pos: "0 < sint (runqsize (sched w))" by simp
  from share_bounds [OF pos procs, of "sint maxg"]
  show "1 \<le> n" and "n \<le> length (globq w)"
    by (simp_all add: n globq_length)
  from globrunqget_fast [OF inv ne procs bound n room, of e]
  show "\<exists>w'. globrunqget e pp maxg w = Some (Inr (hd (globq w), w'))
             \<and> globq w' = drop n (globq w)
             \<and> sint (runqsize (sched w')) = sint (runqsize (sched w)) - int n
             \<and> ring (ps w' pp) = ring (ps w pp) @ tl (take n (globq w))
             \<and> runnext (ps w' pp) = runnext (ps w pp)"
    by blast
qed

text \<open>A world whose global queue holds the G's 11, 12 and 13; the local queues are empty.\<close>

definition wit_share :: world where
  "wit_share = world_zero\<lparr>
     gs := (\<lambda>_. g_zero)(11 := g_zero\<lparr>schedlink := 12\<rparr>, 12 := g_zero\<lparr>schedlink := 13\<rparr>),
     sched := sched_zero\<lparr>lock_held := True, sched_runqhead := 11, sched_runqtail := 13,
                runqsize := 3\<rparr>\<rparr>"

lemma wit_share_simps:
  "runqtail (ps wit_share 2) = 0" "runqhead (ps wit_share 2) = 0"
  "runqsize (sched wit_share) = 3" "gomaxprocs wit_share = 1"
  "sched_runqhead (sched wit_share) = 11" "sched_runqtail (sched wit_share) = 13"
  "schedlink (gs wit_share 11) = 12" "schedlink (gs wit_share 12) = 13"
  "schedlink (gs wit_share 13) = 0" "ring (ps wit_share 2) = []"
  by (simp_all add: wit_share_def world_zero_def sched_zero_def g_zero_def p_zero_def ring_def)

theorem globrunqget_share_witness:
  "\<exists>w'. globrunqget env_default 2 2 wit_share = Some (Inr (11, w'))
      \<and> globq w' = [13] \<and> sint (runqsize (sched w')) = 1 \<and> ring (ps w' 2) = [12]"
proof -
  have q: "globq wit_share = [11, 12, 13]"
    by (simp add: globq_def wit_share_simps numeral_3_eq_3)
  have inv: "globq_inv wit_share"
    unfolding globq_inv_def q by (simp add: wit_share_simps)
  have n: "2 = nat (share (sint (runqsize (sched wit_share))) (sint (gomaxprocs wit_share))
                     (sint (2 :: 32 word)))"
    by (simp add: share_def wit_share_simps)
  have room: "(2 :: nat) = 1 \<or> unat (runqtail (ps wit_share 2) - runqhead (ps wit_share 2)) + (2 - 1) \<le> 256"
    by (simp add: wit_share_simps)
  have "0 < sint (gomaxprocs wit_share)" and "sint (runqsize (sched wit_share)) < 2 ^ 31 - 1"
    and "runqsize (sched wit_share) \<noteq> 0"
    by (simp_all add: wit_share_simps)
  with globrunqget_share [OF inv _ _ n room, where e = env_default]
  have "\<exists>w'. globrunqget env_default 2 2 wit_share = Some (Inr (11, w'))
      \<and> globq w' = [13] \<and> sint (runqsize (sched w')) = 1 \<and> ring (ps w' 2) = [12]
      \<and> runnext (ps w' 2) = runnext (ps wit_share 2)"
    by (simp add: q wit_share_simps)
  then show ?thesis
    by blast
qed

section \<open>Overflow of a full local run queue\<close>

lemma top_draw: "i < 2 ^ 32 \<Longrightarrow> ((2 ^ 32 - 1) * Suc i) div 2 ^ 32 = (i :: nat)"
  by (rule div_nat_eqI) simp_all

text \<open>A draw of \<open>2^32 - 1\<close> makes \<open>fastrandn(i + 1)\<close> return \<open>i\<close>, and the swap does nothing.\<close>

lemma shuffle_batch_identity:
  assumes "i + k \<le> length b" and "length b < 2 ^ 32" and "\<forall>d<k. rand w d = - 1"
  shows "\<exists>w'. shuffle_batch k i b w = Inr (b, w') \<and> sched w' = sched w \<and> ps w' = ps w
           \<and> gs w' = gs w \<and> rand w' = (\<lambda>d. rand w (k + d))"
  using assms
proof (induction k arbitrary: i w)
  case 0
  then show ?case by simp
next
  case (Suc k)
  let ?n = "of_nat i + 1 :: uint32"
  let ?w1 = "snd (fastrand w)"
  have i: "i < length b"
    using Suc.prems by simp
  then have n: "unat ?n = Suc i"
    using Suc.prems(2) by (intro unat_batch_index) simp
  have r: "unat (rand w 0) = 2 ^ 32 - 1"
    using Suc.prems(3) by (simp add: unsigned_minus_1_eq_mask mask_eq_exp_minus_1)
  have "unat (fst (fastrandn ?n w)) = ((2 ^ 32 - 1) * Suc i) div 2 ^ 32"
    by (simp only: unat_fastrandn n r)
  also have "\<dots> = i"
    using i Suc.prems(2) by (intro top_draw) simp
  finally have j: "unat (fst (fastrandn ?n w)) = i" .
  have f: "fastrandn ?n w = (fst (fastrandn ?n w), ?w1)"
    using snd_fastrandn [of ?n w] by (simp add: prod_eq_iff)
  have sw: "swap_batch b i i = Inr b"
    using i by (simp add: swap_batch_def)
  have "Suc i + k \<le> length b" and "\<forall>d<k. rand ?w1 d = - 1"
    using Suc.prems by (auto simp: rand_fastrand)
  from Suc.IH [OF this(1) Suc.prems(2) this(2)] obtain w' where
    "shuffle_batch k (Suc i) b ?w1 = Inr (b, w')" "sched w' = sched ?w1" "ps w' = ps ?w1"
    "gs w' = gs ?w1" "rand w' = (\<lambda>d. rand ?w1 (k + d))"
    by blast
  then show ?case
    using sw j by (subst shuffle_batch.simps, subst f) (simp add: Let_def rand_fastrand)
qed

text \<open>A draw of 0 makes \<open>fastrandn\<close> return 0: the G at \<open>i\<close> changes places with the first.\<close>

lemma shuffle_batch_first:
  assumes "i < length b" and "rand w 0 = 0"
  shows "shuffle_batch (Suc 0) i b w = Inr (b[i := b ! 0, 0 := b ! i], snd (fastrand w))"
proof -
  let ?n = "of_nat i + 1 :: uint32"
  have j: "unat (fst (fastrandn ?n w)) = 0"
    by (simp only: unat_fastrandn assms(2)) simp
  have f: "fastrandn ?n w = (fst (fastrandn ?n w), snd (fastrand w))"
    using snd_fastrandn [of ?n w] by (simp add: prod_eq_iff)
  have sw: "swap_batch b i 0 = Inr (b[i := b ! 0, 0 := b ! i])"
    using assms(1) by (auto simp: swap_batch_def)
  show ?thesis
    using sw j by (subst shuffle_batch.simps, subst f) (simp add: Let_def)
qed

lemma shuffle_batch_add:
  "shuffle_batch (k + n) i b w =
     (case shuffle_batch k i b w of
        Inl err \<Rightarrow> Inl err
      | Inr (b1, w1) \<Rightarrow> shuffle_batch n (i + k) b1 w1)"
proof (induction k arbitrary: i b w)
  case 0
  show ?case by simp
next
  case (Suc k)
  show ?case
    by (simp add: Suc.IH Let_def split: prod.splits sum.splits)
qed

text \<open>The build with the race detector.\<close>

definition env_race :: env where
  "env_race = env_default\<lparr>raceenabled := True\<rparr>"

text \<open>
  A world in which the local queue of the P at address 2 is full, with the G's 1000 to 1255,
  and the global queue is empty.
\<close>

definition wit_full :: world where
  "wit_full = world_zero\<lparr>
     ps := (\<lambda>_. p_zero)(2 := p_zero\<lparr>runqtail := 256, runq := (\<lambda>i. 1000 + i)\<rparr>)\<rparr>"

text \<open>
  The same world with a random stream whose first 127 draws are \<open>2^32 - 1\<close> and whose
  others are 0.
\<close>

definition cex_full :: world where
  "cex_full = wit_full\<lparr>rand := (\<lambda>k. if k < 127 then - 1 else 0)\<rparr>"

lemma wit_full_simps:
  "runqtail (ps wit_full 2) = 256" "runqhead (ps wit_full 2) = 0"
  "runq (ps wit_full 2) = (\<lambda>i. 1000 + i)" "runnext (ps wit_full 2) = 0"
  "sched wit_full = sched_zero" "globq wit_full = []" "globq_inv wit_full"
  by (simp_all add: wit_full_def world_zero_def p_zero_def globq_def globq_inv_def sched_zero_def)

lemma cex_full_simps:
  "ps cex_full = ps wit_full" "sched cex_full = sched wit_full" "gs cex_full = gs wit_full"
  "rand cex_full = (\<lambda>k. if k < 127 then - 1 else 0)"
  by (simp_all add: cex_full_def)

lemma wit_full_half:
  "map (\<lambda>i. runq (ps wit_full 2) (unat ((runqhead (ps wit_full 2) + of_nat i) mod len_runq)))
       [0..<128] = map (\<lambda>i. 1000 + i) [0..<128]"
proof (rule map_cong [OF refl])
  fix i :: nat assume "i \<in> set [0..<128]"
  then have i: "i < 128" by simp
  have "unat (((0 :: 32 word) + of_nat i) mod len_runq) = (unat (0 :: 32 word) + i) mod 256"
    by (rule ring_index)
  also have "\<dots> = i"
    using i by simp
  finally show "runq (ps wit_full 2) (unat ((runqhead (ps wit_full 2) + of_nat i) mod len_runq)) = 1000 + i"
    by (simp only: wit_full_simps)
qed


lemma wit_full_take:
  "take 128 (ring (ps wit_full 2)) = map (\<lambda>i. 1000 + i) [0..<128]"
proof -
  have full: "runqtail (ps wit_full 2) - runqhead (ps wit_full 2) = len_runq"
    by (simp only: wit_full_simps) simp
  show ?thesis
    using ring_full_half(1) [OF full] wit_full_half by simp
qed

lemma wit_full_batch:
  "distinct (map (\<lambda>i. 1000 + i) [0..<128] @ [7 :: nat])"
  "0 \<notin> set (map (\<lambda>i. 1000 + i) [0..<128] @ [7 :: nat])"
  by (auto simp: distinct_map inj_on_def)

text \<open>
  C2 (as amended): if the local run queue of \<open>p\<close> is full (\<open>tail - head\<close> is the capacity
  256) and the scheduler lock is free, \<open>runqput(p, g, false)\<close> moves exactly 129 G's, the
  first half of the local queue and the incoming \<open>g\<close>, to the end of the global queue as
  one batch, and leaves the other 128 in the local queue. When \<open>randomizeScheduler\<close> is
  off the batch is in queue order with \<open>g\<close> last; when it is on (race detector builds) the
  batch is a permutation of the same G's. The state is in order: the global queue satisfies
  its invariant with room for 129 more in \<open>runqsize\<close>, and the G's moved are distinct,
  non-nil and not yet on the global queue.
\<close>

theorem runqput_full_batch:
  assumes full: "runqtail (ps w pp) - runqhead (ps w pp) = len_runq"
    and unlocked: "\<not> lock_held (sched w)"
    and inv: "globq_inv w"
    and half: "half = take 128 (ring (ps w pp))"
    and dist: "distinct (half @ [gp])" and nz: "0 \<notin> set (half @ [gp])"
    and disj: "set (half @ [gp]) \<inter> set (globq w) = {}"
    and bound: "sint (runqsize (sched w)) + 129 < 2 ^ 31"
  shows "\<exists>w' batch. runqput e pp gp False w = Some (Inr w')
          \<and> mset batch = mset (half @ [gp])
          \<and> (\<not> randomizeScheduler e \<longrightarrow> batch = half @ [gp])
          \<and> globq w' = globq w @ batch
          \<and> globq_inv w'
          \<and> sint (runqsize (sched w')) = sint (runqsize (sched w)) + 129
          \<and> ring (ps w' pp) = drop 128 (ring (ps w pp))
          \<and> length (ring (ps w' pp)) = 128"
proof -
  from runqput_full [OF full unlocked inv half dist nz disj bound]
  obtain w' batch where "runqput e pp gp False w = Some (Inr w')"
    "mset batch = mset (half @ [gp])" "\<not> randomizeScheduler e \<longrightarrow> batch = half @ [gp]"
    "globq w' = globq w @ batch" "globq_inv w'"
    "sint (runqsize (sched w')) = sint (runqsize (sched w)) + 129"
    "ring (ps w' pp) = drop 128 (ring (ps w pp))" "length (ring (ps w' pp)) = 128"
    by blast
  then show ?thesis by blast
qed

theorem runqput_full_batch_witness:
  "(\<exists>w'. runqput env_default 2 7 False wit_full = Some (Inr w')
       \<and> globq w' = map (\<lambda>i. 1000 + i) [0..<128] @ [7]
       \<and> globq_inv w' \<and> sint (runqsize (sched w')) = 129
       \<and> length (ring (ps w' 2)) = 128)
   \<and> (\<exists>w' batch. runqput env_race 2 7 False cex_full = Some (Inr w')
       \<and> mset batch = mset (map (\<lambda>i. 1000 + i) [0..<128] @ [7])
       \<and> globq w' = batch \<and> globq_inv w' \<and> length (ring (ps w' 2)) = 128)"
proof -
  have full: "runqtail (ps wit_full 2) - runqhead (ps wit_full 2) = len_runq"
    by (simp only: wit_full_simps) simp
  have unlocked: "\<not> lock_held (sched wit_full)"
    by (simp add: wit_full_simps sched_zero_def)
  have half: "map (\<lambda>i. 1000 + i) [0..<128] = take 128 (ring (ps wit_full 2))"
    by (simp only: wit_full_take)
  have disj: "set (map (\<lambda>i. 1000 + i) [0..<128] @ [7]) \<inter> set (globq wit_full) = {}"
    by (simp only: wit_full_simps) simp
  have bound: "sint (runqsize (sched wit_full)) + 129 < 2 ^ 31"
    by (simp add: wit_full_simps sched_zero_def)
  have nr: "\<not> randomizeScheduler env_default"
    by (simp add: randomizeScheduler_def env_default_def)
  have "\<exists>w' batch. runqput env_default 2 7 False wit_full = Some (Inr w')
          \<and> mset batch = mset (map (\<lambda>i. 1000 + i) [0..<128] @ [7])
          \<and> (\<not> randomizeScheduler env_default \<longrightarrow> batch = map (\<lambda>i. 1000 + i) [0..<128] @ [7])
          \<and> globq w' = globq wit_full @ batch
          \<and> globq_inv w'
          \<and> sint (runqsize (sched w')) = sint (runqsize (sched wit_full)) + 129
          \<and> ring (ps w' 2) = drop 128 (ring (ps wit_full 2))
          \<and> length (ring (ps w' 2)) = 128"
    by (rule runqput_full_batch [OF full unlocked wit_full_simps(7) half wit_full_batch disj bound])
  then obtain w' batch where r: "runqput env_default 2 7 False wit_full = Some (Inr w')"
    "batch = map (\<lambda>i. 1000 + i) [0..<128] @ [7]" "globq w' = globq wit_full @ batch"
    "globq_inv w'" "sint (runqsize (sched w')) = sint (runqsize (sched wit_full)) + 129"
    "length (ring (ps w' 2)) = 128"
    using nr by blast
  have "globq w' = map (\<lambda>i. 1000 + i) [0..<128] @ [7]"
    by (simp only: r(2,3) wit_full_simps append_Nil)
  moreover have "sint (runqsize (sched w')) = 129"
    by (simp add: r(5) wit_full_simps sched_zero_def)
  ultimately have a: "\<exists>w'. runqput env_default 2 7 False wit_full = Some (Inr w')
       \<and> globq w' = map (\<lambda>i. 1000 + i) [0..<128] @ [7]
       \<and> globq_inv w' \<and> sint (runqsize (sched w')) = 129
       \<and> length (ring (ps w' 2)) = 128"
    using r(1,4,6) by blast
  have full': "runqtail (ps cex_full 2) - runqhead (ps cex_full 2) = len_runq"
    by (simp only: cex_full_simps wit_full_simps) simp
  have unlocked': "\<not> lock_held (sched cex_full)"
    by (simp add: cex_full_simps wit_full_simps sched_zero_def)
  have inv': "globq_inv cex_full" and q': "globq cex_full = []"
    by (simp_all add: globq_inv_def globq_def cex_full_simps wit_full_simps sched_zero_def)
  have half': "map (\<lambda>i. 1000 + i) [0..<128] = take 128 (ring (ps cex_full 2))"
    by (simp only: cex_full_simps wit_full_take)
  have disj': "set (map (\<lambda>i. 1000 + i) [0..<128] @ [7]) \<inter> set (globq cex_full) = {}"
    by (simp only: q') simp
  have bound': "sint (runqsize (sched cex_full)) + 129 < 2 ^ 31"
    by (simp add: cex_full_simps wit_full_simps sched_zero_def)
  have "\<exists>w' batch. runqput env_race 2 7 False cex_full = Some (Inr w')
          \<and> mset batch = mset (map (\<lambda>i. 1000 + i) [0..<128] @ [7])
          \<and> (\<not> randomizeScheduler env_race \<longrightarrow> batch = map (\<lambda>i. 1000 + i) [0..<128] @ [7])
          \<and> globq w' = globq cex_full @ batch
          \<and> globq_inv w'
          \<and> sint (runqsize (sched w')) = sint (runqsize (sched cex_full)) + 129
          \<and> ring (ps w' 2) = drop 128 (ring (ps cex_full 2))
          \<and> length (ring (ps w' 2)) = 128"
    by (rule runqput_full_batch [OF full' unlocked' inv' half' wit_full_batch disj' bound'])
  then obtain w' batch where r': "runqput env_race 2 7 False cex_full = Some (Inr w')"
    "mset batch = mset (map (\<lambda>i. 1000 + i) [0..<128] @ [7])" "globq w' = globq cex_full @ batch"
    "globq_inv w'" "length (ring (ps w' 2)) = 128"
    by blast
  have "globq w' = batch"
    by (simp only: r'(3) q' append_Nil)
  then have b: "\<exists>w' batch. runqput env_race 2 7 False cex_full = Some (Inr w')
       \<and> mset batch = mset (map (\<lambda>i. 1000 + i) [0..<128] @ [7])
       \<and> globq w' = batch \<and> globq_inv w' \<and> length (ring (ps w' 2)) = 128"
    using r'(1,2,4,5) by blast
  from a b show ?thesis ..
qed


lemma sched_runqtail_putbatch [simp]:
  "sched_runqtail (sched (unlock_sched (globrunqputbatch ghead gtail n w))) = gtail"
  by (simp add: unlock_sched_def globrunqputbatch_def Let_def)

text \<open>
  C2 (as written) fails with \<open>randomizeScheduler\<close> on: the incoming G need not be the last of
  the batch. Here the draws leave the batch alone up to \<open>i = 127\<close>, and the last one,
  \<open>fastrandn(129) = 0\<close>, makes the incoming G 7 change places with the first G of the batch,
  so that the global queue ends with the G 1000.
\<close>

theorem runqput_full_race_counterexample:
  "case runqput env_race 2 7 False cex_full of
     Some (Inr w') \<Rightarrow> sched_runqtail (sched w') = 1000
   | _ \<Rightarrow> False"
proof -
  let ?b1 = "map (\<lambda>i. 1000 + i) [0..<128] @ [7 :: nat]"
  let ?b2 = "?b1[128 := ?b1 ! 0, 0 := ?b1 ! 128]"
  let ?w1 = "upd_p 2 (\<lambda>x. x\<lparr>runqhead := runqhead (ps cex_full 2) + 128\<rparr>) cex_full"
  have full: "runqtail (ps cex_full 2) - runqhead (ps cex_full 2) = len_runq"
    by (simp only: cex_full_simps wit_full_simps) simp
  have race: "randomizeScheduler env_race"
    by (simp add: randomizeScheduler_def env_race_def)
  have b1: "map (\<lambda>i. runq (ps cex_full 2) (unat ((runqhead (ps cex_full 2) + of_nat i) mod len_runq)))
              [0..<128] @ [7] = ?b1"
    by (simp only: cex_full_simps wit_full_half)
  have len: "length ?b1 = 129"
    by simp
  have r1: "rand ?w1 = (\<lambda>k. if k < 127 then - 1 else 0)"
    by (simp add: upd_p_def cex_full_simps)
  have "1 + 127 \<le> length ?b1" "length ?b1 < 2 ^ 32" "\<forall>d<127. rand ?w1 d = - 1"
    by (simp_all add: r1)
  from shuffle_batch_identity [OF this] obtain w2 where
      sh1: "shuffle_batch 127 1 ?b1 ?w1 = Inr (?b1, w2)"
    and r2: "rand w2 = (\<lambda>d. rand ?w1 (127 + d))"
    by blast
  have "shuffle_batch (Suc 0) 128 ?b1 w2 = Inr (?b2, snd (fastrand w2))"
    by (rule shuffle_batch_first) (simp_all only: len r2 r1, simp_all)
  then have sh2: "shuffle_batch 1 (1 + 127) ?b1 w2 = Inr (?b2, snd (fastrand w2))"
    by simp
  have "shuffle_batch (127 + 1) 1 ?b1 ?w1 = Inr (?b2, snd (fastrand w2))"
    by (simp only: shuffle_batch_add sh1 sh2 sum.case prod.case)
  then have sh: "shuffle_batch 128 1 ?b1 ?w1 = Inr (?b2, snd (fastrand w2))"
    by simp
  from shuffle_batch_frame [OF sh] have s2: "sched (snd (fastrand w2)) = sched ?w1"
    by simp
  have unl: "\<not> lock_held (sched (link_batch ?b2 (snd (fastrand w2))))"
    by (simp only: sched_link_batch s2) (simp add: cex_full_simps wit_full_simps sched_zero_def)
  have last: "?b2 ! 128 = 1000"
    by (simp add: nth_append)
  have slow: "runqputslow env_race 2 7 (runqhead (ps cex_full 2)) (runqtail (ps cex_full 2)) cex_full =
      Some (Inr (True, unlock_sched (globrunqputbatch (?b2 ! 0) (?b2 ! 128) 129
        (upd_sched (\<lambda>s. s\<lparr>lock_held := True\<rparr>) (link_batch ?b2 (snd (fastrand w2)))))))"
    unfolding runqputslow_unfold [OF full refl] b1 using race sh unl
    by (simp add: lock_sched_def)
  have "runqput env_race 2 7 False cex_full =
      Some (Inr (unlock_sched (globrunqputbatch (?b2 ! 0) (?b2 ! 128) 129
        (upd_sched (\<lambda>s. s\<lparr>lock_held := True\<rparr>) (link_batch ?b2 (snd (fastrand w2)))))))"
    unfolding runqput_false
    by (subst runqput_retry.simps) (simp only: Let_def full slow, simp)
  then show ?thesis
    by (simp only: option.case sum.case sched_runqtail_putbatch last)
qed

section \<open>Stealing half of a local run queue\<close>

lemma ring_slots_inj:
  assumes "i < n" and "j < n" and "n \<le> 256" and "(a + i) mod 256 = (a + j) mod (256 :: nat)"
  shows "i = j"
proof (rule ccontr)
  assume ne: "i \<noteq> j"
  show False
  proof (cases "i < j")
    case True
    have "j - i < 256" using assms by simp
    have "(a + i) + (j - i) = a + j" using True by simp
    then have "((a + i) + (j - i)) mod 256 = (a + i) mod 256"
      using assms(4) by simp
    from ring_slots_differ [of 0 "j - i" "a + i"] True \<open>j - i < 256\<close> this
    show False by simp
  next
    case False
    with ne have lt: "j < i" by simp
    have "i - j < 256" using assms by simp
    have "(a + j) + (i - j) = a + i" using lt by simp
    then have "((a + j) + (i - j)) mod 256 = (a + j) mod 256"
      using assms(4) by simp
    from ring_slots_differ [of 0 "i - j" "a + j"] lt \<open>i - j < 256\<close> this
    show False by simp
  qed
qed

lemma grab_copy_Suc:
  "grab_copy pp bp h bh (Suc n) w =
     (let w' = grab_copy pp bp h bh n w
      in upd_p bp (\<lambda>x. x\<lparr>runq := (runq x)
               (unat ((bh + of_nat n) mod len_runq) :=
                  runq (ps w' pp) (unat ((h + of_nat n) mod len_runq)))\<rparr>) w')"
  by (simp add: grab_copy_def Let_def)

lemma grab_copy_0 [simp]: "grab_copy pp bp h bh 0 w = w"
  by (simp add: grab_copy_def)

lemma grab_copy_spec:
  assumes "pp \<noteq> bp" and "n \<le> 256"
  shows "\<exists>r. ps (grab_copy pp bp h bh n w) = (ps w)(bp := (ps w bp)\<lparr>runq := r\<rparr>)
       \<and> (\<forall>i<n. r (unat ((bh + of_nat i) mod len_runq)) =
                  runq (ps w pp) (unat ((h + of_nat i) mod len_runq)))
       \<and> (\<forall>k. (\<forall>i<n. k \<noteq> unat ((bh + of_nat i) mod len_runq)) \<longrightarrow> r k = runq (ps w bp) k)
       \<and> sched (grab_copy pp bp h bh n w) = sched w
       \<and> gs (grab_copy pp bp h bh n w) = gs w
       \<and> events (grab_copy pp bp h bh n w) = events w"
  using assms(2)
proof (induction n)
  case 0
  show ?case by (intro exI [of _ "runq (ps w bp)"]) simp
next
  case (Suc n)
  let ?w' = "grab_copy pp bp h bh n w"
  let ?k = "unat ((bh + of_nat n) mod len_runq)"
  let ?v = "runq (ps ?w' pp) (unat ((h + of_nat n) mod len_runq))"
  let ?w'' = "upd_p bp (\<lambda>x. x\<lparr>runq := (runq x)(?k := ?v)\<rparr>) ?w'"
  have eq: "grab_copy pp bp h bh (Suc n) w = ?w''"
    by (simp add: grab_copy_Suc Let_def)
  have "n \<le> 256" using Suc.prems by simp
  from Suc.IH [OF this] obtain r where IH:
    "ps ?w' = (ps w)(bp := (ps w bp)\<lparr>runq := r\<rparr>)"
    "\<forall>i<n. r (unat ((bh + of_nat i) mod len_runq)) =
                  runq (ps w pp) (unat ((h + of_nat i) mod len_runq))"
    "\<forall>k. (\<forall>i<n. k \<noteq> unat ((bh + of_nat i) mod len_runq)) \<longrightarrow> r k = runq (ps w bp) k"
    "sched ?w' = sched w" "gs ?w' = gs w" "events ?w' = events w"
    by blast
  have src: "ps ?w' pp = ps w pp"
    using assms(1) by (simp add: IH(1))
  have v: "?v = runq (ps w pp) (unat ((h + of_nat n) mod len_runq))"
    by (simp only: src)
  let ?r = "r(?k := ?v)"
  have p1: "ps ?w'' = (ps w)(bp := (ps w bp)\<lparr>runq := ?r\<rparr>)"
    by (simp add: IH(1))
  have p2: "?r (unat ((bh + of_nat i) mod len_runq)) =
              runq (ps w pp) (unat ((h + of_nat i) mod len_runq))" if "i < Suc n" for i
  proof (cases "i = n")
    case True
    then show ?thesis by (simp add: v)
  next
    case False
    with that have lt: "i < n" by simp
    have "unat ((bh + of_nat i) mod len_runq) \<noteq> ?k"
    proof
      assume "unat ((bh + of_nat i) mod len_runq) = ?k"
      then have "(unat bh + i) mod 256 = (unat bh + n) mod 256"
        by (simp only: ring_index)
      from ring_slots_inj [OF _ _ Suc.prems this] lt show False by simp
    qed
    then show ?thesis
      using IH(2) lt by simp
  qed
  have p3: "?r k = runq (ps w bp) k"
    if "\<forall>i<Suc n. k \<noteq> unat ((bh + of_nat i) mod len_runq)" for k
  proof -
    have "k \<noteq> ?k" using that by auto
    moreover have "\<forall>i<n. k \<noteq> unat ((bh + of_nat i) mod len_runq)" using that by auto
    ultimately show ?thesis using IH(3) by simp
  qed
  have "sched ?w'' = sched w" "gs ?w'' = gs w" "events ?w'' = events w"
    using IH(4,5,6) by (simp_all add: upd_p_def)
  with p1 p2 p3 show ?case
    unfolding eq by (intro exI [of _ ?r]) blast
qed


lemma ring_take:
  "k \<le> unat (runqtail x - runqhead x) \<Longrightarrow>
   take k (ring x) = map (\<lambda>i. runq x (unat ((runqhead x + of_nat i) mod len_runq))) [0..<k]"
  by (simp add: ring_def take_map min_def)

lemma ring_drop:
  assumes "k \<le> unat (runqtail x - runqhead x)"
  shows "ring (x\<lparr>runqhead := runqhead x + of_nat k\<rparr>) = drop k (ring x)"
proof -
  let ?d = "unat (runqtail x - runqhead x)"
  let ?f = "\<lambda>i. runq x (unat ((runqhead x + of_nat i) mod len_runq))"
  have "unat (runqtail x - (runqhead x + of_nat k)) = unat ((runqtail x - runqhead x) - of_nat k)"
    by (rule arg_cong [where f = unat]) simp
  also have "\<dots> = ?d - k"
  proof -
    have "k < 2 ^ 32"
      using assms unsigned_less [of "runqtail x - runqhead x", where 'a = nat] by simp
    then have "unat (of_nat k :: 32 word) = k"
      by (simp add: unat_of_nat)
    moreover have "(of_nat k :: 32 word) \<le> runqtail x - runqhead x"
      using assms \<open>unat (of_nat k :: 32 word) = k\<close> by (simp add: word_le_nat_alt)
    ultimately show ?thesis
      by (simp add: unat_sub)
  qed
  finally have len: "unat (runqtail x - (runqhead x + of_nat k)) = ?d - k" .
  have "drop k (ring x) = map ?f [k..<?d]"
    by (simp add: ring_def drop_map)
  also have "[k..<?d] = map (\<lambda>i. i + k) [0..<?d - k]"
    using assms map_add_upt [of k "?d - k"] by simp
  finally have d: "drop k (ring x) = map (\<lambda>i. ?f (i + k)) [0..<?d - k]"
    by (simp only: map_map o_def)
  have e: "runqhead x + of_nat k + of_nat i = runqhead x + of_nat (i + k)" for i
    by simp
  have "ring (x\<lparr>runqhead := runqhead x + of_nat k\<rparr>) =
          map (\<lambda>i. runq x (unat ((runqhead x + of_nat k + of_nat i) mod len_runq))) [0..<?d - k]"
    unfolding ring_def using len by simp
  then show ?thesis
    by (simp only: d e)
qed

lemma ring_extend:
  assumes room: "unat (runqtail x - runqhead x) + m \<le> 256"
    and new: "\<And>i. i < m \<Longrightarrow> r (unat ((runqtail x + of_nat i) mod len_runq)) = v i"
    and old: "\<And>k. (\<And>i. i < n \<Longrightarrow> k \<noteq> unat ((runqtail x + of_nat i) mod len_runq)) \<Longrightarrow>
                r k = runq x k"
    and mn: "m \<le> n" "unat (runqtail x - runqhead x) + n \<le> 256"
  shows "ring (x\<lparr>runq := r, runqtail := runqtail x + of_nat m\<rparr>) = ring x @ map v [0..<m]"
proof -
  let ?d = "unat (runqtail x - runqhead x)"
  let ?h = "runqhead x" and ?t = "runqtail x"
  have t: "?t = ?h + of_nat ?d" by simp
  have idx_t: "unat ((?t + of_nat i) mod len_runq) = (unat ?h + (?d + i)) mod 256" for i
  proof -
    have "?t + of_nat i = ?h + of_nat (?d + i)" by simp
    then show ?thesis by (simp only: ring_index)
  qed
  have "unat (?t + of_nat m - ?h) = unat ((?t - ?h) + of_nat m)"
    by (rule arg_cong [where f = unat]) simp
  also have "\<dots> = ?d + m"
    using room by (simp add: unat_word_ariths unat_of_nat)
  finally have len: "unat (?t + of_nat m - ?h) = ?d + m" .
  have live: "r (unat ((?h + of_nat j) mod len_runq)) = runq x (unat ((?h + of_nat j) mod len_runq))"
    if "j < ?d" for j
  proof (rule old)
    fix i assume i: "i < n"
    show "unat ((?h + of_nat j) mod len_runq) \<noteq> unat ((?t + of_nat i) mod len_runq)"
    proof
      assume eq: "unat ((?h + of_nat j) mod len_runq) = unat ((?t + of_nat i) mod len_runq)"
      have "(unat ?h + j) mod 256 = unat ((?h + of_nat j) mod len_runq)"
        by (simp only: ring_index)
      also note eq
      also have "unat ((?t + of_nat i) mod len_runq) = (unat ?h + (?d + i)) mod 256"
        by (rule idx_t)
      finally have "(unat ?h + j) mod 256 = (unat ?h + (?d + i)) mod 256" .
      moreover have "j < ?d + n" "?d + i < ?d + n" "?d + n \<le> 256"
        using that i mn by simp_all
      ultimately have "j = ?d + i"
        using ring_slots_inj [of j "?d + n" "?d + i" "unat ?h"] by blast
      with that show False by linarith
    qed
  qed
  have fresh: "r (unat ((?h + of_nat (i + ?d)) mod len_runq)) = v i" if "i < m" for i
  proof -
    have "?h + of_nat (i + ?d) = ?t + of_nat i" by simp
    then show ?thesis using new [OF that] by (simp only:)
  qed
  have split: "[0..<?d + m] = [0..<?d] @ map (\<lambda>i. i + ?d) [0..<m]"
  proof -
    have "[0..<?d + m] = [0..<?d] @ [?d..<?d + m]"
      by (rule upt_add_eq_append) simp
    also have "[?d..<?d + m] = map (\<lambda>i. i + ?d) [0..<m]"
      using map_add_upt [of ?d m] by (simp only: add.commute [of m ?d])
    finally show ?thesis .
  qed
  have "ring (x\<lparr>runq := r, runqtail := ?t + of_nat m\<rparr>) =
          map (\<lambda>i. r (unat ((?h + of_nat i) mod len_runq))) [0..<?d + m]"
    unfolding ring_def using len by simp
  also have "\<dots> = map (\<lambda>i. r (unat ((?h + of_nat i) mod len_runq))) [0..<?d]
        @ map (\<lambda>i. r (unat ((?h + of_nat (i + ?d)) mod len_runq))) [0..<m]"
    by (simp only: split map_append map_map o_def)
  also have "map (\<lambda>i. r (unat ((?h + of_nat i) mod len_runq))) [0..<?d] = ring x"
    unfolding ring_def
  proof (rule map_cong [OF refl])
    fix j assume "j \<in> set [0..<?d]"
    then have "j < ?d" by simp
    from live [OF this]
    show "r (unat ((?h + of_nat j) mod len_runq)) = runq x (unat ((?h + of_nat j) mod len_runq))" .
  qed
  also have "map (\<lambda>i. r (unat ((?h + of_nat (i + ?d)) mod len_runq))) [0..<m] = map v [0..<m]"
  proof (rule map_cong [OF refl])
    fix i assume "i \<in> set [0..<m]"
    then have "i < m" by simp
    from fresh [OF this]
    show "r (unat ((?h + of_nat (i + ?d)) mod len_runq)) = v i" .
  qed
  finally show ?thesis .
qed


lemma steal_count:
  fixes d :: "32 word"
  shows "unat (d - d div 2) = unat d - unat d div 2"
    and "unat (d - d div 2) \<le> unat d"
    and "d - d div 2 \<le> 128 \<Longrightarrow> unat d \<le> 256"
proof -
  have le: "d div 2 \<le> d"
    by (simp add: word_le_nat_alt unat_div_distrib)
  show u: "unat (d - d div 2) = unat d - unat d div 2"
    using le by (simp add: unat_sub unat_div_distrib)
  show "unat (d - d div 2) \<le> unat d"
    by (simp add: u)
  assume "d - d div 2 \<le> 128"
  then have "unat d - unat d div 2 \<le> 128"
    by (simp add: word_le_nat_alt u)
  then show "unat d \<le> 256"
    by linarith
qed

lemma runqgrab_iter_inconsistent:
  assumes "len_runq div 2 < (runqtail (ps w pp) - runqhead (ps w pp))
             - (runqtail (ps w pp) - runqhead (ps w pp)) div 2"
  shows "runqgrab_iter e pp bp bh flag w = Continue w"
proof -
  let ?n = "(runqtail (ps w pp) - runqhead (ps w pp))
             - (runqtail (ps w pp) - runqhead (ps w pp)) div 2"
  have "?n \<noteq> 0"
    using assms by auto
  with assms show ?thesis
    unfolding runqgrab_iter_def Let_def by (simp only: if_False if_True)
qed

lemma runqgrab_iter_take:
  assumes "pp \<noteq> bp"
    and n: "n = (runqtail (ps w pp) - runqhead (ps w pp))
                 - (runqtail (ps w pp) - runqhead (ps w pp)) div 2"
    and "n \<noteq> 0" and "n \<le> len_runq div 2"
  shows "runqgrab_iter e pp bp bh flag w =
           Return n (upd_p pp (\<lambda>x. x\<lparr>runqhead := runqhead (ps w pp) + n\<rparr>)
                       (grab_copy pp bp (runqhead (ps w pp)) bh (unat n) w))"
proof -
  let ?h = "runqhead (ps w pp)"
  let ?w1 = "grab_copy pp bp ?h bh (unat n) w"
  have "unat n \<le> 256"
    using assms(4) by (simp add: word_le_nat_alt)
  from grab_copy_spec [OF assms(1) this, of ?h bh w] obtain r where
    "ps ?w1 = (ps w)(bp := (ps w bp)\<lparr>runq := r\<rparr>)"
    by blast
  then have "runqhead (ps ?w1 pp) = ?h"
    using assms(1) by simp
  then have c: "cas (runqhead (ps ?w1 pp)) ?h (?h + n) = (True, ?h + n)"
    by (simp add: cas_def)
  have ng: "\<not> len_runq div 2 < n"
    using assms(4) by simp
  show ?thesis
    unfolding runqgrab_iter_def Let_def n [symmetric] c
    using assms(3) ng by (simp only: if_False if_True split_conv)
qed

lemma runqgrab_retry_forever:
  assumes "runqgrab_iter e pp bp bh flag w = Continue w"
  shows "runqgrab e pp bp bh flag w = None"
proof (rule ccontr)
  assume "runqgrab e pp bp bh flag w \<noteq> None"
  then obtain y where y: "runqgrab e pp bp bh flag w = Some y"
    by auto
  have "runqgrab_iter e pp bp bh flag w \<noteq> Continue w"
  proof (rule runqgrab.raw_induct [where P = "\<lambda>e pp bp bh flag w y.
            runqgrab_iter e pp bp bh flag w \<noteq> Continue w", OF _ y])
    fix f e pp bp bh flag w and y :: "uint32 \<times> world"
    assume IH: "\<And>e pp bp bh flag w y. f e pp bp bh flag w = Some y \<Longrightarrow>
                  runqgrab_iter e pp bp bh flag w \<noteq> Continue w"
      and eq: "(case runqgrab_iter e pp bp bh flag w of
                  Continue w1 \<Rightarrow> f e pp bp bh flag w1
                | Return n w1 \<Rightarrow> Some (n, w1)) = Some y"
    show "runqgrab_iter e pp bp bh flag w \<noteq> Continue w"
    proof
      assume c: "runqgrab_iter e pp bp bh flag w = Continue w"
      with eq have "f e pp bp bh flag w = Some y"
        by simp
      from IH [OF this] c show False by simp
    qed
  qed
  with assms show False by simp
qed


lemma runqsteal_spec:
  assumes ne: "pp \<noteq> p2"
    and n: "n = (runqtail (ps w p2) - runqhead (ps w p2))
                 - (runqtail (ps w p2) - runqhead (ps w p2)) div 2"
    and n0: "n \<noteq> 0" and n128: "n \<le> len_runq div 2"
    and room: "unat (runqtail (ps w pp) - runqhead (ps w pp)) + unat n \<le> 256"
  shows "\<exists>gp w'. runqsteal e pp p2 flag w = Some (Inr (gp, w'))
          \<and> runqhead (ps w' p2) = runqhead (ps w p2) + n
          \<and> runqtail (ps w' p2) = runqtail (ps w p2)
          \<and> ring (ps w' p2) = drop (unat n) (ring (ps w p2))
          \<and> ring (ps w' pp) @ [gp] = ring (ps w pp) @ take (unat n) (ring (ps w p2))
          \<and> runqhead (ps w' pp) = runqhead (ps w pp)
          \<and> runqtail (ps w' pp) = runqtail (ps w pp) + (n - 1)"
proof -
  let ?h = "runqhead (ps w p2)" and ?t = "runqtail (ps w p2)"
  let ?td = "runqtail (ps w pp)" and ?hd = "runqhead (ps w pp)"
  let ?k = "unat n"
  let ?wc = "grab_copy p2 pp ?h ?td ?k w"
  let ?w1 = "upd_p p2 (\<lambda>x. x\<lparr>runqhead := ?h + n\<rparr>) ?wc"
  let ?v = "\<lambda>i. runq (ps w p2) (unat ((?h + of_nat i) mod len_runq))"
  have k256: "?k \<le> 256"
    using room by simp
  have kpos: "0 < ?k"
    using n0 by (simp add: unat_gt_0)
  have kle: "?k \<le> unat (?t - ?h)"
    unfolding n by (rule steal_count(2))
  from grab_copy_spec [OF ne [symmetric] k256, of ?h ?td w] obtain r where
    r: "ps ?wc = (ps w)(pp := (ps w pp)\<lparr>runq := r\<rparr>)"
      "\<forall>i<?k. r (unat ((?td + of_nat i) mod len_runq)) = ?v i"
      "\<forall>k. (\<forall>i<?k. k \<noteq> unat ((?td + of_nat i) mod len_runq)) \<longrightarrow> r k = runq (ps w pp) k"
    by blast
  have it: "runqgrab_iter e p2 pp ?td flag w = Return n ?w1"
    by (rule runqgrab_iter_take [OF ne [symmetric] n n0 n128])
  have grab: "runqgrab e p2 pp ?td flag w = Some (n, ?w1)"
    by (subst runqgrab.simps) (simp add: it)
  have w1pp: "ps ?w1 pp = (ps w pp)\<lparr>runq := r\<rparr>"
    using ne by (simp add: r(1))
  have w1p2: "ps ?w1 p2 = (ps w p2)\<lparr>runqhead := ?h + n\<rparr>"
    using ne by (simp add: r(1))
  have n1: "n - 1 = of_nat (?k - 1)"
    using kpos by (simp add: of_nat_diff)
  have un1: "unat (n - 1) = ?k - 1"
    using n0 by (simp add: unat_minus_one)
  let ?gp = "r (unat ((?td + (n - 1)) mod len_runq))"
  have gp: "?gp = ?v (?k - 1)"
  proof -
    have "?k - 1 < ?k" using kpos by simp
    with r(2) have "r (unat ((?td + of_nat (?k - 1)) mod len_runq)) = ?v (?k - 1)"
      by blast
    then show ?thesis by (simp only: n1)
  qed
  define w' where "w' = (if n - 1 = 0 then ?w1
                         else upd_p pp (\<lambda>x. x\<lparr>runqtail := ?td + (n - 1)\<rparr>) ?w1)"
  have noover: "\<not> len_runq \<le> ?td - ?hd + (n - 1)"
  proof -
    have "unat (?td - ?hd + (n - 1)) = unat (?td - ?hd) + (?k - 1)"
      using room kpos by (simp add: unat_word_ariths un1)
    then have "unat (?td - ?hd + (n - 1)) < 256"
      using room kpos by simp
    then show ?thesis
      by (simp add: word_le_nat_alt)
  qed
  have rq: "runq (ps ?w1 pp) = r" and hq: "runqhead (ps ?w1 pp) = ?hd"
    unfolding w1pp by simp_all
  have res: "runqsteal e pp p2 flag w = Some (Inr (?gp, w'))"
    unfolding runqsteal_def Let_def grab option.case prod.case rq hq w'_def
    using n0 noover by (simp only: if_False if_True split: if_splits) simp
  have pp': "ps w' pp = (ps w pp)\<lparr>runq := r, runqtail := ?td + of_nat (?k - 1)\<rparr>"
  proof (cases "n - 1 = 0")
    case True
    then have k0: "?k - 1 = 0"
      using un1 by simp
    have "ps w' pp = ps ?w1 pp"
      by (simp only: w'_def True if_True simp_thms)
    also have "\<dots> = (ps w pp)\<lparr>runq := r\<rparr>"
      by (rule w1pp)
    also have "\<dots> = (ps w pp)\<lparr>runq := r, runqtail := ?td + of_nat (?k - 1)\<rparr>"
      by (simp only: k0) simp
    finally show ?thesis .
  next
    case False
    have "ps w' pp = ps (upd_p pp (\<lambda>x. x\<lparr>runqtail := ?td + (n - 1)\<rparr>) ?w1) pp"
      by (simp only: w'_def False if_False)
    also have "\<dots> = (ps ?w1 pp)\<lparr>runqtail := ?td + (n - 1)\<rparr>"
      by (simp only: ps_upd_p fun_upd_same)
    finally show ?thesis
      by (simp only: w1pp n1)
  qed
  have p2': "ps w' p2 = (ps w p2)\<lparr>runqhead := ?h + of_nat ?k\<rparr>"
  proof -
    have "ps w' p2 = ps ?w1 p2"
      using ne by (cases "n - 1 = 0") (simp_all only: w'_def if_True if_False ps_upd_p fun_upd_other simp_thms)
    then show ?thesis
      by (simp only: w1p2) simp
  qed
  have ringd: "ring (ps w' pp) = ring (ps w pp) @ map ?v [0..<?k - 1]"
    unfolding pp'
  proof (rule ring_extend [where n = ?k])
    show "unat (?td - ?hd) + (?k - 1) \<le> 256" using room by simp
    show "r (unat ((?td + of_nat i) mod len_runq)) = ?v i" if "i < ?k - 1" for i
      using r(2) that by simp
    show "r k = runq (ps w pp) k"
      if "\<And>i. i < ?k \<Longrightarrow> k \<noteq> unat ((?td + of_nat i) mod len_runq)" for k
      using r(3) that by blast
    show "?k - 1 \<le> ?k" by simp
    show "unat (?td - ?hd) + ?k \<le> 256" by (rule room)
  qed
  have "[0..<?k] = [0..<?k - 1] @ [?k - 1]"
    using kpos by (metis Suc_pred' upt_Suc_append zero_le)
  then have "map ?v [0..<?k] = map ?v [0..<?k - 1] @ [?gp]"
    by (simp only: gp map_append list.map)
  then have stolen: "ring (ps w' pp) @ [?gp] = ring (ps w pp) @ take ?k (ring (ps w p2))"
    by (simp only: ringd ring_take [OF kle] append_assoc)
  have rings: "ring (ps w' p2) = drop ?k (ring (ps w p2))"
    unfolding p2' by (rule ring_drop [OF kle])
  have "runqhead (ps w' p2) = ?h + n" "runqtail (ps w' p2) = ?t"
    unfolding p2' by simp_all
  moreover have "runqhead (ps w' pp) = ?hd" "runqtail (ps w' pp) = ?td + (n - 1)"
    unfolding pp' n1 by simp_all
  ultimately show ?thesis
    using res stolen rings by blast
qed

lemma runqsteal_inconsistent:
  assumes "len_runq div 2 < (runqtail (ps w p2) - runqhead (ps w p2))
             - (runqtail (ps w p2) - runqhead (ps w p2)) div 2"
  shows "runqsteal e pp p2 flag w = None"
proof -
  have "runqgrab e p2 pp (runqtail (ps w pp)) flag w = None"
    by (rule runqgrab_retry_forever [OF runqgrab_iter_inconsistent [OF assms]])
  then show ?thesis
    by (simp add: runqsteal_def)
qed


text \<open>
  A world in which the P at address 4 has the three G's 21, 22 and 23 in its ring and the P
  at address 2 has none; and one in which the head and tail of the P at address 4 are 300
  apart.
\<close>

definition cex_steal :: world where
  "cex_steal = world_zero\<lparr>
     ps := (\<lambda>_. p_zero)(4 := p_zero\<lparr>runqtail := 3, runq := (\<lambda>i. 21 + i)\<rparr>)\<rparr>"

definition wit_torn :: world where
  "wit_torn = world_zero\<lparr>ps := (\<lambda>_. p_zero)(4 := p_zero\<lparr>runqtail := 300\<rparr>)\<rparr>"

lemma cex_steal_fields:
  "runqtail (ps cex_steal 4) = 3" "runqhead (ps cex_steal 4) = 0"
  "runqtail (ps cex_steal 2) = 0" "runqhead (ps cex_steal 2) = 0"
  "runq (ps cex_steal 4) = (\<lambda>i. 21 + i)"
  by (simp_all add: cex_steal_def p_zero_def)

lemma cex_steal_ring4: "ring (ps cex_steal 4) = [21, 22, 23]"
proof -
  have "ring (ps cex_steal 4) =
      map (\<lambda>i. 21 + unat (((0 :: 32 word) + of_nat i) mod len_runq)) [0..<unat (3 - 0 :: 32 word)]"
    by (simp only: ring_def cex_steal_fields)
  also have "\<dots> = map (\<lambda>i. 21 + (unat (0 :: 32 word) + i) mod 256) [0..<3]"
    by (simp only: ring_index) simp
  also have "[0..<3] = [0, 1, 2 :: nat]"
    by (simp add: upt_rec)
  finally show ?thesis by simp
qed

lemma cex_steal_ring2: "ring (ps cex_steal 2) = []"
  by (simp add: ring_def cex_steal_fields)

lemmas cex_steal_simps = cex_steal_fields(1-4) cex_steal_ring4 cex_steal_ring2

lemma cex_steal_run:
  "\<exists>w'. runqsteal env_default 2 4 False cex_steal = Some (Inr (22, w'))
      \<and> runqhead (ps w' 4) = 2 \<and> ring (ps w' 4) = [23] \<and> ring (ps w' 2) = [21]"
proof -
  have n: "(2 :: 32 word) = (runqtail (ps cex_steal 4) - runqhead (ps cex_steal 4))
                 - (runqtail (ps cex_steal 4) - runqhead (ps cex_steal 4)) div 2"
    by (simp only: cex_steal_simps) simp
  have room: "unat (runqtail (ps cex_steal 2) - runqhead (ps cex_steal 2)) + unat (2 :: 32 word) \<le> 256"
    by (simp only: cex_steal_simps) simp
  from runqsteal_spec [OF _ n _ _ room, of env_default False]
  obtain gp w' where r: "runqsteal env_default 2 4 False cex_steal = Some (Inr (gp, w'))"
    "runqhead (ps w' 4) = runqhead (ps cex_steal 4) + 2"
    "ring (ps w' 4) = drop (unat (2 :: 32 word)) (ring (ps cex_steal 4))"
    "ring (ps w' 2) @ [gp] = ring (ps cex_steal 2) @ take (unat (2 :: 32 word)) (ring (ps cex_steal 4))"
    by auto
  from r(4) have "ring (ps w' 2) @ [gp] = [21] @ [22]"
    by (simp only: cex_steal_simps) simp
  then have "ring (ps w' 2) = [21]" and "gp = 22"
    by (simp_all only: append1_eq_conv)
  moreover have "runqhead (ps w' 4) = 2" and "ring (ps w' 4) = [23]"
    using r(2,3) by (simp_all only: cex_steal_simps) simp_all
  ultimately show ?thesis
    using r(1) by blast
qed

text \<open>
  The count is not \<open>(t - h) / 2\<close>: with three G's in the victim's ring that would be one,
  but \<open>runqsteal\<close> takes two of them and advances the victim's head by two.
\<close>

theorem runqsteal_rounds_up_counterexample:
  "(runqtail (ps cex_steal 4) - runqhead (ps cex_steal 4)) div 2 = 1
   \<and> (case runqsteal env_default 2 4 False cex_steal of
        Some (Inr (gp, w')) \<Rightarrow>
          gp = 22 \<and> runqhead (ps w' 4) = runqhead (ps cex_steal 4) + 2
          \<and> ring (ps w' 4) = [23] \<and> ring (ps w' 2) = [21]
      | _ \<Rightarrow> False)"
proof -
  have "(runqtail (ps cex_steal 4) - runqhead (ps cex_steal 4)) div 2 = 1"
    by (simp only: cex_steal_simps) simp
  moreover from cex_steal_run obtain w' where
    "runqsteal env_default 2 4 False cex_steal = Some (Inr (22, w'))"
    "runqhead (ps w' 4) = 2" "ring (ps w' 4) = [23]" "ring (ps w' 2) = [21]"
    by blast
  ultimately show ?thesis
    by (simp add: cex_steal_simps)
qed

text \<open>
  C1 (as amended): let \<open>h\<close> and \<open>t\<close> be the head and tail that \<open>runqgrab\<close> loads from the
  victim \<open>p2\<close>, a P other than the thief, and \<open>n = (t - h) - (t - h) / 2\<close>, half of the
  queue rounded up, not zero (so that the ring and not the runnext slot is taken from). If
  \<open>n\<close> exceeds half the capacity the iteration of \<open>runqgrab\<close> goes round again with nothing
  changed (and, nobody else changing the queue, for ever). Otherwise, the thief's ring having
  room for them, \<open>runqsteal\<close> takes exactly the \<open>n\<close> entries of the victim's ring that start
  at \<open>h\<close>: it returns the last of them, appends the others to the thief's ring, and leaves
  the victim's head at \<open>h + n\<close>.
\<close>

theorem runqsteal_half:
  assumes ne: "pp \<noteq> p2"
    and h: "h = runqhead (ps w p2)" and t: "t = runqtail (ps w p2)"
    and n: "n = (t - h) - (t - h) div 2" and n0: "n \<noteq> 0"
  shows "(len_runq div 2 < n \<longrightarrow>
            runqgrab_iter e p2 pp (runqtail (ps w pp)) flag w = Continue w
            \<and> runqsteal e pp p2 flag w = None)
       \<and> (n \<le> len_runq div 2 \<and> unat (runqtail (ps w pp) - runqhead (ps w pp)) + unat n \<le> 256 \<longrightarrow>
            unat n = unat (t - h) - unat (t - h) div 2
            \<and> (\<exists>gp w'. runqsteal e pp p2 flag w = Some (Inr (gp, w'))
                 \<and> runqhead (ps w' p2) = h + n \<and> runqtail (ps w' p2) = t
                 \<and> ring (ps w' p2) = drop (unat n) (ring (ps w p2))
                 \<and> ring (ps w' pp) @ [gp] = ring (ps w pp) @ take (unat n) (ring (ps w p2))))"
proof (intro conjI impI)
  assume big: "len_runq div 2 < n"
  then have b: "len_runq div 2 < (runqtail (ps w p2) - runqhead (ps w p2))
             - (runqtail (ps w p2) - runqhead (ps w p2)) div 2"
    by (simp only: n h t)
  show "runqgrab_iter e p2 pp (runqtail (ps w pp)) flag w = Continue w"
    by (rule runqgrab_iter_inconsistent [OF b])
  show "runqsteal e pp p2 flag w = None"
    by (rule runqsteal_inconsistent [OF b])
next
  assume a: "n \<le> len_runq div 2 \<and> unat (runqtail (ps w pp) - runqhead (ps w pp)) + unat n \<le> 256"
  show "unat n = unat (t - h) - unat (t - h) div 2"
    unfolding n by (rule steal_count(1))
  have n': "n = (runqtail (ps w p2) - runqhead (ps w p2))
                 - (runqtail (ps w p2) - runqhead (ps w p2)) div 2"
    by (simp only: n h t)
  from runqsteal_spec [OF ne n' n0 conjunct1 [OF a] conjunct2 [OF a], of e flag]
  show "\<exists>gp w'. runqsteal e pp p2 flag w = Some (Inr (gp, w'))
                 \<and> runqhead (ps w' p2) = h + n \<and> runqtail (ps w' p2) = t
                 \<and> ring (ps w' p2) = drop (unat n) (ring (ps w p2))
                 \<and> ring (ps w' pp) @ [gp] = ring (ps w pp) @ take (unat n) (ring (ps w p2))"
    unfolding h t by blast
qed

theorem runqsteal_half_witness:
  "(runqgrab_iter env_default 4 2 (runqtail (ps wit_torn 2)) True wit_torn = Continue wit_torn
      \<and> runqsteal env_default 2 4 True wit_torn = None)
   \<and> (\<exists>gp w'. runqsteal env_default 2 4 True cex_steal = Some (Inr (gp, w'))
        \<and> runqhead (ps w' 4) = 2 \<and> runqtail (ps w' 4) = 3
        \<and> ring (ps w' 4) = [23] \<and> ring (ps w' 2) @ [gp] = [21, 22])"
proof -
  have ne: "(2 :: nat) \<noteq> 4" by simp
  have torn: "runqhead (ps wit_torn 4) = 0" "runqtail (ps wit_torn 4) = 300"
    by (simp_all add: wit_torn_def p_zero_def)
  have n1: "(150 :: 32 word) = (300 - 0) - (300 - 0) div 2" and n10: "(150 :: 32 word) \<noteq> 0"
    and big: "len_runq div 2 < (150 :: 32 word)"
    by simp_all
  from runqsteal_half [OF ne torn(1) [symmetric] torn(2) [symmetric] n1 n10,
      where e = env_default and flag = True] big
  have a: "runqgrab_iter env_default 4 2 (runqtail (ps wit_torn 2)) True wit_torn = Continue wit_torn
      \<and> runqsteal env_default 2 4 True wit_torn = None"
    by blast
  have n2: "(2 :: 32 word) = (3 - 0) - (3 - 0) div 2" and n20: "(2 :: 32 word) \<noteq> 0"
    and small: "(2 :: 32 word) \<le> len_runq div 2"
    by simp_all
  have room: "unat (runqtail (ps cex_steal 2) - runqhead (ps cex_steal 2)) + unat (2 :: 32 word) \<le> 256"
    by (simp only: cex_steal_simps) simp
  from runqsteal_half [OF ne cex_steal_simps(2) [symmetric] cex_steal_simps(1) [symmetric] n2 n20,
      where e = env_default and flag = True] small room
  have "\<exists>gp w'. runqsteal env_default 2 4 True cex_steal = Some (Inr (gp, w'))
                 \<and> runqhead (ps w' 4) = 0 + 2 \<and> runqtail (ps w' 4) = 3
                 \<and> ring (ps w' 4) = drop (unat (2 :: 32 word)) (ring (ps cex_steal 4))
                 \<and> ring (ps w' 2) @ [gp] = ring (ps cex_steal 2) @ take (unat (2 :: 32 word)) (ring (ps cex_steal 4))"
    by blast
  then have b: "\<exists>gp w'. runqsteal env_default 2 4 True cex_steal = Some (Inr (gp, w'))
        \<and> runqhead (ps w' 4) = 2 \<and> runqtail (ps w' 4) = 3
        \<and> ring (ps w' 4) = [23] \<and> ring (ps w' 2) @ [gp] = [21, 22]"
    by (simp add: cex_steal_simps)
  from a b show ?thesis ..
qed

section \<open>The randomized order of the stealing passes\<close>

text \<open>
  A call of \<open>runqsteal\<close> leaves the table of P's, the M, the stealing order and the random
  stream alone, and records no further call of \<open>runqsteal\<close>.
\<close>

definition quiet :: "world \<Rightarrow> world \<Rightarrow> bool" where
  "quiet w w' \<longleftrightarrow>
     allp w' = allp w \<and> curm w' = curm w \<and> stealOrder w' = stealOrder w \<and>
     rand w' = rand w \<and> sched w' = sched w \<and>
     (\<exists>evs. events w' = events w @ evs \<and> steals evs = [])"

text \<open>Nothing to steal: no P has a G in its ring or its runnext slot, and no GC is waiting.\<close>

definition idle_ps :: "world \<Rightarrow> bool" where
  "idle_ps w \<longleftrightarrow> gcwaiting (sched w) = 0 \<and>
     (\<forall>p2\<in>set (allp w). runqtail (ps w p2) = runqhead (ps w p2) \<and> runnext (ps w p2) = 0)"
















lemma steals_append: "steals (xs @ ys) = steals xs @ steals ys"
  by (induction xs) (simp_all split: event.splits)

lemma quiet_refl: "quiet w w"
  by (simp add: quiet_def)

lemma quiet_trans: "quiet w w1 \<Longrightarrow> quiet w1 w2 \<Longrightarrow> quiet w w2"
  unfolding quiet_def by (auto simp: steals_append)

lemma quiet_upd_p: "quiet w (upd_p pp f w)"
  by (simp add: quiet_def upd_p_def)

lemma quiet_Usleep: "quiet w (emit (Usleep n) w)"
  by (simp add: quiet_def emit_def)

lemma quiet_Osyield: "quiet w (emit Osyield w)"
  by (simp add: quiet_def emit_def)

lemma quiet_fold_upd_p:
  "quiet w w0 \<Longrightarrow> quiet w (fold (\<lambda>i w'. upd_p bp (F i w') w') xs w0)"
proof (induction xs arbitrary: w0)
  case Nil
  then show ?case by simp
next
  case (Cons x xs)
  have "quiet w (upd_p bp (F x w0) w0)"
    using Cons.prems quiet_upd_p by (rule quiet_trans)
  from Cons.IH [OF this] show ?case by simp
qed

lemma quiet_grab_copy: "quiet w (grab_copy pp bp h bh n w)"
  unfolding grab_copy_def by (rule quiet_fold_upd_p) (rule quiet_refl)

lemma quiet_runqgrab_iter:
  "runqgrab_iter e pp bp bh flag w = Continue w1 \<Longrightarrow> quiet w w1"
  "runqgrab_iter e pp bp bh flag w = Return n w1 \<Longrightarrow> quiet w w1"
proof -
  have a: "quiet w (upd_p a f (upd_p b g (emit (Usleep k) w)))" for a b f g k
    by (meson quiet_trans quiet_upd_p quiet_Usleep)
  have b: "quiet w (upd_p a f (upd_p b g (emit Osyield w)))" for a b f g
    by (meson quiet_trans quiet_upd_p quiet_Osyield)
  have c: "quiet w (upd_p a f (upd_p b g w))" for a b f g
    by (meson quiet_trans quiet_upd_p)
  have d: "quiet w (upd_p a f (emit (Usleep k) w))" for a f k
    by (meson quiet_trans quiet_upd_p quiet_Usleep)
  have d': "quiet w (upd_p a f (emit Osyield w))" for a f
    by (meson quiet_trans quiet_upd_p quiet_Osyield)
  have g: "quiet w (upd_p a f (grab_copy pp bp h bh k w))" for a f h k
    by (meson quiet_trans quiet_upd_p quiet_grab_copy)
  note all = a b c d d' g quiet_refl quiet_upd_p
  show "runqgrab_iter e pp bp bh flag w = Continue w1 \<Longrightarrow> quiet w w1"
    unfolding runqgrab_iter_def Let_def cas_def
    by (auto split: if_splits simp: all)
  show "runqgrab_iter e pp bp bh flag w = Return n w1 \<Longrightarrow> quiet w w1"
    unfolding runqgrab_iter_def Let_def cas_def
    by (auto split: if_splits simp: all)
qed

lemma quiet_runqgrab:
  assumes y: "runqgrab e pp bp bh flag w = Some y"
  shows "quiet w (snd y)"
proof (rule runqgrab.raw_induct [where P = "\<lambda>e pp bp bh flag w y. quiet w (snd y)", OF _ y])
  fix f e pp bp bh flag w and y :: "uint32 \<times> world"
  assume IH: "\<And>e pp bp bh flag w y. f e pp bp bh flag w = Some y \<Longrightarrow> quiet w (snd y)"
    and eq: "(case runqgrab_iter e pp bp bh flag w of
                Continue w1 \<Rightarrow> f e pp bp bh flag w1
              | Return n w1 \<Rightarrow> Some (n, w1)) = Some y"
  show "quiet w (snd y)"
  proof (cases "runqgrab_iter e pp bp bh flag w")
    case (Continue w1)
    with eq have "f e pp bp bh flag w1 = Some y"
      by simp
    from quiet_runqgrab_iter(1) [OF Continue] IH [OF this] show ?thesis
      by (rule quiet_trans)
  next
    case (Return n w1)
    with eq have "y = (n, w1)"
      by simp
    with quiet_runqgrab_iter(2) [OF Return] show ?thesis
      by simp
  qed
qed

lemma quiet_runqsteal:
  assumes "runqsteal e pp p2 flag w = Some (Inr (gp, w'))"
  shows "quiet w w'"
proof -
  obtain n w1 where g: "runqgrab e p2 pp (runqtail (ps w pp)) flag w = Some (n, w1)"
    using assms unfolding runqsteal_def Let_def by (auto split: option.splits)
  from quiet_runqgrab [OF g] have q: "quiet w w1"
    by simp
  have "w' = w1 \<or> (\<exists>f. w' = upd_p pp f w1)"
    using assms unfolding runqsteal_def Let_def g by (auto split: if_splits)
  with q show ?thesis
    by (auto intro: quiet_trans quiet_upd_p)
qed

lemma steal_enum_log:
  "steal_enum e i en w = Some (Inr (r, w')) \<Longrightarrow>
     allp w' = allp w \<and> curm w' = curm w \<and> stealOrder w' = stealOrder w \<and>
     rand w' = rand w \<and> sched w' = sched w \<and>
     (\<exists>evs rest. events w' = events w @ evs \<and>
        steals evs @ rest = map (\<lambda>pos. (allp w ! unat pos, 2 < i)) (enum_positions en) \<and>
        (r = None \<longrightarrow> rest = []))"
proof (induction e i en w arbitrary: r w' rule: steal_enum.induct)
  case (1 e i en w)
  note run = "1.prems"
  show ?case
  proof (cases "enum_done en")
    case True
    with run have "r = None" "w' = w"
      by (simp_all add: steal_enum.simps)
    moreover have "enum_positions en = []"
      using True by (subst enum_positions.simps) simp
    ultimately show ?thesis
      by simp
  next
    case nd: False
    show ?thesis
    proof (cases "gcwaiting (sched w) \<noteq> 0")
      case True
      with run nd have "w' = w" "r = Some GotoTop"
        by (simp_all add: steal_enum.simps)
      then show ?thesis
        by simp
    next
      case gc: False
      define p2 where "p2 = allp w ! unat (position en)"
      define w1 where "w1 = emit (Runqsteal (m_p (curm w)) p2 (2 < i)) w"
      have inr: "\<not> length (allp w) \<le> unat (position en)"
        using run nd gc by (subst (asm) steal_enum.simps) (auto simp: Let_def)
      from run nd gc inr obtain gp w2 where
          st: "runqsteal e (m_p (curm w1)) p2 (2 < i) w1 = Some (Inr (gp, w2))"
        and rest: "if gp \<noteq> 0 then r = Some (Found gp) \<and> w' = w2
                   else steal_enum e i (enum_next en) w2 = Some (Inr (r, w'))"
        by (subst (asm) steal_enum.simps)
           (auto simp: Let_def p2_def w1_def split: option.splits sum.splits if_splits)
      have q: "quiet w1 w2"
        using st by (rule quiet_runqsteal)
      then obtain evs where evs: "events w2 = events w1 @ evs" "steals evs = []"
        and same: "allp w2 = allp w1" "curm w2 = curm w1" "stealOrder w2 = stealOrder w1"
          "rand w2 = rand w1" "sched w2 = sched w1"
        unfolding quiet_def by blast
      have w1: "allp w1 = allp w" "curm w1 = curm w" "stealOrder w1 = stealOrder w"
          "rand w1 = rand w" "sched w1 = sched w" "events w1 = events w @ [Runqsteal (m_p (curm w)) p2 (2 < i)]"
        by (simp_all add: w1_def emit_def)
      have pos: "enum_positions en = position en # enum_positions (enum_next en)"
        using nd by (subst enum_positions.simps) simp
      show ?thesis
      proof (cases "gp \<noteq> 0")
        case True
        with rest have r: "r = Some (Found gp)" "w' = w2"
          by simp_all
        have "events w' = events w @ (Runqsteal (m_p (curm w)) p2 (2 < i) # evs)"
          by (simp add: r evs w1)
        moreover have "steals (Runqsteal (m_p (curm w)) p2 (2 < i) # evs)
              @ map (\<lambda>pos. (allp w ! unat pos, 2 < i)) (enum_positions (enum_next en))
            = map (\<lambda>pos. (allp w ! unat pos, 2 < i)) (enum_positions en)"
          by (simp add: evs pos p2_def)
        ultimately have "\<exists>evs rest. events w' = events w @ evs \<and>
            steals evs @ rest = map (\<lambda>pos. (allp w ! unat pos, 2 < i)) (enum_positions en) \<and>
            (r = None \<longrightarrow> rest = [])"
          using r(1) by blast
        moreover have "allp w' = allp w" "curm w' = curm w" "stealOrder w' = stealOrder w"
            "rand w' = rand w" "sched w' = sched w"
          by (simp_all add: r same w1)
        ultimately show ?thesis
          by (simp only: simp_thms)
      next
        case False
        with rest have nxt: "steal_enum e i (enum_next en) w2 = Some (Inr (r, w'))"
          by simp
        have "gp = 0"
          using False by simp
        have "allp w' = allp w2 \<and> curm w' = curm w2 \<and> stealOrder w' = stealOrder w2 \<and>
            rand w' = rand w2 \<and> sched w' = sched w2 \<and>
            (\<exists>evs rest. events w' = events w2 @ evs \<and>
               steals evs @ rest = map (\<lambda>pos. (allp w2 ! unat pos, 2 < i))
                                      (enum_positions (enum_next en)) \<and>
               (r = None \<longrightarrow> rest = []))"
          by (rule "1.IH" [OF nd gc refl inr refl refl
                st [unfolded w1_def p2_def] refl refl _ nxt]) (simp add: \<open>gp = 0\<close>)
        then obtain evs' rest where
            fr: "allp w' = allp w2" "curm w' = curm w2" "stealOrder w' = stealOrder w2"
              "rand w' = rand w2" "sched w' = sched w2"
          and ev': "events w' = events w2 @ evs'"
          and log: "steals evs' @ rest = map (\<lambda>pos. (allp w2 ! unat pos, 2 < i))
                                      (enum_positions (enum_next en))"
          and full: "r = None \<longrightarrow> rest = []"
          by blast
        have "events w' = events w @ (Runqsteal (m_p (curm w)) p2 (2 < i) # evs @ evs')"
          by (simp add: ev' evs w1)
        moreover have "steals (Runqsteal (m_p (curm w)) p2 (2 < i) # evs @ evs') @ rest
            = map (\<lambda>pos. (allp w ! unat pos, 2 < i)) (enum_positions en)"
          using log by (simp add: steals_append evs pos p2_def same w1)
        ultimately have "\<exists>evs rest. events w' = events w @ evs \<and>
            steals evs @ rest = map (\<lambda>pos. (allp w ! unat pos, 2 < i)) (enum_positions en) \<and>
            (r = None \<longrightarrow> rest = [])"
          using full by blast
        moreover have "allp w' = allp w" "curm w' = curm w" "stealOrder w' = stealOrder w"
            "rand w' = rand w" "sched w' = sched w"
          by (simp_all add: fr same w1)
        ultimately show ?thesis
          by (simp only: simp_thms)
      qed
    qed
  qed
qed




lemma runqsteal_nothing:
  assumes "runqtail (ps w p2) = runqhead (ps w p2)" and "runnext (ps w p2) = 0"
  shows "runqsteal e pp p2 flag w = Some (Inr (0, w))"
proof -
  have "runqgrab_iter e p2 pp bh flag w = Return 0 w" for bh
    using assms by (simp add: runqgrab_iter_def)
  then have "runqgrab e p2 pp bh flag w = Some (0, w)" for bh
    by (subst runqgrab.simps) simp
  then show ?thesis
    by (simp add: runqsteal_def)
qed

lemma idle_ps_events: "idle_ps (w\<lparr>events := evs\<rparr>) = idle_ps w"
  by (simp add: idle_ps_def)

lemma steal_enum_nothing:
  assumes "idle_ps w" and "\<forall>pos\<in>set (enum_positions en). unat pos < length (allp w)"
  shows "steal_enum e i en w =
     Some (Inr (None, w\<lparr>events := events w @
        map (\<lambda>pos. Runqsteal (m_p (curm w)) (allp w ! unat pos) (2 < i)) (enum_positions en)\<rparr>))"
  using assms
proof (induction "enum_positions en" arbitrary: en w)
  case Nil
  then have "enum_done en"
    by (subst (asm) enum_positions.simps) (simp split: if_splits)
  then show ?case
    using Nil(1) [symmetric] by (subst steal_enum.simps) simp
next
  case (Cons pos poss)
  have nd: "\<not> enum_done en" and pos: "pos = position en"
    and poss: "poss = enum_positions (enum_next en)"
    using Cons(2) by (subst (asm) enum_positions.simps, simp split: if_splits)+
  let ?p2 = "allp w ! unat (position en)"
  let ?w1 = "emit (Runqsteal (m_p (curm w)) ?p2 (2 < i)) w"
  have eq: "enum_positions en = position en # enum_positions (enum_next en)"
    using Cons(2) pos poss by simp
  have inr: "unat (position en) < length (allp w)"
    using Cons.prems(2) by (simp add: eq)
  then have mem: "?p2 \<in> set (allp w)"
    by simp
  have idle1: "idle_ps ?w1"
    using Cons.prems(1) by (simp add: emit_def idle_ps_events)
  have st: "runqsteal e (m_p (curm ?w1)) ?p2 (2 < i) ?w1 = Some (Inr (0, ?w1))"
    using Cons.prems(1) mem by (intro runqsteal_nothing) (simp_all add: idle_ps_def emit_def)
  have "steal_enum e i en w = steal_enum e i (enum_next en) ?w1"
    using nd inr Cons.prems(1)
    by (subst steal_enum.simps) (simp add: Let_def st idle_ps_def)
  also have "\<dots> = Some (Inr (None, ?w1\<lparr>events := events ?w1 @
        map (\<lambda>pos. Runqsteal (m_p (curm ?w1)) (allp ?w1 ! unat pos) (2 < i))
          (enum_positions (enum_next en))\<rparr>))"
    using Cons.prems(2) by (intro Cons(1) [OF poss idle1]) (simp add: eq emit_def)
  finally show ?case
    by (simp add: eq emit_def)
qed






lemma idle_ps_rand: "idle_ps (w\<lparr>rand := r\<rparr>) = idle_ps w"
  by (simp add: idle_ps_def)

lemma steal_pass_nothing:
  assumes "idle_ps w" and "start (stealOrder w) (rand w 0) = Inr en"
    and "\<forall>pos\<in>set (enum_positions en). unat pos < length (allp w)"
  shows "steal_passes e i (Suc k) w = steal_passes e (Suc i) k
       (w\<lparr>rand := (\<lambda>k. rand w (Suc k)),
          events := events w @ map (\<lambda>pos. Runqsteal (m_p (curm w)) (allp w ! unat pos) (2 < i))
                                  (enum_positions en)\<rparr>)"
proof -
  let ?w1 = "w\<lparr>rand := (\<lambda>k. rand w (Suc k))\<rparr>"
  have "steal_enum e i en ?w1 =
      Some (Inr (None, ?w1\<lparr>events := events ?w1 @
        map (\<lambda>pos. Runqsteal (m_p (curm ?w1)) (allp ?w1 ! unat pos) (2 < i)) (enum_positions en)\<rparr>))"
    using assms by (intro steal_enum_nothing) (simp_all add: idle_ps_rand)
  then show ?thesis
    using assms(2) by (simp add: fastrand_def)
qed

lemma steal_passes_nothing:
  assumes "idle_ps w"
    and "\<forall>j\<in>set [0..<k]. \<exists>en. start (stealOrder w) (rand w j) = Inr en \<and>
            (\<forall>pos\<in>set (enum_positions en). unat pos < length (allp w))"
  shows "\<exists>w'. steal_passes e i k w = Some (Inr (GotoStop, w'))"
  using assms
proof (induction k arbitrary: i w)
  case 0
  then show ?case by simp
next
  case (Suc k)
  from Suc.prems(2) obtain en where en: "start (stealOrder w) (rand w 0) = Inr en"
      "\<forall>pos\<in>set (enum_positions en). unat pos < length (allp w)"
    by force
  let ?w2 = "w\<lparr>rand := (\<lambda>k. rand w (Suc k)),
          events := events w @ map (\<lambda>pos. Runqsteal (m_p (curm w)) (allp w ! unat pos) (2 < i))
                                  (enum_positions en)\<rparr>"
  have step: "steal_passes e i (Suc k) w = steal_passes e (Suc i) k ?w2"
    using Suc.prems(1) en by (rule steal_pass_nothing)
  have idle: "idle_ps ?w2"
    using Suc.prems(1) by (simp add: idle_ps_def)
  have "\<forall>j\<in>set [0..<k]. \<exists>en. start (stealOrder ?w2) (rand ?w2 j) = Inr en \<and>
            (\<forall>pos\<in>set (enum_positions en). unat pos < length (allp ?w2))"
  proof
    fix j assume "j \<in> set [0..<k]"
    then have "j < k"
      by simp
    then have "Suc j < Suc k"
      by (rule Suc_mono)
    then have "Suc j \<in> set [0..<Suc k]"
      by (simp only: set_upt atLeastLessThan_iff le0 simp_thms)
    with Suc.prems(2) show "\<exists>en. start (stealOrder ?w2) (rand ?w2 j) = Inr en \<and>
            (\<forall>pos\<in>set (enum_positions en). unat pos < length (allp ?w2))"
      by (simp del: upt_Suc set_upt)
  qed
  from Suc.IH [OF idle this] show ?case
    unfolding step .
qed





section \<open>Spinning before stealing\<close>

text \<open>
  Three worlds with four, four and two P's: all P's but the caller's idle; two busy P's and
  one spinning M; two busy P's and no spinning M.
\<close>

definition cex_spin :: world where
  "cex_spin = world_zero\<lparr>gomaxprocs := 4, allp := [2, 4, 5, 6],
     stealOrder := \<lparr>ord_count = 4, coprimes = [1, 3]\<rparr>, sched := sched_zero\<lparr>npidle := 3\<rparr>\<rparr>"

definition wit_stop :: world where
  "wit_stop = world_zero\<lparr>gomaxprocs := 4, allp := [2, 4, 5, 6],
     stealOrder := \<lparr>ord_count = 4, coprimes = [1, 3]\<rparr>,
     sched := sched_zero\<lparr>npidle := 2, nmspinning := 1\<rparr>\<rparr>"

definition wit_spin :: world where
  "wit_spin = world_zero\<lparr>gomaxprocs := 2, allp := [2, 4],
     stealOrder := \<lparr>ord_count = 2, coprimes = [1]\<rparr>\<rparr>"

lemma steal_passes_frame:
  "steal_passes e i k w = Some (Inr (res, w')) \<Longrightarrow> curm w' = curm w \<and> sched w' = sched w"
proof (induction k arbitrary: i w)
  case 0
  then show ?case by simp
next
  case (Suc k)
  define w1 where "w1 = snd (fastrand w)"
  have w1: "curm w1 = curm w" "sched w1 = sched w"
    by (simp_all add: w1_def fastrand_def)
  have fr: "fastrand w = (rand w 0, w1)"
    by (simp add: w1_def fastrand_def)
  from Suc.prems obtain en r w2 where
      se: "steal_enum e i en w1 = Some (Inr (r, w2))"
    and rest: "case r of Some x \<Rightarrow> w' = w2
               | None \<Rightarrow> steal_passes e (Suc i) k w2 = Some (Inr (res, w'))"
    by (auto simp: fr split: option.splits sum.splits)
  from steal_enum_log [OF se] have same: "curm w2 = curm w1" "sched w2 = sched w1"
    by blast+
  show ?case
  proof (cases r)
    case (Some x)
    with rest same w1 show ?thesis by simp
  next
    case None
    with rest have "steal_passes e (Suc i) k w2 = Some (Inr (res, w'))"
      by simp
    from Suc.IH [OF this] same w1 show ?thesis by simp
  qed
qed

lemma wit_spin_run:
  "\<exists>w'. steal_passes env_default 0 4
          (upd_sched (\<lambda>s. s\<lparr>nmspinning := nmspinning s + 1\<rparr>)
             (wit_spin\<lparr>curm := (curm wit_spin)\<lparr>spinning := True\<rparr>\<rparr>))
        = Some (Inr (GotoStop, w'))"
proof (rule steal_passes_nothing)
  let ?w1 = "upd_sched (\<lambda>s. s\<lparr>nmspinning := nmspinning s + 1\<rparr>)
             (wit_spin\<lparr>curm := (curm wit_spin)\<lparr>spinning := True\<rparr>\<rparr>)"
  show "idle_ps ?w1"
    by (simp add: idle_ps_def wit_spin_def world_zero_def sched_zero_def p_zero_def upd_sched_def)
  have st: "start (stealOrder ?w1) (rand ?w1 j) =
      Inr \<lparr>enum_i = 0, enum_count = 2, enum_pos = 0, enum_inc = 1\<rparr>" for j
    by (simp add: start_def wit_spin_def world_zero_def upd_sched_def)
  have ps: "enum_positions \<lparr>enum_i = 0, enum_count = 2, enum_pos = 0, enum_inc = 1\<rparr> = [0, 1]"
    by (simp add: enum_positions.simps enum_done_def enum_next_def position_def)
  show "\<forall>j\<in>set [0..<4]. \<exists>en. start (stealOrder ?w1) (rand ?w1 j) = Inr en \<and>
            (\<forall>pos\<in>set (enum_positions en). unat pos < length (allp ?w1))"
    unfolding st by (simp add: ps wit_spin_def world_zero_def upd_sched_def)
qed

text \<open>
  C4 (as written) fails when every other P is idle: with four P's, three of them idle, and
  no spinning M, \<open>2 * nmspinning >= gomaxprocs - npidle\<close> is false, and yet the M goes to
  \<open>stop\<close> without spinning, because \<open>npidle == procs - 1\<close>.
\<close>

theorem findrunnable_all_idle_counterexample:
  "\<not> spinning (curm cex_spin) \<and>
   \<not> 2 * nmspinning (sched cex_spin) \<ge> gomaxprocs cex_spin - npidle (sched cex_spin) \<and>
   findrunnable_steal env_default cex_spin = Some (Inr (GotoStop, cex_spin))"
  by (simp add: findrunnable_steal_def cex_spin_def world_zero_def sched_zero_def)

text \<open>
  C4 (as amended): a non-spinning M that reaches the stealing phase goes to \<open>stop\<close> with
  nothing changed whenever \<open>npidle == gomaxprocs - 1\<close> or
  \<open>2 * nmspinning >= gomaxprocs - npidle\<close> (in \<open>uint32\<close>); otherwise it sets its spinning
  flag and increments \<open>nmspinning\<close>, then runs the stealing passes, which leave both as
  they are.
\<close>

theorem findrunnable_spinning:
  assumes "\<not> spinning (curm w)"
  shows "(npidle (sched w) = gomaxprocs w - 1 \<or>
            2 * nmspinning (sched w) \<ge> gomaxprocs w - npidle (sched w) \<longrightarrow>
          findrunnable_steal e w = Some (Inr (GotoStop, w))) \<and>
         (\<not> (npidle (sched w) = gomaxprocs w - 1 \<or>
              2 * nmspinning (sched w) \<ge> gomaxprocs w - npidle (sched w)) \<longrightarrow>
          findrunnable_steal e w =
            steal_passes e 0 4 (upd_sched (\<lambda>s. s\<lparr>nmspinning := nmspinning s + 1\<rparr>)
                                 (w\<lparr>curm := (curm w)\<lparr>spinning := True\<rparr>\<rparr>)) \<and>
          (\<forall>res w'. findrunnable_steal e w = Some (Inr (res, w')) \<longrightarrow>
             spinning (curm w') \<and> nmspinning (sched w') = nmspinning (sched w) + 1))"
proof (intro conjI impI)
  assume "npidle (sched w) = gomaxprocs w - 1 \<or>
            2 * nmspinning (sched w) \<ge> gomaxprocs w - npidle (sched w)"
  with assms show "findrunnable_steal e w = Some (Inr (GotoStop, w))"
    by (auto simp: findrunnable_steal_def Let_def)
next
  let ?w1 = "upd_sched (\<lambda>s. s\<lparr>nmspinning := nmspinning s + 1\<rparr>)
                                 (w\<lparr>curm := (curm w)\<lparr>spinning := True\<rparr>\<rparr>)"
  assume n: "\<not> (npidle (sched w) = gomaxprocs w - 1 \<or>
              2 * nmspinning (sched w) \<ge> gomaxprocs w - npidle (sched w))"
  with assms show eq: "findrunnable_steal e w = steal_passes e 0 4 ?w1"
    by (simp add: findrunnable_steal_def Let_def)
  show "\<forall>res w'. findrunnable_steal e w = Some (Inr (res, w')) \<longrightarrow>
             spinning (curm w') \<and> nmspinning (sched w') = nmspinning (sched w) + 1"
  proof (intro allI impI)
    fix res w'
    assume "findrunnable_steal e w = Some (Inr (res, w'))"
    then have "steal_passes e 0 4 ?w1 = Some (Inr (res, w'))"
      by (simp only: eq)
    from steal_passes_frame [OF this]
    show "spinning (curm w') \<and> nmspinning (sched w') = nmspinning (sched w) + 1"
      by (simp add: upd_sched_def)
  qed
qed

theorem findrunnable_spinning_witness:
  "\<not> spinning (curm wit_stop) \<and>
   2 * nmspinning (sched wit_stop) \<ge> gomaxprocs wit_stop - npidle (sched wit_stop) \<and>
   findrunnable_steal env_default wit_stop = Some (Inr (GotoStop, wit_stop)) \<and>
   \<not> spinning (curm wit_spin) \<and>
   \<not> (npidle (sched wit_spin) = gomaxprocs wit_spin - 1 \<or>
      2 * nmspinning (sched wit_spin) \<ge> gomaxprocs wit_spin - npidle (sched wit_spin)) \<and>
   (\<exists>w'. findrunnable_steal env_default wit_spin = Some (Inr (GotoStop, w')) \<and>
      spinning (curm w') \<and> nmspinning (sched w') = 1)"
proof -
  have a: "\<not> spinning (curm wit_stop)"
    and b: "2 * nmspinning (sched wit_stop) \<ge> gomaxprocs wit_stop - npidle (sched wit_stop)"
    by (simp_all add: wit_stop_def world_zero_def sched_zero_def)
  have c: "\<not> spinning (curm wit_spin)"
    and d: "\<not> (npidle (sched wit_spin) = gomaxprocs wit_spin - 1 \<or>
      2 * nmspinning (sched wit_spin) \<ge> gomaxprocs wit_spin - npidle (sched wit_spin))"
    and z: "nmspinning (sched wit_spin) = 0"
    by (simp_all add: wit_spin_def world_zero_def sched_zero_def)
  from findrunnable_spinning [OF a, of env_default] b
  have stop: "findrunnable_steal env_default wit_stop = Some (Inr (GotoStop, wit_stop))"
    by blast
  note t = findrunnable_spinning [OF c, of env_default]
  from t d have eq: "findrunnable_steal env_default wit_spin =
      steal_passes env_default 0 4
          (upd_sched (\<lambda>s. s\<lparr>nmspinning := nmspinning s + 1\<rparr>)
             (wit_spin\<lparr>curm := (curm wit_spin)\<lparr>spinning := True\<rparr>\<rparr>))"
    by blast
  with wit_spin_run obtain w' where
      run: "findrunnable_steal env_default wit_spin = Some (Inr (GotoStop, w'))"
    by auto
  with t d have "spinning (curm w') \<and> nmspinning (sched w') = nmspinning (sched wit_spin) + 1"
    by blast
  then have "spinning (curm w') \<and> nmspinning (sched w') = 1"
    by (simp add: z)
  with a b stop c d run show ?thesis
    by blast
qed

section \<open>Retaking a P from a syscall\<close>

















section \<open>Putting a G on a local run queue\<close>

lemma runqput_retryNext_eq:
  "runqput_retryNext pp gp w =
     Some (runnext (ps w pp), upd_p pp (\<lambda>x. x\<lparr>runnext := gp\<rparr>) w)"
  by (subst runqput_retryNext.simps) (simp add: Let_def cas_def)

lemma ring_runnext [simp]: "ring (x\<lparr>runnext := v\<rparr>) = ring x"
  by (simp add: ring_def)

lemma runqput_room:
  assumes room: "runqtail (ps w pp) - runqhead (ps w pp) < len_runq"
  shows "\<exists>w'. runqput e pp gp next w = Some (Inr w') \<and> gs w' = gs w \<and> sched w' = sched w \<and>
           curm w' = curm w \<and> curg w' = curg w \<and> events w' = events w \<and>
           (if next \<and> \<not> (randomizeScheduler e \<and> rand w 0 mod 2 = 0)
            then runnext (ps w' pp) = gp \<and>
                 ring (ps w' pp) = ring (ps w pp) @
                    (if runnext (ps w pp) = 0 then [] else [runnext (ps w pp)])
            else runnext (ps w' pp) = runnext (ps w pp) \<and>
                 ring (ps w' pp) = ring (ps w pp) @ [gp])"
proof -
  define w1 where "w1 = (if randomizeScheduler e \<and> next then snd (fastrand w) else w)"
  define next1 where "next1 \<longleftrightarrow> next \<and> \<not> (randomizeScheduler e \<and> rand w 0 mod 2 = 0)"
  have w1: "ps w1 = ps w" "gs w1 = gs w" "sched w1 = sched w" "curm w1 = curm w"
      "curg w1 = curg w" "events w1 = events w"
    by (simp_all add: w1_def fastrand_def)
  have put: "runqput e pp gp next w =
      (if next1
       then (case runqput_retryNext pp gp w1 of
               None \<Rightarrow> None
             | Some (oldnext, w2) \<Rightarrow>
                 if oldnext = 0 then Some (Inr w2) else runqput_retry e pp oldnext w2)
       else runqput_retry e pp gp w1)"
    by (auto simp: runqput_def w1_def next1_def fastrand_def Let_def)
  have room1: "runqtail (ps w1 pp) - runqhead (ps w1 pp) < len_runq"
    using room by (simp add: w1)
  show ?thesis
  proof (cases next1)
    case False
    let ?w' = "upd_p pp (\<lambda>x. x\<lparr>runq := (runq x)(unat (runqtail (ps w1 pp) mod len_runq) := gp),
                              runqtail := runqtail (ps w1 pp) + 1\<rparr>) w1"
    have "runqput e pp gp next w = Some (Inr ?w')"
      using False room1 by (simp add: put runqput_retry_fast)
    moreover have "ring (ps ?w' pp) = ring (ps w pp) @ [gp]"
      using ring_put [of "ps w pp" gp] room by (simp add: w1)
    moreover have "runnext (ps ?w' pp) = runnext (ps w pp)"
      by (simp add: w1)
    moreover have "gs ?w' = gs w" "sched ?w' = sched w" "curm ?w' = curm w" "curg ?w' = curg w"
        "events ?w' = events w"
      by (simp_all add: w1 upd_p_def)
    ultimately show ?thesis
      using False unfolding next1_def by (intro exI [of _ ?w']) (simp only: if_False simp_thms)
  next
    case True
    let ?w2 = "upd_p pp (\<lambda>x. x\<lparr>runnext := gp\<rparr>) w1"
    let ?old = "runnext (ps w pp)"
    have frame2: "gs ?w2 = gs w" "sched ?w2 = sched w" "curm ?w2 = curm w" "curg ?w2 = curg w"
        "events ?w2 = events w"
      by (simp_all add: w1 upd_p_def)
    show ?thesis
    proof (cases "?old = 0")
      case z: True
      have "runqput e pp gp next w = Some (Inr ?w2)"
        using True z by (simp add: put runqput_retryNext_eq w1)
      moreover have "ring (ps ?w2 pp) = ring (ps w pp) @ (if ?old = 0 then [] else [?old])"
        using z by (simp add: w1)
      moreover have "runnext (ps ?w2 pp) = gp"
        by simp
      ultimately show ?thesis
        using True frame2 unfolding next1_def
        by (intro exI [of _ ?w2]) (simp only: if_True simp_thms)
    next
      case nz: False
      let ?w' = "upd_p pp (\<lambda>x. x\<lparr>runq := (runq x)(unat (runqtail (ps ?w2 pp) mod len_runq) := ?old),
                              runqtail := runqtail (ps ?w2 pp) + 1\<rparr>) ?w2"
      have room2: "runqtail (ps ?w2 pp) - runqhead (ps ?w2 pp) < len_runq"
        using room by (simp add: w1)
      have "runqput e pp gp next w = runqput_retry e pp ?old ?w2"
        using True nz by (simp add: put runqput_retryNext_eq w1)
      also have "\<dots> = Some (Inr ?w')"
        using room2 by (rule runqput_retry_fast)
      finally have "runqput e pp gp next w = Some (Inr ?w')" .
      moreover have "ring (ps ?w' pp) = ring (ps w pp) @ (if ?old = 0 then [] else [?old])"
        using ring_put [of "(ps w pp)\<lparr>runnext := gp\<rparr>" ?old] room nz by (simp add: w1)
      moreover have "runnext (ps ?w' pp) = gp"
        by simp
      moreover have "gs ?w' = gs w" "sched ?w' = sched w" "curm ?w' = curm w" "curg ?w' = curg w"
        "events ?w' = events w"
        by (simp_all add: w1 upd_p_def)
      ultimately show ?thesis
        using True unfolding next1_def
        by (intro exI [of _ ?w']) (simp only: if_True simp_thms)
    qed
  qed
qed

text \<open>
  What \<open>runqput\<close> leaves alone on all its paths: the M, the current G, the events, the counts
  of idle P's and spinning M's, and of every G the status, the function it starts and its
  preemption request.
\<close>

definition calm :: "world \<Rightarrow> world \<Rightarrow> bool" where
  "calm w w' \<longleftrightarrow>
     curm w' = curm w \<and> curg w' = curg w \<and> mainStarted w' = mainStarted w \<and>
     events w' = events w \<and>
     npidle (sched w') = npidle (sched w) \<and> nmspinning (sched w') = nmspinning (sched w) \<and>
     (\<forall>g. atomicstatus (gs w' g) = atomicstatus (gs w g) \<and>
          startpc (gs w' g) = startpc (gs w g) \<and> preempt (gs w' g) = preempt (gs w g))"

lemma calm_refl: "calm w w"
  by (simp add: calm_def)

lemma calm_trans: "calm w w1 \<Longrightarrow> calm w1 w2 \<Longrightarrow> calm w w2"
  by (simp add: calm_def)

lemma calm_upd_p: "calm w (upd_p pp f w)"
  by (simp add: calm_def upd_p_def)

lemma calm_fastrand: "calm w (snd (fastrand w))"
  by (simp add: calm_def fastrand_def)

lemma calm_lock: "calm w (upd_sched (\<lambda>s. s\<lparr>lock_held := b\<rparr>) w)"
  by (simp add: calm_def upd_sched_def)

lemma calm_link: "calm w (upd_g gp (\<lambda>x. x\<lparr>schedlink := v\<rparr>) w)"
  by (simp add: calm_def upd_g_def)

lemma calm_link_batch: "calm w (link_batch b w)"
proof (induction b w rule: link_batch.induct)
  case (1 a b rest w)
  from calm_link "1.IH" show ?case
    by (simp only: link_batch.simps) (rule calm_trans)
qed (simp_all add: calm_refl)

lemma calm_globrunqputbatch: "calm w (globrunqputbatch a b n w)"
  by (simp add: calm_def globrunqputbatch_def Let_def upd_g_def upd_sched_def)

lemma calm_shuffle_batch:
  "shuffle_batch k i b w = Inr (b', w') \<Longrightarrow> calm w w'"
proof (induction k arbitrary: i b w)
  case 0
  then show ?case by (simp add: calm_refl)
next
  case (Suc k)
  obtain j w1 where f: "fastrandn (of_nat i + 1) w = (j, w1)"
    by (cases "fastrandn (of_nat i + 1) w")
  then have w1: "w1 = snd (fastrand w)"
    using snd_fastrandn [of "of_nat i + 1" w] by simp
  from Suc.prems f obtain b1 where
    "swap_batch b i (unat j) = Inr b1" and "shuffle_batch k (Suc i) b1 w1 = Inr (b', w')"
    by (auto simp: Let_def split: sum.splits)
  from Suc.IH [OF this(2)] calm_fastrand [of w] show ?case
    unfolding w1 by (rule calm_trans [rotated])
qed

lemma calm_runqputslow:
  assumes "runqputslow e pp gp h t w = Some (Inr (d, w'))"
  shows "calm w w'"
proof -
  let ?n = "(t - h) div 2"
  let ?b0 = "map (\<lambda>i. runq (ps w pp) (unat ((h + of_nat i) mod len_runq))) [0..<unat ?n]"
  have n: "\<not> ?n \<noteq> len_runq div 2"
    using assms by (auto simp: runqputslow_def Let_def split: if_splits)
  obtain ok v where c: "cas (runqhead (ps w pp)) h (h + ?n) = (ok, v)"
    by (cases "cas (runqhead (ps w pp)) h (h + ?n)")
  let ?w1 = "upd_p pp (\<lambda>x. x\<lparr>runqhead := v\<rparr>) w"
  define sh where "sh = (if randomizeScheduler e then shuffle_batch (unat ?n) 1 (?b0 @ [gp]) ?w1
             else Inr (?b0 @ [gp], ?w1))"
  have unf: "runqputslow e pp gp h t w =
      (if \<not> ok then Some (Inr (False, ?w1))
       else case sh of
              Inl err \<Rightarrow> Some (Inl err)
            | Inr (batch, w2) \<Rightarrow>
                (case lock_sched (link_batch batch w2) of
                   None \<Rightarrow> None
                 | Some w4 \<Rightarrow> Some (Inr (True, unlock_sched
                      (globrunqputbatch (batch ! 0) (batch ! unat ?n) (?n + 1) w4)))))"
    unfolding runqputslow_def Let_def c sh_def using n by (simp only: if_False split_conv)
  have k1: "calm w ?w1"
    by (rule calm_upd_p)
  show ?thesis
  proof (cases ok)
    case False
    with assms have "w' = ?w1"
      by (simp add: unf)
    with k1 show ?thesis by simp
  next
    case True
    with assms obtain batch w2 w4 where
        sh: "sh = Inr (batch, w2)" and l: "lock_sched (link_batch batch w2) = Some w4"
      and w': "w' = unlock_sched (globrunqputbatch (batch ! 0) (batch ! unat ?n) (?n + 1) w4)"
      by (auto simp: unf split: sum.splits option.splits)
    have k2: "calm ?w1 w2"
      using sh unfolding sh_def
      by (auto split: if_splits intro: calm_shuffle_batch calm_refl)
    have w4: "w4 = upd_sched (\<lambda>s. s\<lparr>lock_held := True\<rparr>) (link_batch batch w2)"
      using l by (simp add: lock_sched_def split: if_splits)
    have "calm w2 w4"
      unfolding w4 using calm_link_batch calm_lock by (rule calm_trans)
    moreover have "calm w4 w'"
      unfolding w' unlock_sched_def using calm_globrunqputbatch calm_lock by (rule calm_trans)
    ultimately show ?thesis
      using k1 k2 by (blast intro: calm_trans)
  qed
qed

lemma calm_runqput_retry:
  assumes y: "runqput_retry e pp gp w = Some (Inr w')"
  shows "calm w w'"
proof -
  have "\<forall>w''. Inr w' = (Inr w'' :: error + world) \<longrightarrow> calm w w''"
  proof (rule runqput_retry.raw_induct [where P = "\<lambda>e pp gp w y.
            \<forall>w''. y = Inr w'' \<longrightarrow> calm w w''", OF _ y])
    fix f e pp gp w and y :: "error + world"
    assume IH: "\<And>e pp gp w y. f e pp gp w = Some y \<Longrightarrow> \<forall>w''. y = Inr w'' \<longrightarrow> calm w w''"
      and eq: "(let h = runqhead (ps w pp);
                    t = runqtail (ps w pp)
                in if t - h < len_runq
                   then Some (Inr (upd_p pp (\<lambda>x. x\<lparr>runq := (runq x)(unat (t mod len_runq) := gp),
                                           runqtail := t + 1\<rparr>) w))
                   else case runqputslow e pp gp h t w of
                          None \<Rightarrow> None
                        | Some (Inl err) \<Rightarrow> Some (Inl err)
                        | Some (Inr (done, w1)) \<Rightarrow>
                            if done then Some (Inr w1) else f e pp gp w1) = Some y"
    show "\<forall>w''. y = Inr w'' \<longrightarrow> calm w w''"
    proof (intro allI impI)
      fix w'' assume yw: "y = Inr w''"
      show "calm w w''"
      proof (cases "runqtail (ps w pp) - runqhead (ps w pp) < len_runq")
        case True
        with eq yw show ?thesis
          by (auto simp: Let_def calm_upd_p)
      next
        case False
        with eq obtain d w1 where
            slow: "runqputslow e pp gp (runqhead (ps w pp)) (runqtail (ps w pp)) w
                     = Some (Inr (d, w1))"
          and rest: "(if d then Some (Inr w1) else f e pp gp w1) = Some y"
          using yw by (auto simp: Let_def split: option.splits sum.splits)
        have k1: "calm w w1"
          using slow by (rule calm_runqputslow)
        show ?thesis
        proof (cases d)
          case True
          with rest yw k1 show ?thesis by simp
        next
          case nd: False
          with rest have "f e pp gp w1 = Some y"
            by simp
          from IH [OF this] yw have "calm w1 w''"
            by simp
          with k1 show ?thesis
            by (rule calm_trans)
        qed
      qed
    qed
  qed
  then show ?thesis by simp
qed

lemma calm_runqput:
  assumes "runqput e pp gp next w = Some (Inr w')"
  shows "calm w w'"
proof -
  define w1 where "w1 = (if randomizeScheduler e \<and> next then snd (fastrand w) else w)"
  define next1 where "next1 \<longleftrightarrow> next \<and> \<not> (randomizeScheduler e \<and> rand w 0 mod 2 = 0)"
  have k1: "calm w w1"
    by (simp add: w1_def calm_fastrand calm_refl)
  have put: "runqput e pp gp next w =
      (if next1
       then (if runnext (ps w1 pp) = 0 then Some (Inr (upd_p pp (\<lambda>x. x\<lparr>runnext := gp\<rparr>) w1))
             else runqput_retry e pp (runnext (ps w1 pp)) (upd_p pp (\<lambda>x. x\<lparr>runnext := gp\<rparr>) w1))
       else runqput_retry e pp gp w1)"
    by (auto simp: runqput_def w1_def next1_def fastrand_def Let_def runqput_retryNext_eq)
  have k2: "calm w (upd_p pp (\<lambda>x. x\<lparr>runnext := gp\<rparr>) w1)"
    using k1 calm_upd_p by (rule calm_trans)
  show ?thesis
    using assms k1 k2 unfolding put
    by (auto split: if_splits dest!: calm_runqput_retry intro: calm_trans)
qed

text \<open>
  The state that \<open>runqputslow\<close> relies on when it moves half of the ring of a P to the global
  queue: the global queue satisfies its invariant, with room for 129 more in \<open>runqsize\<close>,
  \<open>sched.lock\<close> is free, and the G's of the ring, of the runnext slot and of the global queue
  are distinct and not nil.
\<close>

definition runq_inv :: "puintptr \<Rightarrow> world \<Rightarrow> bool" where
  "runq_inv pp w \<longleftrightarrow>
     globq_inv w \<and> sint (runqsize (sched w)) + 129 < 2 ^ 31 \<and> \<not> lock_held (sched w) \<and>
     distinct (ring (ps w pp) @ globq w) \<and> 0 \<notin> set (ring (ps w pp)) \<and>
     runnext (ps w pp) \<notin> set (ring (ps w pp)) \<union> set (globq w)"

lemma globq_same:
  "gs w' = gs w \<Longrightarrow> sched w' = sched w \<Longrightarrow> globq w' = globq w \<and> globq_inv w' = globq_inv w"
  by (simp add: globq_def globq_inv_def)

lemma runqput_overflow:
  assumes full: "runqtail (ps w pp) - runqhead (ps w pp) = len_runq"
    and inv: "runq_inv pp w"
    and gp: "gp \<noteq> 0" "gp \<notin> set (ring (ps w pp)) \<union> set (globq w)"
  shows "\<exists>w' batch. runqput_retry e pp gp w = Some (Inr w')
          \<and> mset batch = mset (take 128 (ring (ps w pp)) @ [gp])
          \<and> (\<not> randomizeScheduler e \<longrightarrow> batch = take 128 (ring (ps w pp)) @ [gp])
          \<and> globq w' = globq w @ batch
          \<and> ring (ps w' pp) = drop 128 (ring (ps w pp))
          \<and> runnext (ps w' pp) = runnext (ps w pp)"
proof -
  let ?half = "take 128 (ring (ps w pp))"
  have sub: "set ?half \<subseteq> set (ring (ps w pp))"
    by (rule set_take_subset)
  have d: "distinct (ring (ps w pp))" "set (ring (ps w pp)) \<inter> set (globq w) = {}"
    using inv by (simp_all add: runq_inv_def)
  have dist: "distinct (?half @ [gp])"
    using d(1) gp(2) sub by auto
  have nz: "0 \<notin> set (?half @ [gp])"
    using inv gp(1) sub by (auto simp: runq_inv_def)
  have disj: "set (?half @ [gp]) \<inter> set (globq w) = {}"
    using d(2) gp(2) sub by auto
  from runqput_full [OF full _ _ refl dist nz disj, of e] inv
  show ?thesis
    unfolding runqput_false runq_inv_def by blast
qed

lemma runqput_spec:
  assumes ok: "runqtail (ps w pp) - runqhead (ps w pp) < len_runq \<or>
               (runqtail (ps w pp) - runqhead (ps w pp) = len_runq \<and> runq_inv pp w \<and>
                gp \<noteq> 0 \<and> gp \<notin> set (ring (ps w pp)) \<union> set (globq w))"
  shows "\<exists>w'. runqput e pp gp next w = Some (Inr w') \<and> calm w w' \<and>
           (if next \<and> \<not> (randomizeScheduler e \<and> rand w 0 mod 2 = 0)
            then runnext (ps w' pp) = gp \<and>
                 (if runnext (ps w pp) = 0
                  then ring (ps w' pp) = ring (ps w pp) \<and> globq w' = globq w
                  else if runqtail (ps w pp) - runqhead (ps w pp) < len_runq
                  then ring (ps w' pp) = ring (ps w pp) @ [runnext (ps w pp)] \<and>
                       globq w' = globq w
                  else ring (ps w' pp) = drop 128 (ring (ps w pp)) \<and>
                       (\<exists>batch. mset batch = mset (take 128 (ring (ps w pp)) @ [runnext (ps w pp)]) \<and>
                          (\<not> randomizeScheduler e \<longrightarrow>
                             batch = take 128 (ring (ps w pp)) @ [runnext (ps w pp)]) \<and>
                          globq w' = globq w @ batch))
            else runnext (ps w' pp) = runnext (ps w pp) \<and>
                 (if runqtail (ps w pp) - runqhead (ps w pp) < len_runq
                  then ring (ps w' pp) = ring (ps w pp) @ [gp] \<and> globq w' = globq w
                  else ring (ps w' pp) = drop 128 (ring (ps w pp)) \<and>
                       (\<exists>batch. mset batch = mset (take 128 (ring (ps w pp)) @ [gp]) \<and>
                          (\<not> randomizeScheduler e \<longrightarrow> batch = take 128 (ring (ps w pp)) @ [gp]) \<and>
                          globq w' = globq w @ batch)))"
proof (cases "runqtail (ps w pp) - runqhead (ps w pp) < len_runq")
  case True
  from runqput_room [OF True, of e gp "next"] obtain w' where
      r: "runqput e pp gp next w = Some (Inr w')" "gs w' = gs w" "sched w' = sched w"
    and q: "if next \<and> \<not> (randomizeScheduler e \<and> rand w 0 mod 2 = 0)
            then runnext (ps w' pp) = gp \<and>
                 ring (ps w' pp) = ring (ps w pp) @
                    (if runnext (ps w pp) = 0 then [] else [runnext (ps w pp)])
            else runnext (ps w' pp) = runnext (ps w pp) \<and>
                 ring (ps w' pp) = ring (ps w pp) @ [gp]"
    by blast
  have "globq w' = globq w"
    using globq_same [OF r(2,3)] by simp
  moreover have "calm w w'"
    using r(1) by (rule calm_runqput)
  ultimately show ?thesis
    using r(1) q True by (intro exI [of _ w']) (auto split: if_splits)
next
  case False
  with ok have full: "runqtail (ps w pp) - runqhead (ps w pp) = len_runq"
    and inv: "runq_inv pp w" and gp: "gp \<noteq> 0" "gp \<notin> set (ring (ps w pp)) \<union> set (globq w)"
    by simp_all
  define w1 where "w1 = (if randomizeScheduler e \<and> next then snd (fastrand w) else w)"
  define next1 where "next1 \<longleftrightarrow> next \<and> \<not> (randomizeScheduler e \<and> rand w 0 mod 2 = 0)"
  have w1: "ps w1 = ps w" "gs w1 = gs w" "sched w1 = sched w"
    by (simp_all add: w1_def)
  have g1: "globq w1 = globq w" "globq_inv w1 = globq_inv w"
    using globq_same [OF w1(2,3)] by simp_all
  have put: "runqput e pp gp next w =
      (if next1
       then (if runnext (ps w1 pp) = 0 then Some (Inr (upd_p pp (\<lambda>x. x\<lparr>runnext := gp\<rparr>) w1))
             else runqput_retry e pp (runnext (ps w1 pp)) (upd_p pp (\<lambda>x. x\<lparr>runnext := gp\<rparr>) w1))
       else runqput_retry e pp gp w1)"
    by (auto simp: runqput_def w1_def next1_def fastrand_def Let_def runqput_retryNext_eq)
  show ?thesis
  proof (cases next1)
    case nt: False
    have full1: "runqtail (ps w1 pp) - runqhead (ps w1 pp) = len_runq"
      using full by (simp add: w1)
    have inv1: "runq_inv pp w1"
      using inv by (simp add: runq_inv_def w1 g1)
    have gp1: "gp \<notin> set (ring (ps w1 pp)) \<union> set (globq w1)"
      using gp(2) by (simp add: w1 g1)
    from runqput_overflow [OF full1 inv1 gp(1) gp1, of e] obtain w' batch where
        r: "runqput_retry e pp gp w1 = Some (Inr w')"
        "mset batch = mset (take 128 (ring (ps w pp)) @ [gp])"
        "\<not> randomizeScheduler e \<longrightarrow> batch = take 128 (ring (ps w pp)) @ [gp]"
        "globq w' = globq w @ batch"
        "ring (ps w' pp) = drop 128 (ring (ps w pp))"
        "runnext (ps w' pp) = runnext (ps w pp)"
      by (auto simp: w1 g1)
    have p: "runqput e pp gp next w = Some (Inr w')"
      using nt r(1) by (simp add: put)
    then have "calm w w'"
      by (rule calm_runqput)
    with p r(2-6) nt False show ?thesis
      unfolding next1_def by (intro exI [of _ w']) (simp only: if_False, blast)
  next
    case tk: True
    let ?old = "runnext (ps w pp)"
    let ?w2 = "upd_p pp (\<lambda>x. x\<lparr>runnext := gp\<rparr>) w1"
    have w2: "gs ?w2 = gs w" "sched ?w2 = sched w" "ring (ps ?w2 pp) = ring (ps w pp)"
      "runnext (ps ?w2 pp) = gp"
      by (simp_all add: w1)
    have g2: "globq ?w2 = globq w" "globq_inv ?w2 = globq_inv w"
      using globq_same [OF w2(1,2)] by simp_all
    show ?thesis
    proof (cases "?old = 0")
      case True
      have p: "runqput e pp gp next w = Some (Inr ?w2)"
        using tk True by (simp add: put w1)
      then have "calm w ?w2"
        by (rule calm_runqput)
      with p True tk w2 g2 show ?thesis
        unfolding next1_def by (intro exI [of _ ?w2]) (simp only: if_True simp_thms)
    next
      case nz: False
      have full2: "runqtail (ps ?w2 pp) - runqhead (ps ?w2 pp) = len_runq"
        using full by (simp add: w1)
      have old: "?old \<notin> set (ring (ps w pp)) \<union> set (globq w)"
        using inv by (simp add: runq_inv_def)
      have inv2: "runq_inv pp ?w2"
        using inv gp(2) unfolding runq_inv_def g2 w2 by simp
      have old2: "?old \<notin> set (ring (ps ?w2 pp)) \<union> set (globq ?w2)"
        unfolding w2 g2 by (rule old)
      from runqput_overflow [OF full2 inv2 nz old2, of e] obtain w' batch where
          r: "runqput_retry e pp ?old ?w2 = Some (Inr w')"
          "mset batch = mset (take 128 (ring (ps w pp)) @ [?old])"
          "\<not> randomizeScheduler e \<longrightarrow> batch = take 128 (ring (ps w pp)) @ [?old]"
          "globq w' = globq w @ batch"
          "ring (ps w' pp) = drop 128 (ring (ps w pp))"
          "runnext (ps w' pp) = gp"
        by (auto simp only: w2 g2)
      have p: "runqput e pp gp next w = Some (Inr w')"
        using tk nz r(1) by (simp add: put w1)
      then have "calm w w'"
        by (rule calm_runqput)
      with p r(2-6) tk nz False show ?thesis
        unfolding next1_def by (intro exI [of _ w']) (simp only: if_True if_False simp_thms, blast)
    qed
  qed
qed

section \<open>Readying a waiting G\<close>

text \<open>
  A world in which the G at 7 is waiting, the G at 8 is runnable, the G at 9 is waiting with
  its scan bit set, one P is idle and no M is spinning.
\<close>

definition wit_ready :: world where
  "wit_ready = world_zero\<lparr>sched := sched_zero\<lparr>npidle := 1\<rparr>,
     gs := (\<lambda>_. g_zero)(7 := g_zero\<lparr>atomicstatus := (Gwaiting, False)\<rparr>,
                          8 := g_zero\<lparr>atomicstatus := (Grunnable, False)\<rparr>,
                          9 := g_zero\<lparr>atomicstatus := (Gwaiting, True)\<rparr>)\<rparr>"

text \<open>The world with the full local queue of P 2, in which the G at 7 is waiting.\<close>

definition wit_ready_full :: world where
  "wit_ready_full = wit_full\<lparr>gs := (\<lambda>_. g_zero)(7 := g_zero\<lparr>atomicstatus := (Gwaiting, False)\<rparr>)\<rparr>"

lemma casgstatus_loop_ok:
  "atomicstatus (gs w gp) = oldval \<Longrightarrow>
   casgstatus_loop gp oldval newval w =
     Some (Inr (upd_g gp (\<lambda>x. x\<lparr>atomicstatus := newval\<rparr>) w))"
  by (subst casgstatus_loop.simps) (simp add: cas_def)

lemma upd_g_same: "upd_g gp (\<lambda>x. x\<lparr>atomicstatus := atomicstatus (gs w gp)\<rparr>) w = w"
  by (simp add: upd_g_def)

lemma casgstatus_loop_forever:
  assumes "atomicstatus (gs w gp) \<noteq> oldval"
    and "\<not> (oldval = (Gwaiting, False) \<and> atomicstatus (gs w gp) = (Grunnable, False))"
  shows "casgstatus_loop gp oldval newval w = None"
proof (rule ccontr)
  assume "casgstatus_loop gp oldval newval w \<noteq> None"
  then obtain y where y: "casgstatus_loop gp oldval newval w = Some y"
    by auto
  have "atomicstatus (gs w gp) = oldval \<or>
        (oldval = (Gwaiting, False) \<and> atomicstatus (gs w gp) = (Grunnable, False))"
  proof (rule casgstatus_loop.raw_induct [where P = "\<lambda>gp oldval newval w y.
            atomicstatus (gs w gp) = oldval \<or>
            (oldval = (Gwaiting, False) \<and> atomicstatus (gs w gp) = (Grunnable, False))", OF _ y])
    fix f gp oldval newval w and y :: "error + world"
    assume IH: "\<And>gp oldval newval w y. f gp oldval newval w = Some y \<Longrightarrow>
                  atomicstatus (gs w gp) = oldval \<or>
                  (oldval = (Gwaiting, False) \<and> atomicstatus (gs w gp) = (Grunnable, False))"
      and eq: "(let (ok, v) = cas (atomicstatus (gs w gp)) oldval newval;
                    w1 = upd_g gp (\<lambda>x. x\<lparr>atomicstatus := v\<rparr>) w
                in if ok then Some (Inr w1)
                   else if oldval = (Gwaiting, False) \<and> atomicstatus (gs w1 gp) = (Grunnable, False)
                   then Some (Inl (Throw ''casgstatus: waiting for Gwaiting but is Grunnable''))
                   else f gp oldval newval w1) = Some y"
    show "atomicstatus (gs w gp) = oldval \<or>
          (oldval = (Gwaiting, False) \<and> atomicstatus (gs w gp) = (Grunnable, False))"
    proof (rule ccontr)
      assume n: "\<not> (atomicstatus (gs w gp) = oldval \<or>
          (oldval = (Gwaiting, False) \<and> atomicstatus (gs w gp) = (Grunnable, False)))"
      have same: "upd_g gp (\<lambda>x. x\<lparr>atomicstatus := atomicstatus (gs w gp)\<rparr>) w = w"
        by (rule upd_g_same)
      from n have ne: "atomicstatus (gs w gp) \<noteq> oldval"
        and nt: "\<not> (oldval = (Gwaiting, False) \<and> atomicstatus (gs w gp) = (Grunnable, False))"
        by simp_all
      from eq ne have "(if oldval = (Gwaiting, False) \<and> atomicstatus (gs w gp) = (Grunnable, False)
                   then Some (Inl (Throw ''casgstatus: waiting for Gwaiting but is Grunnable''))
                   else f gp oldval newval w) = Some y"
        by (simp add: cas_def same cong: if_cong)
      with nt have "f gp oldval newval w = Some y"
        by (simp only: if_False)
      from IH [OF this] n show False
        by simp
    qed
  qed
  with assms show False
    by simp
qed

lemma ready_bad_status:
  "fst (atomicstatus (gs w gp)) \<noteq> Gwaiting \<Longrightarrow>
   ready e gp next w = Some (Inl (Throw ''bad g->status in ready''))"
  by (simp add: ready_def readgstatus_def clear_Gscan_def Let_def)

lemma ready_scan:
  assumes "atomicstatus (gs w gp) = (Gwaiting, True)"
  shows "ready e gp next w = None"
proof -
  have "casgstatus_loop gp (Gwaiting, False) (Grunnable, False) (locks_add 1 w) = None"
    using assms by (intro casgstatus_loop_forever) (simp_all add: locks_add_def)
  then show ?thesis
    using assms by (simp add: ready_def readgstatus_def clear_Gscan_def Let_def casgstatus_def)
qed

lemma globq_status:
  "globq (upd_g gp (\<lambda>x. x\<lparr>atomicstatus := v\<rparr>) w) = globq w"
  "globq_inv (upd_g gp (\<lambda>x. x\<lparr>atomicstatus := v\<rparr>) w) = globq_inv w"
proof -
  let ?w' = "upd_g gp (\<lambda>x. x\<lparr>atomicstatus := v\<rparr>) w"
  have s: "schedlink (gs ?w' x) = schedlink (gs w x)" for x
    by simp
  show q: "globq ?w' = globq w"
    by (rule globq_frame(1)) (simp_all add: s)
  have "globq_inv w \<Longrightarrow> globq_inv ?w'"
    by (rule globq_frame(2) [of ?w' w]) (simp_all add: s)
  moreover have "globq_inv ?w' \<Longrightarrow> globq_inv w"
    by (rule globq_frame(2) [of w ?w']) (simp_all add: s)
  ultimately show "globq_inv ?w' = globq_inv w"
    by blast
qed

lemma globq_locks_add: "globq (locks_add d w) = globq w" "globq_inv (locks_add d w) = globq_inv w"
  by (simp_all add: globq_def globq_inv_def locks_add_def)

lemma globq_wakep: "globq (wakep w) = globq w"
  by (simp add: globq_def wakep_def cas_def Let_def emit_def upd_sched_def)

lemma globq_locks_release: "globq (locks_release e w) = globq w"
proof -
  have s: "schedlink (gs (locks_release e w) x) = schedlink (gs w x)" for x
    by (simp add: locks_release_def locks_add_def Let_def upd_g_def)
  show ?thesis
    by (rule globq_frame(1)) (simp_all add: s, simp_all add: locks_release_def locks_add_def Let_def upd_g_def)
qed

lemma locks_release_fields:
  "ps (locks_release e w) = ps w" "sched (locks_release e w) = sched w"
  "events (locks_release e w) = events w"
  "locks (curm (locks_release e w)) = locks (curm w) - 1"
  "atomicstatus (gs (locks_release e w) g) = atomicstatus (gs w g)"
  "startpc (gs (locks_release e w) g) = startpc (gs w g)"
  by (simp_all add: locks_release_def locks_add_def upd_g_def Let_def)

lemma ready_put:
  assumes st: "atomicstatus (gs w gp) = (Gwaiting, False)"
    and ok: "runqtail (ps w (m_p (curm w))) - runqhead (ps w (m_p (curm w))) < len_runq \<or>
             (runqtail (ps w (m_p (curm w))) - runqhead (ps w (m_p (curm w))) = len_runq \<and>
              runq_inv (m_p (curm w)) w \<and> gp \<noteq> 0 \<and>
              gp \<notin> set (ring (ps w (m_p (curm w)))) \<union> set (globq w))"
  shows "\<exists>w'. ready e gp next w = Some (Inr w') \<and>
           atomicstatus (gs w' gp) = (Grunnable, False) \<and>
           (if next \<and> \<not> (randomizeScheduler e \<and> rand w 0 mod 2 = 0)
            then runnext (ps w' (m_p (curm w))) = gp \<and>
                 (if runnext (ps w (m_p (curm w))) = 0
                  then ring (ps w' (m_p (curm w))) = ring (ps w (m_p (curm w))) \<and>
                       globq w' = globq w
                  else if runqtail (ps w (m_p (curm w))) - runqhead (ps w (m_p (curm w))) < len_runq
                  then ring (ps w' (m_p (curm w))) =
                         ring (ps w (m_p (curm w))) @ [runnext (ps w (m_p (curm w)))] \<and>
                       globq w' = globq w
                  else ring (ps w' (m_p (curm w))) = drop 128 (ring (ps w (m_p (curm w)))) \<and>
                       (\<exists>batch. mset batch = mset (take 128 (ring (ps w (m_p (curm w))))
                                                     @ [runnext (ps w (m_p (curm w)))]) \<and>
                          (\<not> randomizeScheduler e \<longrightarrow>
                             batch = take 128 (ring (ps w (m_p (curm w))))
                                       @ [runnext (ps w (m_p (curm w)))]) \<and>
                          globq w' = globq w @ batch))
            else runnext (ps w' (m_p (curm w))) = runnext (ps w (m_p (curm w))) \<and>
                 (if runqtail (ps w (m_p (curm w))) - runqhead (ps w (m_p (curm w))) < len_runq
                  then ring (ps w' (m_p (curm w))) = ring (ps w (m_p (curm w))) @ [gp] \<and>
                       globq w' = globq w
                  else ring (ps w' (m_p (curm w))) = drop 128 (ring (ps w (m_p (curm w)))) \<and>
                       (\<exists>batch. mset batch = mset (take 128 (ring (ps w (m_p (curm w)))) @ [gp]) \<and>
                          (\<not> randomizeScheduler e \<longrightarrow>
                             batch = take 128 (ring (ps w (m_p (curm w)))) @ [gp]) \<and>
                          globq w' = globq w @ batch))) \<and>
           (if npidle (sched w) \<noteq> 0 \<and> nmspinning (sched w) = 0
            then events w' = events w @ [Startm 0 True] \<and> nmspinning (sched w') = 1
            else events w' = events w \<and> nmspinning (sched w') = nmspinning (sched w)) \<and>
           locks (curm w') = locks (curm w)"
proof -
  let ?pp = "m_p (curm w)"
  define w2 where "w2 = upd_g gp (\<lambda>x. x\<lparr>atomicstatus := (Grunnable, False)\<rparr>) (locks_add 1 w)"
  have w2: "ps w2 = ps w" "sched w2 = sched w" "m_p (curm w2) = ?pp" "events w2 = events w"
      "rand w2 = rand w" "locks (curm w2) = locks (curm w) + 1"
      "atomicstatus (gs w2 gp) = (Grunnable, False)"
    by (simp_all add: w2_def locks_add_def upd_g_def)
  have g2: "globq w2 = globq w" "globq_inv w2 = globq_inv w"
    by (simp_all add: w2_def globq_status globq_locks_add)
  have cas: "casgstatus gp (Gwaiting, False) (Grunnable, False) (locks_add 1 w) = Some (Inr w2)"
    using st by (simp add: casgstatus_def casgstatus_loop_ok locks_add_def w2_def)
  have ok2: "runqtail (ps w2 ?pp) - runqhead (ps w2 ?pp) < len_runq \<or>
             (runqtail (ps w2 ?pp) - runqhead (ps w2 ?pp) = len_runq \<and>
              runq_inv ?pp w2 \<and> gp \<noteq> 0 \<and> gp \<notin> set (ring (ps w2 ?pp)) \<union> set (globq w2))"
    using ok unfolding runq_inv_def w2 g2 .
  from runqput_spec [OF ok2, of e "next"] obtain w3 where
      put: "runqput e ?pp gp next w2 = Some (Inr w3)" and c: "calm w2 w3"
    and q: "if next \<and> \<not> (randomizeScheduler e \<and> rand w 0 mod 2 = 0)
            then runnext (ps w3 ?pp) = gp \<and>
                 (if runnext (ps w ?pp) = 0
                  then ring (ps w3 ?pp) = ring (ps w ?pp) \<and> globq w3 = globq w
                  else if runqtail (ps w ?pp) - runqhead (ps w ?pp) < len_runq
                  then ring (ps w3 ?pp) = ring (ps w ?pp) @ [runnext (ps w ?pp)] \<and>
                       globq w3 = globq w
                  else ring (ps w3 ?pp) = drop 128 (ring (ps w ?pp)) \<and>
                       (\<exists>batch. mset batch = mset (take 128 (ring (ps w ?pp)) @ [runnext (ps w ?pp)]) \<and>
                          (\<not> randomizeScheduler e \<longrightarrow>
                             batch = take 128 (ring (ps w ?pp)) @ [runnext (ps w ?pp)]) \<and>
                          globq w3 = globq w @ batch))
            else runnext (ps w3 ?pp) = runnext (ps w ?pp) \<and>
                 (if runqtail (ps w ?pp) - runqhead (ps w ?pp) < len_runq
                  then ring (ps w3 ?pp) = ring (ps w ?pp) @ [gp] \<and> globq w3 = globq w
                  else ring (ps w3 ?pp) = drop 128 (ring (ps w ?pp)) \<and>
                       (\<exists>batch. mset batch = mset (take 128 (ring (ps w ?pp)) @ [gp]) \<and>
                          (\<not> randomizeScheduler e \<longrightarrow> batch = take 128 (ring (ps w ?pp)) @ [gp]) \<and>
                          globq w3 = globq w @ batch))"
    unfolding w2 g2 by blast
  have c3: "curm w3 = curm w2" "events w3 = events w" "npidle (sched w3) = npidle (sched w)"
    "nmspinning (sched w3) = nmspinning (sched w)" "atomicstatus (gs w3 gp) = (Grunnable, False)"
    using c by (simp_all add: calm_def w2)
  define w4 where "w4 = (if npidle (sched w3) \<noteq> 0 \<and> nmspinning (sched w3) = 0
                                then wakep w3 else w3)"
  have r: "ready e gp next w = Some (Inr (locks_release e w4))"
    using st by (simp add: ready_def readgstatus_def clear_Gscan_def Let_def cas w2 put w4_def)
  have w4: "ps w4 = ps w3" "gs w4 = gs w3" "curm w4 = curm w3" "globq w4 = globq w3"
    by (simp_all add: w4_def globq_wakep) (simp_all add: wakep_def cas_def upd_sched_def emit_def Let_def)
  have wake: "if npidle (sched w) \<noteq> 0 \<and> nmspinning (sched w) = 0
            then events w4 = events w @ [Startm 0 True] \<and> nmspinning (sched w4) = 1
            else events w4 = events w \<and> nmspinning (sched w4) = nmspinning (sched w)"
    by (simp add: w4_def wakep_def cas_def emit_def upd_sched_def c3)
  have rel: "ps (locks_release e w4) = ps w3" "sched (locks_release e w4) = sched w4"
      "events (locks_release e w4) = events w4"
      "locks (curm (locks_release e w4)) = locks (curm w)"
      "atomicstatus (gs (locks_release e w4) gp) = (Grunnable, False)"
      "globq (locks_release e w4) = globq w3"
    by (simp_all add: globq_locks_release locks_release_fields w4 c3 w2)
  show ?thesis
    using q wake unfolding r
    by (intro exI [of _ "locks_release e w4"]) (simp only: rel option.inject sum.inject simp_thms)
qed

lemma wit_ready_simps:
  "atomicstatus (gs wit_ready 7) = (Gwaiting, False)"
  "atomicstatus (gs wit_ready 8) = (Grunnable, False)"
  "atomicstatus (gs wit_ready 9) = (Gwaiting, True)"
  "m_p (curm wit_ready) = 2" "ps wit_ready 2 = p_zero" "events wit_ready = []"
  "npidle (sched wit_ready) = 1" "nmspinning (sched wit_ready) = 0" "rand wit_ready 0 = 0"
  by (simp_all add: wit_ready_def world_zero_def sched_zero_def)

lemma ring_p_zero: "ring p_zero = []" "runqtail p_zero - runqhead p_zero < len_runq"
  "runnext p_zero = 0"
  by (simp_all add: ring_def p_zero_def)

lemma wit_full_ring: "ring (ps wit_full 2) = map (\<lambda>i. 1000 + i) [0..<256]"
proof -
  have "ring (ps wit_full 2) =
      map (\<lambda>i. runq (ps wit_full 2) (unat ((runqhead (ps wit_full 2) + of_nat i) mod len_runq)))
          [0..<256]"
    by (simp add: ring_def wit_full_simps)
  also have "\<dots> = map (\<lambda>i. 1000 + i) [0..<256]"
  proof (rule map_cong [OF refl])
    fix i :: nat assume "i \<in> set [0..<256]"
    then have i: "i < 256" by simp
    have "unat (((0 :: 32 word) + of_nat i) mod len_runq) = (unat (0 :: 32 word) + i) mod 256"
      by (rule ring_index)
    also have "\<dots> = i"
      using i by simp
    finally show "runq (ps wit_full 2) (unat ((runqhead (ps wit_full 2) + of_nat i) mod len_runq))
        = 1000 + i"
      by (simp only: wit_full_simps)
  qed
  finally show ?thesis .
qed

lemma wit_ready_full_simps:
  "atomicstatus (gs wit_ready_full 7) = (Gwaiting, False)" "m_p (curm wit_ready_full) = 2"
  "ps wit_ready_full = ps wit_full" "globq wit_ready_full = []" "globq_inv wit_ready_full"
  "sched wit_ready_full = sched_zero" "events wit_ready_full = []"
  by (simp_all add: wit_ready_full_def wit_full_def world_zero_def globq_def globq_inv_def
        sched_zero_def)

lemma wit_ready_full_ok:
  "runqtail (ps wit_ready_full 2) - runqhead (ps wit_ready_full 2) = len_runq"
  "\<not> runqtail (ps wit_ready_full 2) - runqhead (ps wit_ready_full 2) < len_runq"
  "runq_inv 2 wit_ready_full"
  "(7 :: nat) \<notin> set (ring (ps wit_ready_full 2)) \<union> set (globq wit_ready_full)"
proof -
  show "runqtail (ps wit_ready_full 2) - runqhead (ps wit_ready_full 2) = len_runq"
    by (simp only: wit_ready_full_simps wit_full_simps) simp
  then show "\<not> runqtail (ps wit_ready_full 2) - runqhead (ps wit_ready_full 2) < len_runq"
    by (simp only:)
  have d: "distinct (map (\<lambda>i. 1000 + i) [0..<256 :: nat])"
    by (simp add: distinct_map inj_on_def)
  show "runq_inv 2 wit_ready_full"
    unfolding runq_inv_def wit_ready_full_simps wit_full_ring wit_full_simps
    using d by (auto simp: sched_zero_def wit_ready_full_simps)
  show "(7 :: nat) \<notin> set (ring (ps wit_ready_full 2)) \<union> set (globq wit_ready_full)"
    unfolding wit_ready_full_simps wit_full_ring by auto
qed

text \<open>
  C6 (as written) fails in a race-detector build: \<open>runqput\<close> clears \<open>next\<close> when
  \<open>randomizeScheduler\<close> holds and \<open>fastrand() % 2 = 0\<close>, and then \<open>ready(g, _, true)\<close> puts the
  G at the tail of the ring and leaves the runnext slot as it was.
\<close>

theorem ready_race_counterexample:
  "case ready env_race 7 True wit_ready of
     Some (Inr w') \<Rightarrow> runnext (ps w' 2) = 0 \<and> ring (ps w' 2) = [7]
   | _ \<Rightarrow> False"
proof -
  have room: "runqtail (ps wit_ready (m_p (curm wit_ready)))
                - runqhead (ps wit_ready (m_p (curm wit_ready))) < len_runq"
    by (simp add: wit_ready_simps ring_p_zero)
  have race: "randomizeScheduler env_race"
    by (simp add: randomizeScheduler_def env_race_def)
  from ready_put [OF wit_ready_simps(1) disjI1 [OF room], of env_race True] obtain w' where
      "ready env_race 7 True wit_ready = Some (Inr w')"
      "runnext (ps w' 2) = 0" "ring (ps w' 2) = [7]"
    by (auto simp: wit_ready_simps ring_p_zero race)
  then show ?thesis
    by simp
qed

text \<open>
  C6 (as amended): \<open>ready\<close> throws unless the status of the G, the scan bit ignored, is
  waiting; with the scan bit set its \<open>casgstatus\<close> does not get through (nobody else
  clearing the bit, it never returns); otherwise the G becomes runnable and \<open>runqput\<close> puts
  it on the M's current P. When \<open>next\<close> is set and \<open>runqput\<close> does not clear it
  (\<open>randomizeScheduler\<close> and an even \<open>fastrand()\<close>), the G goes into the runnext slot and the
  G that was there, if any, is the one to go to the ring; otherwise the G itself goes to the
  ring. A G that goes to the ring is put at its tail when the ring has room; when the ring
  is full (the state being in order for \<open>runqputslow\<close>) it goes to the end of the global
  queue in one batch with the first half of the ring, which keeps its other half. \<open>wakep\<close>
  runs (\<open>nmspinning\<close> goes from 0 to 1 and \<open>startm(nil, true)\<close> is called) exactly when
  \<open>npidle\<close> is not zero and \<open>nmspinning\<close> is zero.
\<close>

theorem ready_spec:
  "(fst (atomicstatus (gs w gp)) \<noteq> Gwaiting \<longrightarrow>
      ready e gp next w = Some (Inl (Throw ''bad g->status in ready''))) \<and>
   (atomicstatus (gs w gp) = (Gwaiting, True) \<longrightarrow> ready e gp next w = None) \<and>
   (atomicstatus (gs w gp) = (Gwaiting, False) \<and>
    (runqtail (ps w (m_p (curm w))) - runqhead (ps w (m_p (curm w))) < len_runq \<or>
     (runqtail (ps w (m_p (curm w))) - runqhead (ps w (m_p (curm w))) = len_runq \<and>
      runq_inv (m_p (curm w)) w \<and> gp \<noteq> 0 \<and>
      gp \<notin> set (ring (ps w (m_p (curm w)))) \<union> set (globq w))) \<longrightarrow>
      (\<exists>w'. ready e gp next w = Some (Inr w') \<and>
           atomicstatus (gs w' gp) = (Grunnable, False) \<and>
           (if next \<and> \<not> (randomizeScheduler e \<and> rand w 0 mod 2 = 0)
            then runnext (ps w' (m_p (curm w))) = gp \<and>
                 (if runnext (ps w (m_p (curm w))) = 0
                  then ring (ps w' (m_p (curm w))) = ring (ps w (m_p (curm w))) \<and>
                       globq w' = globq w
                  else if runqtail (ps w (m_p (curm w))) - runqhead (ps w (m_p (curm w))) < len_runq
                  then ring (ps w' (m_p (curm w))) =
                         ring (ps w (m_p (curm w))) @ [runnext (ps w (m_p (curm w)))] \<and>
                       globq w' = globq w
                  else ring (ps w' (m_p (curm w))) = drop 128 (ring (ps w (m_p (curm w)))) \<and>
                       (\<exists>batch. mset batch = mset (take 128 (ring (ps w (m_p (curm w))))
                                                     @ [runnext (ps w (m_p (curm w)))]) \<and>
                          (\<not> randomizeScheduler e \<longrightarrow>
                             batch = take 128 (ring (ps w (m_p (curm w))))
                                       @ [runnext (ps w (m_p (curm w)))]) \<and>
                          globq w' = globq w @ batch))
            else runnext (ps w' (m_p (curm w))) = runnext (ps w (m_p (curm w))) \<and>
                 (if runqtail (ps w (m_p (curm w))) - runqhead (ps w (m_p (curm w))) < len_runq
                  then ring (ps w' (m_p (curm w))) = ring (ps w (m_p (curm w))) @ [gp] \<and>
                       globq w' = globq w
                  else ring (ps w' (m_p (curm w))) = drop 128 (ring (ps w (m_p (curm w)))) \<and>
                       (\<exists>batch. mset batch = mset (take 128 (ring (ps w (m_p (curm w)))) @ [gp]) \<and>
                          (\<not> randomizeScheduler e \<longrightarrow>
                             batch = take 128 (ring (ps w (m_p (curm w)))) @ [gp]) \<and>
                          globq w' = globq w @ batch))) \<and>
           (if npidle (sched w) \<noteq> 0 \<and> nmspinning (sched w) = 0
            then events w' = events w @ [Startm 0 True] \<and> nmspinning (sched w') = 1
            else events w' = events w \<and> nmspinning (sched w') = nmspinning (sched w)) \<and>
           locks (curm w') = locks (curm w)))"
  using ready_bad_status [of w gp e "next"] ready_scan [of w gp e "next"]
    ready_put [of w gp e "next"]
  by blast

theorem ready_spec_witness:
  "ready env_default 8 True wit_ready = Some (Inl (Throw ''bad g->status in ready'')) \<and>
   ready env_default 9 True wit_ready = None \<and>
   (\<exists>w'. ready env_default 7 True wit_ready = Some (Inr w') \<and>
      atomicstatus (gs w' 7) = (Grunnable, False) \<and> runnext (ps w' 2) = 7 \<and>
      ring (ps w' 2) = [] \<and> events w' = [Startm 0 True] \<and> nmspinning (sched w') = 1) \<and>
   (\<exists>w'. ready env_default 7 False wit_ready_full = Some (Inr w') \<and>
      atomicstatus (gs w' 7) = (Grunnable, False) \<and> runnext (ps w' 2) = 0 \<and>
      ring (ps w' 2) = map (\<lambda>i. 1000 + i) [128..<256] \<and>
      globq w' = map (\<lambda>i. 1000 + i) [0..<128] @ [7])"
proof -
  have nr: "\<not> randomizeScheduler env_default"
    by (simp add: randomizeScheduler_def env_default_def)
  have a: "ready env_default 8 True wit_ready = Some (Inl (Throw ''bad g->status in ready''))"
    using ready_spec [of wit_ready 8 env_default True] by (simp add: wit_ready_simps)
  have b: "ready env_default 9 True wit_ready = None"
    using ready_spec [of wit_ready 9 env_default True] by (simp add: wit_ready_simps)
  have c: "\<exists>w'. ready env_default 7 True wit_ready = Some (Inr w') \<and>
      atomicstatus (gs w' 7) = (Grunnable, False) \<and> runnext (ps w' 2) = 7 \<and>
      ring (ps w' 2) = [] \<and> events w' = [Startm 0 True] \<and> nmspinning (sched w') = 1"
    using ready_spec [of wit_ready 7 env_default True]
    by (auto simp: wit_ready_simps ring_p_zero nr)
  have h: "atomicstatus (gs wit_ready_full 7) = (Gwaiting, False) \<and>
    (runqtail (ps wit_ready_full (m_p (curm wit_ready_full)))
       - runqhead (ps wit_ready_full (m_p (curm wit_ready_full))) < len_runq \<or>
     (runqtail (ps wit_ready_full (m_p (curm wit_ready_full)))
        - runqhead (ps wit_ready_full (m_p (curm wit_ready_full))) = len_runq \<and>
      runq_inv (m_p (curm wit_ready_full)) wit_ready_full \<and> (7 :: nat) \<noteq> 0 \<and>
      7 \<notin> set (ring (ps wit_ready_full (m_p (curm wit_ready_full)))) \<union> set (globq wit_ready_full)))"
    using wit_ready_full_ok by (simp add: wit_ready_full_simps(1,2))
  have tk: "take 128 (ring (ps wit_ready_full 2)) = map (\<lambda>i. 1000 + i) [0..<128]"
    and dr: "drop 128 (ring (ps wit_ready_full 2)) = map (\<lambda>i. 1000 + i) [128..<256]"
    by (simp_all add: wit_ready_full_simps wit_full_ring take_map drop_map)
  from ready_spec [of wit_ready_full 7 env_default False] h
  obtain w' where r: "ready env_default 7 False wit_ready_full = Some (Inr w')"
      "atomicstatus (gs w' 7) = (Grunnable, False)"
    and q: "runnext (ps w' 2) = runnext (ps wit_ready_full 2) \<and>
            ring (ps w' 2) = drop 128 (ring (ps wit_ready_full 2)) \<and>
            (\<exists>batch. mset batch = mset (take 128 (ring (ps wit_ready_full 2)) @ [7]) \<and>
               (\<not> randomizeScheduler env_default \<longrightarrow>
                  batch = take 128 (ring (ps wit_ready_full 2)) @ [7]) \<and>
               globq w' = globq wit_ready_full @ batch)"
    by (auto simp: wit_ready_full_simps(2) wit_ready_full_ok(2))
  have d: "\<exists>w'. ready env_default 7 False wit_ready_full = Some (Inr w') \<and>
      atomicstatus (gs w' 7) = (Grunnable, False) \<and> runnext (ps w' 2) = 0 \<and>
      ring (ps w' 2) = map (\<lambda>i. 1000 + i) [128..<256] \<and>
      globq w' = map (\<lambda>i. 1000 + i) [0..<128] @ [7]"
  proof -
    have rn: "runnext (ps wit_ready_full 2) = 0"
      by (simp add: wit_ready_full_simps wit_full_simps)
    from q nr obtain batch where "runnext (ps w' 2) = 0"
        "ring (ps w' 2) = map (\<lambda>i. 1000 + i) [128..<256]"
        "batch = map (\<lambda>i. 1000 + i) [0..<128] @ [7]" "globq w' = [] @ batch"
      unfolding tk dr rn wit_ready_full_simps(4) by blast
    with r show ?thesis
      by (intro exI [of _ w']) (simp only: append_Nil simp_thms)
  qed
  from a b c d show ?thesis
    by (simp only: simp_thms)
qed

section \<open>The failures of task creation\<close>

text \<open>
  The free lists of G's (of the P, and the two global ones) hold G's of a set \<open>S\<close> only,
  which are dead, linked to each other, and have a stack with a top or none at all.
\<close>

definition free_inv :: "guintptr set \<Rightarrow> puintptr \<Rightarrow> world \<Rightarrow> bool" where
  "free_inv S pp w \<longleftrightarrow>
     0 \<notin> S \<and>
     (gfree (ps w pp) = 0 \<or> gfree (ps w pp) \<in> S) \<and>
     (gfreeStack (sched w) = 0 \<or> gfreeStack (sched w) \<in> S) \<and>
     (gfreeNoStack (sched w) = 0 \<or> gfreeNoStack (sched w) \<in> S) \<and>
     (\<forall>g\<in>S. (schedlink (gs w g) = 0 \<or> schedlink (gs w g) \<in> S) \<and>
             atomicstatus (gs w g) = (Gdead, False) \<and>
             (lo (gstack (gs w g)) \<noteq> 0 \<longrightarrow> hi (gstack (gs w g)) \<noteq> 0))"

text \<open>
  What getting a G leaves alone: the M, the random stream, the run queues of the P's, the
  global run queue, \<open>sched.lock\<close>, the counts of idle P's and spinning M's, and every G
  outside a set \<open>T\<close>.
\<close>

definition keep :: "guintptr set \<Rightarrow> world \<Rightarrow> world \<Rightarrow> bool" where
  "keep T w w' \<longleftrightarrow>
     curm w' = curm w \<and> curg w' = curg w \<and> mainStarted w' = mainStarted w \<and>
     rand w' = rand w \<and>
     lock_held (sched w') = lock_held (sched w) \<and>
     npidle (sched w') = npidle (sched w) \<and> nmspinning (sched w') = nmspinning (sched w) \<and>
     sched_runqhead (sched w') = sched_runqhead (sched w) \<and>
     sched_runqtail (sched w') = sched_runqtail (sched w) \<and>
     runqsize (sched w') = runqsize (sched w) \<and>
     (\<forall>p. runqhead (ps w' p) = runqhead (ps w p) \<and> runqtail (ps w' p) = runqtail (ps w p) \<and>
          runq (ps w' p) = runq (ps w p) \<and> runnext (ps w' p) = runnext (ps w p)) \<and>
     (\<forall>g. g \<notin> T \<longrightarrow> gs w' g = gs w g)"

lemma keep_refl: "keep T w w"
  by (simp add: keep_def)

lemma keep_trans: "keep T w w1 \<Longrightarrow> keep T w1 w2 \<Longrightarrow> keep T w w2"
  by (simp add: keep_def)

lemma keep_mono: "keep T w w' \<Longrightarrow> T \<subseteq> T' \<Longrightarrow> keep T' w w'"
  by (auto simp: keep_def)

lemma keep_ring: "keep T w w' \<Longrightarrow> ring (ps w' p) = ring (ps w p)"
  by (simp add: keep_def ring_def)

lemma keep_globq:
  assumes k: "keep T w w'" and d: "T \<inter> set (globq w) = {}"
  shows "globq w' = globq w" and "globq_inv w \<Longrightarrow> globq_inv w'"
proof -
  have s: "schedlink (gs w' x) = schedlink (gs w x)" if "x \<in> set (globq w)" for x
  proof -
    have "x \<notin> T" using that d by auto
    with k show ?thesis by (simp add: keep_def)
  qed
  have f: "sched_runqhead (sched w') = sched_runqhead (sched w)"
    "sched_runqtail (sched w') = sched_runqtail (sched w)"
    "runqsize (sched w') = runqsize (sched w)"
    using k by (simp_all add: keep_def)
  show "globq w' = globq w"
    using f s by (rule globq_frame(1))
  show "globq_inv w \<Longrightarrow> globq_inv w'"
    using f s by (rule globq_frame(2))
qed

lemma keep_runq_inv:
  assumes k: "keep T w w'" and d: "T \<inter> set (globq w) = {}" and inv: "runq_inv pp w"
  shows "runq_inv pp w'"
proof -
  have "globq_inv w'"
    using inv keep_globq(2) [OF k d] by (simp add: runq_inv_def)
  moreover have "runqsize (sched w') = runqsize (sched w)" "lock_held (sched w') = lock_held (sched w)"
    "runnext (ps w' pp) = runnext (ps w pp)"
    using k by (simp_all add: keep_def)
  ultimately show ?thesis
    using inv by (simp add: runq_inv_def keep_ring [OF k] keep_globq(1) [OF k d])
qed

lemma gfget_move_facts:
  "gp \<in> S \<Longrightarrow> keep S w (gfget_move pp gp w)"
  "gfree (ps (gfget_move pp gp w) pp) = gp"
  "sched (gfget_move pp gp w) = (sched w)\<lparr>ngfree := ngfree (sched w) - 1\<rparr>"
  "gs (gfget_move pp gp w) = (gs w)(gp := (gs w gp)\<lparr>schedlink := gfree (ps w pp)\<rparr>)"
  "heap_next (gfget_move pp gp w) = heap_next w"
  by (simp_all add: gfget_move_def keep_def Let_def upd_p_def upd_g_def upd_sched_def)

lemma free_inv_move_stack:
  assumes inv: "free_inv S pp w" and ne: "gfreeStack (sched w) \<noteq> 0"
  shows "free_inv S pp (gfget_move pp (gfreeStack (sched w))
            (upd_sched (\<lambda>s. s\<lparr>gfreeStack := schedlink (gs w (gfreeStack (sched w)))\<rparr>) w))"
proof -
  let ?gp = "gfreeStack (sched w)"
  have gp: "?gp \<in> S"
    using inv ne by (auto simp: free_inv_def)
  show ?thesis
    using inv gp unfolding free_inv_def gfget_move_facts
    by (auto simp: upd_sched_def)
qed

lemma free_inv_move_nostack:
  assumes inv: "free_inv S pp w" and ne: "gfreeNoStack (sched w) \<noteq> 0"
  shows "free_inv S pp (gfget_move pp (gfreeNoStack (sched w))
            (upd_sched (\<lambda>s. s\<lparr>gfreeNoStack := schedlink (gs w (gfreeNoStack (sched w)))\<rparr>) w))"
proof -
  let ?gp = "gfreeNoStack (sched w)"
  have gp: "?gp \<in> S"
    using inv ne by (auto simp: free_inv_def)
  show ?thesis
    using inv gp unfolding free_inv_def gfget_move_facts
    by (auto simp: upd_sched_def)
qed

lemma gfget_fill_inv:
  "free_inv S pp w \<Longrightarrow>
     free_inv S pp (gfget_fill pp w) \<and> keep S w (gfget_fill pp w) \<and>
     heap_next (gfget_fill pp w) = heap_next w \<and>
     gflock_held (sched (gfget_fill pp w)) = gflock_held (sched w) \<and>
     (gfree (ps w pp) \<noteq> 0 \<or>
        (gfreecnt (ps w pp) <s 32 \<and> (gfreeStack (sched w) \<noteq> 0 \<or> gfreeNoStack (sched w) \<noteq> 0))
      \<longrightarrow> gfree (ps (gfget_fill pp w) pp) \<noteq> 0)"
proof (induction pp w rule: gfget_fill.induct)
  case (1 pp w)
  note inv = "1.prems"
  have z: "0 \<notin> S"
    using inv by (simp add: free_inv_def)
  show ?case
  proof (cases "gfreecnt (ps w pp) <s 32")
    case False
    then have "gfget_fill pp w = w"
      by (subst gfget_fill.simps) simp
    with inv False show ?thesis
      by (simp add: keep_refl)
  next
    case lt: True
    show ?thesis
    proof (cases "gfreeStack (sched w) \<noteq> 0")
      case True
      let ?gp = "gfreeStack (sched w)"
      let ?w1 = "upd_sched (\<lambda>s. s\<lparr>gfreeStack := schedlink (gs w ?gp)\<rparr>) w"
      let ?w2 = "gfget_move pp ?gp ?w1"
      have eq: "gfget_fill pp w = gfget_fill pp ?w2"
        using lt True by (subst gfget_fill.simps) (simp add: Let_def)
      have inv2: "free_inv S pp ?w2"
        using inv True by (rule free_inv_move_stack)
      have mem: "?gp \<in> S"
        using inv True by (auto simp: free_inv_def)
      have k1: "keep S w ?w1"
        by (simp add: keep_def upd_sched_def)
      have k2: "keep S w ?w2"
        using k1 gfget_move_facts(1) [OF mem] by (rule keep_trans)
      have h2: "heap_next ?w2 = heap_next w" "gflock_held (sched ?w2) = gflock_held (sched w)"
        "gfree (ps ?w2 pp) \<noteq> 0"
        using True by (simp_all add: gfget_move_facts upd_sched_def)
      from "1.IH"(1) [OF lt True refl refl inv2] k2 h2 show ?thesis
        unfolding eq by (auto intro: keep_trans)
    next
      case ns: False
      show ?thesis
      proof (cases "gfreeNoStack (sched w) \<noteq> 0")
        case True
        let ?gp = "gfreeNoStack (sched w)"
        let ?w1 = "upd_sched (\<lambda>s. s\<lparr>gfreeNoStack := schedlink (gs w ?gp)\<rparr>) w"
        let ?w2 = "gfget_move pp ?gp ?w1"
        have eq: "gfget_fill pp w = gfget_fill pp ?w2"
          using lt ns True by (subst gfget_fill.simps) (simp add: Let_def)
        have inv2: "free_inv S pp ?w2"
          using inv True by (rule free_inv_move_nostack)
        have mem: "?gp \<in> S"
          using inv True by (auto simp: free_inv_def)
        have k1: "keep S w ?w1"
          by (simp add: keep_def upd_sched_def)
        have k2: "keep S w ?w2"
          using k1 gfget_move_facts(1) [OF mem] by (rule keep_trans)
        have h2: "heap_next ?w2 = heap_next w" "gflock_held (sched ?w2) = gflock_held (sched w)"
          "gfree (ps ?w2 pp) \<noteq> 0"
          using True by (simp_all add: gfget_move_facts upd_sched_def)
        from "1.IH"(2) [OF lt ns True refl refl inv2] k2 h2 show ?thesis
          unfolding eq by (auto intro: keep_trans)
      next
        case False
        with ns have "gfget_fill pp w = w"
          by (subst gfget_fill.simps) simp
        with inv ns False show ?thesis
          by (simp add: keep_refl)
      qed
    qed
  qed
qed

lemma gfget_take:
  assumes ne: "gfree (ps w pp) \<noteq> 0" and inv: "free_inv S pp w"
    and alloc: "\<forall>k n. hi (stackalloc e k n) \<noteq> 0"
  shows "\<exists>w1. gfget e pp w = Some (gfree (ps w pp), w1) \<and> keep S w w1 \<and>
           atomicstatus (gs w1 (gfree (ps w pp))) = (Gdead, False) \<and>
           hi (gstack (gs w1 (gfree (ps w pp)))) \<noteq> 0"
proof -
  let ?gp = "gfree (ps w pp)"
  let ?w1 = "upd_p pp (\<lambda>x. x\<lparr>gfree := schedlink (gs w ?gp), gfreecnt := gfreecnt x - 1\<rparr>) w"
  have gp: "?gp \<in> S"
    using inv ne by (auto simp: free_inv_def)
  then have dead: "atomicstatus (gs w ?gp) = (Gdead, False)"
    and stk: "lo (gstack (gs w ?gp)) \<noteq> 0 \<longrightarrow> hi (gstack (gs w ?gp)) \<noteq> 0"
    using inv by (auto simp: free_inv_def)
  have k1: "keep S w ?w1"
    by (simp add: keep_def upd_p_def)
  show ?thesis
  proof (cases "lo (gstack (gs w ?gp)) = 0")
    case True
    let ?stk = "stackalloc e (heap_next w) (FixedStack e)"
    let ?w2 = "upd_g ?gp (\<lambda>x. x\<lparr>gstack := ?stk, stackguard0 := lo ?stk + StackGuard e\<rparr>)
                 (?w1\<lparr>heap_next := heap_next w + 1\<rparr>)"
    have "gfget e pp w = Some (?gp, ?w2)"
      using ne True
      by (subst gfget.simps) (simp add: Let_def stackalloc_w_def upd_p_def)
    moreover have "keep S w ?w2"
      using gp by (simp add: keep_def upd_p_def upd_g_def)
    moreover have "atomicstatus (gs ?w2 ?gp) = (Gdead, False)"
      using dead by (simp add: upd_g_def upd_p_def)
    moreover have "hi (gstack (gs ?w2 ?gp)) \<noteq> 0"
      using alloc by (simp add: upd_g_def upd_p_def)
    ultimately show ?thesis
      by blast
  next
    case False
    have "gfget e pp w = Some (?gp, ?w1)"
      using ne False by (subst gfget.simps) (simp add: Let_def)
    moreover have "atomicstatus (gs ?w1 ?gp) = (Gdead, False)" "hi (gstack (gs ?w1 ?gp)) \<noteq> 0"
      using dead stk False by simp_all
    ultimately show ?thesis
      using k1 by blast
  qed
qed

lemma gfget_returns:
  assumes inv: "free_inv S pp w" and cnt: "gfree (ps w pp) = 0 \<longrightarrow> gfreecnt (ps w pp) <s 32"
    and lock: "\<not> gflock_held (sched w)"
    and alloc: "\<forall>k n. hi (stackalloc e k n) \<noteq> 0"
  shows "\<exists>gp w1. gfget e pp w = Some (gp, w1) \<and> keep S w w1 \<and>
           (if gp = 0 then w1 = w
            else gp \<in> S \<and> atomicstatus (gs w1 gp) = (Gdead, False) \<and>
                 hi (gstack (gs w1 gp)) \<noteq> 0)"
proof (cases "gfree (ps w pp) = 0")
  case False
  then have "gfree (ps w pp) \<in> S"
    using inv by (auto simp: free_inv_def)
  with gfget_take [OF False inv alloc] False show ?thesis
    by auto
next
  case z: True
  show ?thesis
  proof (cases "gfreeStack (sched w) \<noteq> 0 \<or> gfreeNoStack (sched w) \<noteq> 0")
    case False
    with z have "gfget e pp w = Some (0, w)"
      by (subst gfget.simps) (simp add: Let_def)
    then show ?thesis
      by (simp add: keep_refl)
  next
    case True
    let ?wl = "upd_sched (\<lambda>s. s\<lparr>gflock_held := True\<rparr>) w"
    let ?wf = "gfget_fill pp ?wl"
    let ?wu = "upd_sched (\<lambda>s. s\<lparr>gflock_held := False\<rparr>) ?wf"
    have eq: "gfget e pp w = gfget e pp ?wu"
      using z True lock by (subst gfget.simps) (simp add: Let_def)
    have invl: "free_inv S pp ?wl"
      using inv by (simp add: free_inv_def upd_sched_def)
    have pre: "gfreecnt (ps ?wl pp) <s 32 \<and>
          (gfreeStack (sched ?wl) \<noteq> 0 \<or> gfreeNoStack (sched ?wl) \<noteq> 0)"
      using cnt z True by (simp add: upd_sched_def)
    from gfget_fill_inv [OF invl] pre
    have invf: "free_inv S pp ?wf" and kf: "keep S ?wl ?wf" and got: "gfree (ps ?wf pp) \<noteq> 0"
      by blast+
    have invu: "free_inv S pp ?wu"
      using invf by (simp add: free_inv_def upd_sched_def)
    have gotu: "gfree (ps ?wu pp) \<noteq> 0"
      using got by simp
    have "keep S w ?wl" "keep S ?wf ?wu"
      by (simp_all add: keep_def upd_sched_def)
    with kf have ku: "keep S w ?wu"
      by (blast intro: keep_trans)
    have mem: "gfree (ps ?wu pp) \<in> S"
      using invu gotu by (auto simp: free_inv_def)
    from gfget_take [OF gotu invu alloc] obtain w1 where
        g: "gfget e pp ?wu = Some (gfree (ps ?wu pp), w1)" and k1: "keep S ?wu w1"
      and d: "atomicstatus (gs w1 (gfree (ps ?wu pp))) = (Gdead, False)"
        "hi (gstack (gs w1 (gfree (ps ?wu pp)))) \<noteq> 0"
      by blast
    have "keep S w w1"
      using ku k1 by (rule keep_trans)
    with g mem d gotu show ?thesis
      unfolding eq
      by (intro exI [of _ "gfree (ps ?wu pp)"] exI [of _ w1]) (simp only: if_False simp_thms)
  qed
qed

lemma casgstatus_ok:
  assumes "atomicstatus (gs w gp) = oldval" and "\<not> snd oldval" and "\<not> snd newval"
    and "oldval \<noteq> newval" and "oldval \<noteq> (Grunning, False)" and "newval \<noteq> (Grunning, False)"
  shows "casgstatus gp oldval newval w =
           Some (Inr (upd_g gp (\<lambda>x. x\<lparr>atomicstatus := newval\<rparr>) w))"
  using assms by (simp add: casgstatus_def casgstatus_loop_ok)

lemma newproc1_g_returns:
  assumes inv: "free_inv S pp w" and cnt: "gfree (ps w pp) = 0 \<longrightarrow> gfreecnt (ps w pp) <s 32"
    and lock: "\<not> gflock_held (sched w)"
    and alloc: "\<forall>k n. hi (stackalloc e k n) \<noteq> 0"
    and smin: "0 \<le>s StackMin e" and hp: "heap_next w \<noteq> 0"
  shows "\<exists>newg w2. newproc1_g e pp w = Some (Inr (newg, w2)) \<and> newg \<noteq> 0 \<and>
           keep (insert (heap_next w) S) w w2 \<and>
           atomicstatus (gs w2 newg) = (Gdead, False) \<and> hi (gstack (gs w2 newg)) \<noteq> 0 \<and>
           (newg \<in> S \<or> newg = heap_next w)"
proof -
  from gfget_returns [OF inv cnt lock alloc] obtain gp w1 where
      g: "gfget e pp w = Some (gp, w1)" and k1: "keep S w w1"
    and r: "if gp = 0 then w1 = w
            else gp \<in> S \<and> atomicstatus (gs w1 gp) = (Gdead, False) \<and>
                 hi (gstack (gs w1 gp)) \<noteq> 0"
    by blast
  show ?thesis
  proof (cases "gp = 0")
    case False
    with g have "newproc1_g e pp w = Some (Inr (gp, w1))"
      by (simp add: newproc1_g_def)
    moreover have "keep (insert (heap_next w) S) w w1"
      using k1 by (rule keep_mono) auto
    ultimately show ?thesis
      using False r by auto
  next
    case True
    with r have w1: "w1 = w"
      by simp
    let ?newg = "heap_next w"
    define w2 where "w2 = snd (malg e (StackMin e) w)"
    define w3 where "w3 = upd_g ?newg (\<lambda>x. x\<lparr>atomicstatus := (Gdead, False)\<rparr>) w2"
    define w4 where "w4 = emit (Allgadd ?newg) w3"
    have m: "malg e (StackMin e) w = (?newg, w2)"
      using smin by (simp add: w2_def malg_def Let_def stackalloc_w_def)
    have w2: "atomicstatus (gs w2 ?newg) = (Gidle, False)" "hi (gstack (gs w2 ?newg)) \<noteq> 0"
      "keep (insert ?newg S) w w2"
      using smin alloc
      by (simp_all add: w2_def malg_def Let_def stackalloc_w_def upd_g_def g_zero_def keep_def)
    have c: "casgstatus ?newg (Gidle, False) (Gdead, False) w2 = Some (Inr w3)"
      unfolding w3_def using w2(1) by (rule casgstatus_ok) simp_all
    have a: "allgadd ?newg w3 = Inr w4"
      by (simp add: allgadd_def readgstatus_def w3_def w4_def upd_g_def)
    have "newproc1_g e pp w = Some (Inr (?newg, w4))"
      using g True by (simp add: newproc1_g_def w1 m c a)
    moreover have "keep (insert ?newg S) w w4"
      using w2(3) by (simp add: keep_def w4_def w3_def emit_def upd_g_def)
    moreover have "atomicstatus (gs w4 ?newg) = (Gdead, False)"
      by (simp add: w4_def w3_def emit_def upd_g_def)
    moreover have "hi (gstack (gs w4 ?newg)) \<noteq> 0"
      using w2(2) by (simp add: w4_def w3_def emit_def upd_g_def)
    ultimately show ?thesis
      using hp by blast
  qed
qed

lemma newproc1_nil: "newproc1 e 0 narg w = Some (Inl (Throw ''go of nil func value''))"
  by (simp add: newproc1_def)

lemma newproc1_too_large:
  "fn \<noteq> 0 \<Longrightarrow> StackMin e - 4 * RegSize e - RegSize e \<le>s (narg + 7) AND NOT 7 \<Longrightarrow>
   newproc1 e fn narg w =
     Some (Inl (Throw ''newproc: function arguments too large for new goroutine''))"
  by (simp add: newproc1_def Let_def)

lemma newproc1_creates:
  assumes fn: "fn \<noteq> 0"
    and fits: "\<not> StackMin e - 4 * RegSize e - RegSize e \<le>s (narg + 7) AND NOT 7"
    and inv: "free_inv S (m_p (curm w)) w"
    and cnt: "gfree (ps w (m_p (curm w))) = 0 \<longrightarrow> gfreecnt (ps w (m_p (curm w))) <s 32"
    and lock: "\<not> gflock_held (sched w)"
    and alloc: "\<forall>k n. hi (stackalloc e k n) \<noteq> 0"
    and smin: "0 \<le>s StackMin e" and hp: "heap_next w \<noteq> 0"
    and ring: "runqtail (ps w (m_p (curm w))) - runqhead (ps w (m_p (curm w))) < len_runq \<or>
           (runqtail (ps w (m_p (curm w))) - runqhead (ps w (m_p (curm w))) = len_runq \<and>
            runq_inv (m_p (curm w)) w \<and>
            insert (heap_next w) S \<inter> (set (ring (ps w (m_p (curm w)))) \<union> set (globq w)) = {})"
  shows "\<exists>newg w'. newproc1 e fn narg w = Some (Inr w') \<and> newg \<noteq> 0 \<and>
           (newg \<in> S \<or> newg = heap_next w) \<and>
           atomicstatus (gs w' newg) = (Grunnable, False) \<and> startpc (gs w' newg) = fn \<and>
           (if \<not> (randomizeScheduler e \<and> rand w 0 mod 2 = 0)
            then runnext (ps w' (m_p (curm w))) = newg
            else if runqtail (ps w (m_p (curm w))) - runqhead (ps w (m_p (curm w))) < len_runq
            then ring (ps w' (m_p (curm w))) = ring (ps w (m_p (curm w))) @ [newg]
            else ring (ps w' (m_p (curm w))) = drop 128 (ring (ps w (m_p (curm w)))) \<and>
                 (\<exists>batch. mset batch = mset (take 128 (ring (ps w (m_p (curm w)))) @ [newg]) \<and>
                    globq w' = globq w @ batch))"
proof -
  let ?pp = "m_p (curm w)"
  let ?T = "insert (heap_next w) S"
  define w1 where "w1 = locks_add 1 w"
  have w1: "m_p (curm w1) = ?pp" "ps w1 = ps w" "sched w1 = sched w" "heap_next w1 = heap_next w"
    "gs w1 = gs w" "rand w1 = rand w"
    by (simp_all add: w1_def locks_add_def)
  have gq1: "globq w1 = globq w" "globq_inv w1 = globq_inv w"
    by (simp_all add: w1_def globq_locks_add)
  have inv1: "free_inv S ?pp w1"
    using inv by (simp add: free_inv_def w1)
  have cnt1: "gfree (ps w1 ?pp) = 0 \<longrightarrow> gfreecnt (ps w1 ?pp) <s 32"
    and lock1: "\<not> gflock_held (sched w1)" and hp1: "heap_next w1 \<noteq> 0"
    using cnt lock hp by (simp_all add: w1)
  from newproc1_g_returns [OF inv1 cnt1 lock1 alloc smin hp1]
  obtain newg w2 where
      g: "newproc1_g e ?pp w1 = Some (Inr (newg, w2))" and nz: "newg \<noteq> 0"
    and k: "keep ?T w1 w2" and dead: "atomicstatus (gs w2 newg) = (Gdead, False)"
    and stk: "hi (gstack (gs w2 newg)) \<noteq> 0" and new: "newg \<in> S \<or> newg = heap_next w"
    by (auto simp: w1)
  have mem: "newg \<in> ?T"
    using new by auto
  define w3 where "w3 = upd_g newg (\<lambda>x. x\<lparr>startpc := fn\<rparr>) w2"
  define w4 where "w4 = (if isSystemGoroutine e (startpc (gs w3 newg))
                             then upd_sched (\<lambda>s. s\<lparr>ngsys := ngsys s + 1\<rparr>) w3 else w3)"
  define w5 where "w5 = upd_g newg (\<lambda>x. x\<lparr>gcscanvalid := False\<rparr>) w4"
  define w6 where "w6 = upd_g newg (\<lambda>x. x\<lparr>atomicstatus := (Grunnable, False)\<rparr>) w5"
  define w7 where "w7 = (if goidcache (ps w6 ?pp) = goidcacheend (ps w6 ?pp)
                                    then (let v = goidgen (sched w6) + GoidCacheBatch;
                                              wa = upd_sched (\<lambda>s. s\<lparr>goidgen := v\<rparr>) w6;
                                              wb = upd_p ?pp (\<lambda>x. x\<lparr>goidcache := v\<rparr>) wa;
                                              wc = upd_p ?pp (\<lambda>x. x\<lparr>goidcache :=
                                                      goidcache x - (GoidCacheBatch - 1)\<rparr>) wb
                                          in upd_p ?pp (\<lambda>x. x\<lparr>goidcacheend :=
                                                      goidcache x + GoidCacheBatch\<rparr>) wc)
                                    else w6)"
  define w8 where "w8 = upd_g newg (\<lambda>x. x\<lparr>goid := goidcache (ps w7 ?pp)\<rparr>) w7"
  define w9 where "w9 = upd_p ?pp (\<lambda>x. x\<lparr>goidcache := goidcache x + 1\<rparr>) w8"
  have c: "casgstatus newg (Gdead, False) (Grunnable, False) w5 = Some (Inr w6)"
    unfolding w6_def
    by (rule casgstatus_ok) (simp_all add: w5_def w4_def w3_def dead upd_g_def upd_sched_def)
  have k26: "keep ?T w2 w6"
    using mem by (auto simp: keep_def w6_def w5_def w4_def w3_def upd_g_def upd_sched_def)
  have k69: "keep ?T w6 w9"
    using mem
    by (auto simp: keep_def w9_def w8_def w7_def Let_def upd_g_def upd_sched_def upd_p_def)
  have k9: "keep ?T w1 w9"
    using k k26 k69 by (blast intro: keep_trans)
  have g9: "atomicstatus (gs w9 newg) = (Grunnable, False)" "startpc (gs w9 newg) = fn"
    by (simp_all add: w9_def w8_def w7_def w6_def w5_def w4_def w3_def Let_def
          upd_g_def upd_sched_def upd_p_def)
  have unfold: "newproc1 e fn narg w =
      (case runqput e ?pp newg True w9 of
         None \<Rightarrow> None
       | Some (Inl err) \<Rightarrow> Some (Inl err)
       | Some (Inr w10) \<Rightarrow>
           Some (Inr (locks_release e
             (if npidle (sched w10) \<noteq> 0 \<and> nmspinning (sched w10) = 0 \<and> mainStarted w10
              then wakep w10 else w10))))"
    using fn fits stk dead
    unfolding newproc1_def Let_def w1_def [symmetric] w1(1) g
      w9_def w8_def w7_def w6_def w5_def w4_def w3_def
    by (simp add: readgstatus_def casgstatus_ok)
  have f9: "runqhead (ps w9 ?pp) = runqhead (ps w ?pp)" "runqtail (ps w9 ?pp) = runqtail (ps w ?pp)"
    "ring (ps w9 ?pp) = ring (ps w ?pp)" "rand w9 = rand w"
    using k9 keep_ring [OF k9, of ?pp] by (simp_all add: keep_def w1)
  have gq9: "globq w9 = globq w \<and> runq_inv ?pp w9 \<and>
             newg \<notin> set (ring (ps w9 ?pp)) \<union> set (globq w9)"
    if full: "\<not> runqtail (ps w ?pp) - runqhead (ps w ?pp) < len_runq"
  proof -
    from ring full have rinv: "runq_inv ?pp w"
      and dj: "?T \<inter> (set (ring (ps w ?pp)) \<union> set (globq w)) = {}"
      by simp_all
    have d1: "?T \<inter> set (globq w1) = {}"
      using dj unfolding gq1 by blast
    have rinv1: "runq_inv ?pp w1"
      using rinv unfolding runq_inv_def w1 gq1 .
    have q9: "globq w9 = globq w"
      using keep_globq(1) [OF k9 d1] by (simp only: gq1)
    moreover have "runq_inv ?pp w9"
      using k9 d1 rinv1 by (rule keep_runq_inv)
    moreover have "newg \<notin> set (ring (ps w9 ?pp)) \<union> set (globq w9)"
      using mem dj unfolding f9 q9 by blast
    ultimately show ?thesis
      by (simp only: simp_thms)
  qed
  have ok9: "runqtail (ps w9 ?pp) - runqhead (ps w9 ?pp) < len_runq \<or>
           (runqtail (ps w9 ?pp) - runqhead (ps w9 ?pp) = len_runq \<and> runq_inv ?pp w9 \<and>
            newg \<noteq> 0 \<and> newg \<notin> set (ring (ps w9 ?pp)) \<union> set (globq w9))"
  proof (cases "runqtail (ps w ?pp) - runqhead (ps w ?pp) < len_runq")
    case True
    then show ?thesis
      by (simp only: f9 simp_thms)
  next
    case False
    with ring have "runqtail (ps w ?pp) - runqhead (ps w ?pp) = len_runq"
      by simp
    with gq9 [OF False] nz show ?thesis
      unfolding f9 by blast
  qed
  from runqput_spec [OF ok9, of e True] obtain w10 where
      put: "runqput e ?pp newg True w9 = Some (Inr w10)" and cm: "calm w9 w10"
    and q: "if True \<and> \<not> (randomizeScheduler e \<and> rand w9 0 mod 2 = 0)
            then runnext (ps w10 ?pp) = newg \<and>
                 (if runnext (ps w9 ?pp) = 0
                  then ring (ps w10 ?pp) = ring (ps w9 ?pp) \<and> globq w10 = globq w9
                  else if runqtail (ps w9 ?pp) - runqhead (ps w9 ?pp) < len_runq
                  then ring (ps w10 ?pp) = ring (ps w9 ?pp) @ [runnext (ps w9 ?pp)] \<and>
                       globq w10 = globq w9
                  else ring (ps w10 ?pp) = drop 128 (ring (ps w9 ?pp)) \<and>
                       (\<exists>batch. mset batch = mset (take 128 (ring (ps w9 ?pp)) @ [runnext (ps w9 ?pp)]) \<and>
                          (\<not> randomizeScheduler e \<longrightarrow>
                             batch = take 128 (ring (ps w9 ?pp)) @ [runnext (ps w9 ?pp)]) \<and>
                          globq w10 = globq w9 @ batch))
            else runnext (ps w10 ?pp) = runnext (ps w9 ?pp) \<and>
                 (if runqtail (ps w9 ?pp) - runqhead (ps w9 ?pp) < len_runq
                  then ring (ps w10 ?pp) = ring (ps w9 ?pp) @ [newg] \<and> globq w10 = globq w9
                  else ring (ps w10 ?pp) = drop 128 (ring (ps w9 ?pp)) \<and>
                       (\<exists>batch. mset batch = mset (take 128 (ring (ps w9 ?pp)) @ [newg]) \<and>
                          (\<not> randomizeScheduler e \<longrightarrow> batch = take 128 (ring (ps w9 ?pp)) @ [newg]) \<and>
                          globq w10 = globq w9 @ batch))"
    by blast
  have st: "atomicstatus (gs w10 newg) = (Grunnable, False)" "startpc (gs w10 newg) = fn"
    using cm g9 by (simp_all add: calm_def)
  define w11 where "w11 = (if npidle (sched w10) \<noteq> 0 \<and> nmspinning (sched w10) = 0
                              \<and> mainStarted w10 then wakep w10 else w10)"
  have w11: "ps w11 = ps w10" "gs w11 = gs w10" "globq w11 = globq w10"
    by (simp_all add: w11_def globq_wakep)
       (simp_all add: wakep_def cas_def Let_def emit_def upd_sched_def)
  have rel: "ps (locks_release e w11) = ps w10"
    "atomicstatus (gs (locks_release e w11) newg) = (Grunnable, False)"
    "startpc (gs (locks_release e w11) newg) = fn"
    "globq (locks_release e w11) = globq w10"
    by (simp_all add: locks_release_fields globq_locks_release w11 st)
  have res: "newproc1 e fn narg w = Some (Inr (locks_release e w11))"
    by (simp add: unfold put w11_def)
  have place: "if \<not> (randomizeScheduler e \<and> rand w 0 mod 2 = 0)
            then runnext (ps w10 ?pp) = newg
            else if runqtail (ps w ?pp) - runqhead (ps w ?pp) < len_runq
            then ring (ps w10 ?pp) = ring (ps w ?pp) @ [newg]
            else ring (ps w10 ?pp) = drop 128 (ring (ps w ?pp)) \<and>
                 (\<exists>batch. mset batch = mset (take 128 (ring (ps w ?pp)) @ [newg]) \<and>
                    globq w10 = globq w @ batch)"
  proof (cases "runqtail (ps w ?pp) - runqhead (ps w ?pp) < len_runq")
    case True
    with q show ?thesis
      unfolding f9 by (auto split: if_splits)
  next
    case False
    from gq9 [OF False] have q9: "globq w9 = globq w"
      by simp
    show ?thesis
    proof (cases "randomizeScheduler e \<and> rand w 0 mod 2 = 0")
      case True
      with q False show ?thesis
        unfolding f9 q9 by (simp only: simp_thms if_True if_False)
    next
      case nc: False
      with q show ?thesis
        unfolding f9 q9 by (simp only: simp_thms if_True if_False)
    qed
  qed
  show ?thesis
    using res nz new place
    by (intro exI [of _ newg] exI [of _ "locks_release e w11"]) (simp only: rel simp_thms)
qed

lemma newproc_world_zero:
  "free_inv {} (m_p (curm world_zero)) world_zero"
  "gfree (ps world_zero (m_p (curm world_zero))) = 0 \<longrightarrow>
     gfreecnt (ps world_zero (m_p (curm world_zero))) <s 32"
  "\<not> gflock_held (sched world_zero)" "\<forall>k n. hi (stackalloc env_default k n) \<noteq> 0"
  "0 \<le>s StackMin env_default" "heap_next world_zero \<noteq> 0"
  "runqtail (ps world_zero (m_p (curm world_zero)))
     - runqhead (ps world_zero (m_p (curm world_zero))) < len_runq"
  "\<not> StackMin env_default - 4 * RegSize env_default - RegSize env_default
       \<le>s ((16 :: int32) + 7) AND NOT 7"
  "StackMin env_default - 4 * RegSize env_default - RegSize env_default
       \<le>s ((4000 :: int32) + 7) AND NOT 7"
  "m_p (curm world_zero) = 2" "heap_next world_zero = 1000" "\<not> randomizeScheduler env_default"
  by (simp_all add: free_inv_def world_zero_def p_zero_def sched_zero_def env_default_def
        or_eq_0_iff word_sle_eq word_sless_alt randomizeScheduler_def)

text \<open>
  The world with the full local queue of P 2 (the G's 1000 to 1255), in which the next G to
  be allocated is at 5000; the first draw of its random stream is even.
\<close>

definition wit_new_full :: world where
  "wit_new_full = wit_full\<lparr>heap_next := 5000\<rparr>"

lemma wit_new_full_simps:
  "ps wit_new_full = ps wit_full" "sched wit_new_full = sched_zero"
  "m_p (curm wit_new_full) = 2" "heap_next wit_new_full = 5000" "rand wit_new_full 0 = 0"
  "globq wit_new_full = []" "globq_inv wit_new_full"
  by (simp_all add: wit_new_full_def wit_full_def world_zero_def globq_def globq_inv_def
        sched_zero_def)

lemma newproc_wit_new_full:
  "free_inv {} 2 wit_new_full"
  "gfree (ps wit_new_full 2) = 0 \<longrightarrow> gfreecnt (ps wit_new_full 2) <s 32"
  "\<not> gflock_held (sched wit_new_full)" "\<forall>k n. hi (stackalloc env_race k n) \<noteq> 0"
  "0 \<le>s StackMin env_race" "heap_next wit_new_full \<noteq> 0"
  "\<not> StackMin env_race - 4 * RegSize env_race - RegSize env_race \<le>s ((16 :: int32) + 7) AND NOT 7"
  "randomizeScheduler env_race"
  by (simp_all add: free_inv_def wit_new_full_def wit_full_def world_zero_def p_zero_def
        sched_zero_def env_race_def env_default_def or_eq_0_iff word_sle_eq word_sless_alt
        randomizeScheduler_def)

lemma wit_new_full_ok:
  "runqtail (ps wit_new_full 2) - runqhead (ps wit_new_full 2) = len_runq"
  "\<not> runqtail (ps wit_new_full 2) - runqhead (ps wit_new_full 2) < len_runq"
  "runq_inv 2 wit_new_full"
  "insert (heap_next wit_new_full) {} \<inter> (set (ring (ps wit_new_full 2)) \<union> set (globq wit_new_full)) = {}"
proof -
  show "runqtail (ps wit_new_full 2) - runqhead (ps wit_new_full 2) = len_runq"
    by (simp only: wit_new_full_simps wit_full_simps) simp
  then show "\<not> runqtail (ps wit_new_full 2) - runqhead (ps wit_new_full 2) < len_runq"
    by (simp only:)
  have d: "distinct (map (\<lambda>i. 1000 + i) [0..<256 :: nat])"
    by (simp add: distinct_map inj_on_def)
  show "runq_inv 2 wit_new_full"
    unfolding runq_inv_def wit_new_full_simps wit_full_ring wit_full_simps
    using d by (auto simp: sched_zero_def wit_new_full_simps)
  show "insert (heap_next wit_new_full) {} \<inter> (set (ring (ps wit_new_full 2)) \<union> set (globq wit_new_full)) = {}"
    unfolding wit_new_full_simps wit_full_ring by auto
qed

text \<open>
  C8: \<open>newproc\<close> throws ``go of nil func value'' for a nil function value, and ``newproc:
  function arguments too large for new goroutine'' when \<open>siz = (narg + 7) &^ 7\<close> is at least
  \<open>_StackMin - 4 * RegSize - RegSize\<close>, in every state and every build. For every other
  input it returns with a G, taken from a free list or freshly allocated, that is runnable,
  starts \<open>fn\<close> and is enqueued by \<open>runqput(_p_, newg, true)\<close>: in the runnext slot of the M's
  P; or, when a race-detector build clears \<open>next\<close> on an even \<open>fastrand()\<close>, at the tail of
  the ring of the P if that has room, and on the global queue, in one batch with the first
  half of the ring, if it is full. This last part is for a state that is in order: the free
  lists hold dead G's (the set \<open>S\<close>), an empty list of the P has a count below 32,
  \<open>sched.gflock\<close> is free, \<open>stackalloc\<close> never returns a stack without a top, \<open>_StackMin\<close> is
  not negative, allocation does not return nil, and the ring of the P has room, or is full
  with the state that \<open>runqputslow\<close> relies on and no free or unallocated G on a run queue.
\<close>

theorem newproc_failures:
  "(fn = 0 \<longrightarrow> newproc e narg fn w = Some (Inl (Throw ''go of nil func value''))) \<and>
   (fn \<noteq> 0 \<and> StackMin e - 4 * RegSize e - RegSize e \<le>s (narg + 7) AND NOT 7 \<longrightarrow>
      newproc e narg fn w =
        Some (Inl (Throw ''newproc: function arguments too large for new goroutine''))) \<and>
   (fn \<noteq> 0 \<and> \<not> StackMin e - 4 * RegSize e - RegSize e \<le>s (narg + 7) AND NOT 7 \<and>
    free_inv S (m_p (curm w)) w \<and>
    (gfree (ps w (m_p (curm w))) = 0 \<longrightarrow> gfreecnt (ps w (m_p (curm w))) <s 32) \<and>
    \<not> gflock_held (sched w) \<and> (\<forall>k n. hi (stackalloc e k n) \<noteq> 0) \<and>
    0 \<le>s StackMin e \<and> heap_next w \<noteq> 0 \<and>
    (runqtail (ps w (m_p (curm w))) - runqhead (ps w (m_p (curm w))) < len_runq \<or>
     (runqtail (ps w (m_p (curm w))) - runqhead (ps w (m_p (curm w))) = len_runq \<and>
      runq_inv (m_p (curm w)) w \<and>
      insert (heap_next w) S \<inter> (set (ring (ps w (m_p (curm w)))) \<union> set (globq w)) = {})) \<longrightarrow>
      (\<exists>newg w'. newproc e narg fn w = Some (Inr w') \<and> newg \<noteq> 0 \<and>
           (newg \<in> S \<or> newg = heap_next w) \<and>
           atomicstatus (gs w' newg) = (Grunnable, False) \<and> startpc (gs w' newg) = fn \<and>
           (if \<not> (randomizeScheduler e \<and> rand w 0 mod 2 = 0)
            then runnext (ps w' (m_p (curm w))) = newg
            else if runqtail (ps w (m_p (curm w))) - runqhead (ps w (m_p (curm w))) < len_runq
            then ring (ps w' (m_p (curm w))) = ring (ps w (m_p (curm w))) @ [newg]
            else ring (ps w' (m_p (curm w))) = drop 128 (ring (ps w (m_p (curm w)))) \<and>
                 (\<exists>batch. mset batch = mset (take 128 (ring (ps w (m_p (curm w)))) @ [newg]) \<and>
                    globq w' = globq w @ batch))))"
proof (intro conjI impI)
  assume "fn = 0"
  then show "newproc e narg fn w = Some (Inl (Throw ''go of nil func value''))"
    by (simp add: newproc_def newproc1_nil)
next
  assume "fn \<noteq> 0 \<and> StackMin e - 4 * RegSize e - RegSize e \<le>s (narg + 7) AND NOT 7"
  then show "newproc e narg fn w =
        Some (Inl (Throw ''newproc: function arguments too large for new goroutine''))"
    unfolding newproc_def by (intro newproc1_too_large) simp_all
next
  assume a: "fn \<noteq> 0 \<and> \<not> StackMin e - 4 * RegSize e - RegSize e \<le>s (narg + 7) AND NOT 7 \<and>
    free_inv S (m_p (curm w)) w \<and>
    (gfree (ps w (m_p (curm w))) = 0 \<longrightarrow> gfreecnt (ps w (m_p (curm w))) <s 32) \<and>
    \<not> gflock_held (sched w) \<and> (\<forall>k n. hi (stackalloc e k n) \<noteq> 0) \<and>
    0 \<le>s StackMin e \<and> heap_next w \<noteq> 0 \<and>
    (runqtail (ps w (m_p (curm w))) - runqhead (ps w (m_p (curm w))) < len_runq \<or>
     (runqtail (ps w (m_p (curm w))) - runqhead (ps w (m_p (curm w))) = len_runq \<and>
      runq_inv (m_p (curm w)) w \<and>
      insert (heap_next w) S \<inter> (set (ring (ps w (m_p (curm w)))) \<union> set (globq w)) = {}))"
  then have h: "fn \<noteq> 0" "\<not> StackMin e - 4 * RegSize e - RegSize e \<le>s (narg + 7) AND NOT 7"
    "free_inv S (m_p (curm w)) w"
    "gfree (ps w (m_p (curm w))) = 0 \<longrightarrow> gfreecnt (ps w (m_p (curm w))) <s 32"
    "\<not> gflock_held (sched w)" "\<forall>k n. hi (stackalloc e k n) \<noteq> 0"
    "0 \<le>s StackMin e" "heap_next w \<noteq> 0"
    "runqtail (ps w (m_p (curm w))) - runqhead (ps w (m_p (curm w))) < len_runq \<or>
     (runqtail (ps w (m_p (curm w))) - runqhead (ps w (m_p (curm w))) = len_runq \<and>
      runq_inv (m_p (curm w)) w \<and>
      insert (heap_next w) S \<inter> (set (ring (ps w (m_p (curm w)))) \<union> set (globq w)) = {})"
    by blast+
  show "\<exists>newg w'. newproc e narg fn w = Some (Inr w') \<and> newg \<noteq> 0 \<and>
           (newg \<in> S \<or> newg = heap_next w) \<and>
           atomicstatus (gs w' newg) = (Grunnable, False) \<and> startpc (gs w' newg) = fn \<and>
           (if \<not> (randomizeScheduler e \<and> rand w 0 mod 2 = 0)
            then runnext (ps w' (m_p (curm w))) = newg
            else if runqtail (ps w (m_p (curm w))) - runqhead (ps w (m_p (curm w))) < len_runq
            then ring (ps w' (m_p (curm w))) = ring (ps w (m_p (curm w))) @ [newg]
            else ring (ps w' (m_p (curm w))) = drop 128 (ring (ps w (m_p (curm w)))) \<and>
                 (\<exists>batch. mset batch = mset (take 128 (ring (ps w (m_p (curm w)))) @ [newg]) \<and>
                    globq w' = globq w @ batch))"
    unfolding newproc_def by (rule newproc1_creates [OF h])
qed

theorem newproc_failures_witness:
  "newproc env_default 16 0 world_zero = Some (Inl (Throw ''go of nil func value'')) \<and>
   newproc env_default 4000 5 world_zero =
     Some (Inl (Throw ''newproc: function arguments too large for new goroutine'')) \<and>
   (\<exists>w'. newproc env_default 16 5 world_zero = Some (Inr w') \<and>
      atomicstatus (gs w' 1000) = (Grunnable, False) \<and> startpc (gs w' 1000) = 5 \<and>
      runnext (ps w' 2) = 1000) \<and>
   (\<exists>w'. newproc env_race 16 5 wit_new_full = Some (Inr w') \<and>
      atomicstatus (gs w' 5000) = (Grunnable, False) \<and> startpc (gs w' 5000) = 5 \<and>
      ring (ps w' 2) = map (\<lambda>i. 1000 + i) [128..<256] \<and>
      mset (globq w') = mset (map (\<lambda>i. 1000 + i) [0..<128] @ [5000]))"
proof -
  note t = newproc_failures [where e = env_default and w = world_zero and S = "{}"]
  have a: "newproc env_default 16 0 world_zero = Some (Inl (Throw ''go of nil func value''))"
    using t [of 0 16] by simp
  have b: "newproc env_default 4000 5 world_zero =
     Some (Inl (Throw ''newproc: function arguments too large for new goroutine''))"
    using t [of 5 4000] newproc_world_zero(9) by simp
  have "\<exists>newg w'. newproc env_default 16 5 world_zero = Some (Inr w') \<and> newg \<noteq> 0 \<and>
           (newg \<in> {} \<or> newg = heap_next world_zero) \<and>
           atomicstatus (gs w' newg) = (Grunnable, False) \<and> startpc (gs w' newg) = 5 \<and>
           runnext (ps w' (m_p (curm world_zero))) = newg"
    using t [of 5 16] newproc_world_zero(1-8,12) by simp
  then have c: "\<exists>w'. newproc env_default 16 5 world_zero = Some (Inr w') \<and>
      atomicstatus (gs w' 1000) = (Grunnable, False) \<and> startpc (gs w' 1000) = 5 \<and>
      runnext (ps w' 2) = 1000"
    by (auto simp: newproc_world_zero(10-12))
  have h: "(5 :: 64 word) \<noteq> 0 \<and>
    \<not> StackMin env_race - 4 * RegSize env_race - RegSize env_race \<le>s ((16 :: int32) + 7) AND NOT 7 \<and>
    free_inv {} (m_p (curm wit_new_full)) wit_new_full \<and>
    (gfree (ps wit_new_full (m_p (curm wit_new_full))) = 0 \<longrightarrow>
       gfreecnt (ps wit_new_full (m_p (curm wit_new_full))) <s 32) \<and>
    \<not> gflock_held (sched wit_new_full) \<and> (\<forall>k n. hi (stackalloc env_race k n) \<noteq> 0) \<and>
    0 \<le>s StackMin env_race \<and> heap_next wit_new_full \<noteq> 0 \<and>
    (runqtail (ps wit_new_full (m_p (curm wit_new_full)))
       - runqhead (ps wit_new_full (m_p (curm wit_new_full))) < len_runq \<or>
     (runqtail (ps wit_new_full (m_p (curm wit_new_full)))
        - runqhead (ps wit_new_full (m_p (curm wit_new_full))) = len_runq \<and>
      runq_inv (m_p (curm wit_new_full)) wit_new_full \<and>
      insert (heap_next wit_new_full) {} \<inter>
        (set (ring (ps wit_new_full (m_p (curm wit_new_full)))) \<union> set (globq wit_new_full)) = {}))"
    using newproc_wit_new_full(1-7) wit_new_full_ok(1,3,4)
    unfolding wit_new_full_simps(3) by simp
  have tk: "take 128 (ring (ps wit_new_full 2)) = map (\<lambda>i. 1000 + i) [0..<128]"
    and dr: "drop 128 (ring (ps wit_new_full 2)) = map (\<lambda>i. 1000 + i) [128..<256]"
    by (simp_all add: wit_new_full_simps wit_full_ring take_map drop_map)
  from newproc_failures [of 5 env_race 16 wit_new_full "{}"] h
  obtain newg w' where r: "newproc env_race 16 5 wit_new_full = Some (Inr w')"
      "newg = heap_next wit_new_full"
      "atomicstatus (gs w' newg) = (Grunnable, False)" "startpc (gs w' newg) = 5"
    and q: "ring (ps w' 2) = drop 128 (ring (ps wit_new_full 2)) \<and>
            (\<exists>batch. mset batch = mset (take 128 (ring (ps wit_new_full 2)) @ [newg]) \<and>
               globq w' = globq wit_new_full @ batch)"
    by (auto simp: wit_new_full_simps(3,5) wit_new_full_ok(2) newproc_wit_new_full(8))
  have d: "\<exists>w'. newproc env_race 16 5 wit_new_full = Some (Inr w') \<and>
      atomicstatus (gs w' 5000) = (Grunnable, False) \<and> startpc (gs w' 5000) = 5 \<and>
      ring (ps w' 2) = map (\<lambda>i. 1000 + i) [128..<256] \<and>
      mset (globq w') = mset (map (\<lambda>i. 1000 + i) [0..<128] @ [5000])"
  proof -
    have n: "newg = 5000"
      using r(2) by (simp only: wit_new_full_simps)
    from q obtain batch where "ring (ps w' 2) = map (\<lambda>i. 1000 + i) [128..<256]"
        "mset batch = mset (map (\<lambda>i. 1000 + i) [0..<128] @ [5000])" "globq w' = [] @ batch"
      unfolding tk dr n wit_new_full_simps(6) by blast
    with r show ?thesis
      unfolding n by (intro exI [of _ w']) (simp only: append_Nil simp_thms)
  qed
  from a b c d show ?thesis
    by (simp only: simp_thms)
qed

end
